(* ===== verification/Prelude.thy ===== *)
theory Prelude
  imports Main "HOL-Library.Word"
begin

text \<open>
  Shared vocabulary of the development: the C integer types as words, byte buffers as
  lists, reading and overwriting a run of bytes (\<open>memcpy\<close>, \<open>pread\<close>, \<open>pwrite\<close>), the
  little-endian image of a native integer, and the word and list facts that several
  components use. The collections \<open>bytes_simps\<close> and \<open>xor_simps\<close> carry the rewrite rules
  that component proofs pass to the simplifier.
\<close>

unbundle bit_operations_syntax

named_theorems bytes_simps "slices and overwrites of byte lists"
named_theorems xor_simps "exclusive or on words"

type_synonym u8 = "8 word"
type_synonym u16 = "16 word"
type_synonym u32 = "32 word"
type_synonym u64 = "64 word"
type_synonym bytes = "u8 list"

section \<open>Byte buffers\<close>

text \<open>\<open>bslice off n buf\<close> is the run of \<open>n\<close> bytes at \<open>off\<close>; \<open>overwrite off ys buf\<close> overwrites
  the run at \<open>off\<close> with \<open>ys\<close> and leaves the other bytes in place.\<close>

definition bslice :: "nat \<Rightarrow> nat \<Rightarrow> 'a list \<Rightarrow> 'a list" where
  "bslice off n xs = take n (drop off xs)"

definition overwrite :: "nat \<Rightarrow> 'a list \<Rightarrow> 'a list \<Rightarrow> 'a list" where
  "overwrite off ys xs = take off xs @ ys @ drop (off + length ys) xs"

lemma length_bslice [simp]: "length (bslice off n xs) = min n (length xs - off)"
  by (simp add: bslice_def)

lemma length_overwrite [bytes_simps]:
  "off + length ys \<le> length xs \<Longrightarrow> length (overwrite off ys xs) = length xs"
  by (simp add: overwrite_def)

lemma slice_append_left [bytes_simps]:
  "off + n \<le> length xs \<Longrightarrow> bslice off n (xs @ ys) = bslice off n xs"
  by (simp add: bslice_def)

lemma slice_append_right [bytes_simps]:
  "length xs \<le> off \<Longrightarrow> bslice off n (xs @ ys) = bslice (off - length xs) n ys"
  by (simp add: bslice_def)

lemma slice_zero [bytes_simps]: "bslice 0 n xs = take n xs"
  by (simp add: bslice_def)

lemma slice_all [bytes_simps]: "length xs = n \<Longrightarrow> bslice 0 n xs = xs"
  by (simp add: bslice_def)

lemma slice_drop [bytes_simps]: "bslice off n (drop k xs) = bslice (k + off) n xs"
  by (simp add: bslice_def add.commute)

lemma nth_slice [bytes_simps]:
  "i < n \<Longrightarrow> off + i < length xs \<Longrightarrow> bslice off n xs ! i = xs ! (off + i)"
  by (simp add: bslice_def)

lemma slice_overwrite_same [bytes_simps]:
  "off \<le> length xs \<Longrightarrow> n = length ys \<Longrightarrow> bslice off n (overwrite off ys xs) = ys"
  by (simp add: bslice_def overwrite_def)

lemma slice_overwrite_before [bytes_simps]:
  "o1 + n \<le> off \<Longrightarrow> off \<le> length xs \<Longrightarrow> bslice o1 n (overwrite off ys xs) = bslice o1 n xs"
  by (simp add: bslice_def overwrite_def) (simp add: min_def drop_take)

lemma slice_overwrite_after [bytes_simps]:
  assumes "off + length ys \<le> o1" and "off \<le> length xs"
  shows "bslice o1 n (overwrite off ys xs) = bslice o1 n xs"
proof -
  have "drop o1 (overwrite off ys xs) = drop o1 xs"
    using assms by (simp add: overwrite_def)
  then show ?thesis
    by (simp add: bslice_def)
qed

section \<open>Exclusive or\<close>

lemma xor_left_cancel [xor_simps, simp]: "(a :: 'a::len word) XOR (a XOR b) = b"
  by (metis xor.assoc xor_self_eq xor.left_neutral)

lemma xor_right_cancel [xor_simps, simp]: "((b :: 'a::len word) XOR a) XOR a = b"
  by (metis xor.assoc xor_self_eq xor.right_neutral)

lemma xor_eq_0_iff: "(a :: 'a::len word) XOR b = 0 \<longleftrightarrow> a = b"
  by (metis xor_right_cancel xor.left_neutral xor_self_eq)

section \<open>Native integers as bytes\<close>

text \<open>\<open>memcpy\<close> of a native integer on a little-endian host: byte \<open>i\<close> of the image holds
  bits \<open>8 i .. 8 i + 7\<close>.\<close>

definition le32_bytes :: "u32 \<Rightarrow> bytes" where
  "le32_bytes x = [ucast x, ucast (drop_bit 8 x), ucast (drop_bit 16 x), ucast (drop_bit 24 x)]"

definition le32_of_bytes :: "bytes \<Rightarrow> u32" where
  "le32_of_bytes bs =
     (case bs of [b0, b1, b2, b3] \<Rightarrow>
        ucast b0 OR push_bit 8 (ucast b1) OR push_bit 16 (ucast b2) OR push_bit 24 (ucast b3)
      | _ \<Rightarrow> 0)"

lemma length_le32_bytes [simp]: "length (le32_bytes x) = 4"
  by (simp add: le32_bytes_def)

lemma bit_ucast_u8 [simp]:
  "bit (ucast (b :: u8) :: 'a::len word) n \<longleftrightarrow> n < LENGTH('a) \<and> n < 8 \<and> bit b n"
  using bit_imp_le_length [of b n] by (auto simp: bit_unsigned_iff)

lemma le32_roundtrip [simp]: "le32_of_bytes (le32_bytes x) = x"
proof (rule bit_word_eqI)
  fix n :: nat
  assume n: "n < LENGTH(32)"
  consider "n < 8" | "8 \<le> n" "n < 16" | "16 \<le> n" "n < 24" | "24 \<le> n" by linarith
  then show "bit (le32_of_bytes (le32_bytes x)) n = bit x n"
    using n
    by cases (simp_all add: le32_of_bytes_def le32_bytes_def bit_or_iff bit_push_bit_iff
        bit_unsigned_iff bit_drop_bit_eq less_diff_conv2)
qed

lemma le32_bytes_of_bytes [simp]: "le32_bytes (le32_of_bytes [b0, b1, b2, b3]) = [b0, b1, b2, b3]"
proof -
  have bit: "bit (le32_of_bytes [b0, b1, b2, b3]) n \<longleftrightarrow>
      (if n < 8 then bit b0 n else if n < 16 then bit b1 (n - 8)
       else if n < 24 then bit b2 (n - 16) else n < 32 \<and> bit b3 (n - 24))" for n
    by (cases "n < 32")
       (simp_all add: le32_of_bytes_def bit_or_iff bit_push_bit_iff less_diff_conv2)
  show ?thesis
    by (auto simp: le32_bytes_def intro!: bit_word_eqI)
       (simp_all add: bit bit_unsigned_iff bit_drop_bit_eq)
qed

lemma le32_bytes_of_list: "length bs = 4 \<Longrightarrow> le32_bytes (le32_of_bytes bs) = bs"
  by (auto simp: numeral_eq_Suc length_Suc_conv)

lemma le32_of_bytes_inject:
  "length xs = 4 \<Longrightarrow> length ys = 4 \<Longrightarrow> le32_of_bytes xs = le32_of_bytes ys \<Longrightarrow> xs = ys"
  by (auto simp: numeral_eq_Suc length_Suc_conv dest: arg_cong [of _ _ le32_bytes])

definition le64_of_bytes :: "bytes \<Rightarrow> u64" where
  "le64_of_bytes bs =
     ucast (le32_of_bytes (bslice 0 4 bs)) OR push_bit 32 (ucast (le32_of_bytes (bslice 4 4 bs)))"

definition le64_bytes :: "u64 \<Rightarrow> bytes" where
  "le64_bytes x = le32_bytes (ucast x) @ le32_bytes (ucast (drop_bit 32 x))"

lemma le64_bytes_of_bytes [simp]: "length bs = 8 \<Longrightarrow> le64_bytes (le64_of_bytes bs) = bs"
proof -
  assume l: "length bs = 8"
  have lo: "ucast (ucast (a :: u32) OR push_bit 32 (ucast (b :: u32)) :: u64) = a" for a b
    by (rule bit_word_eqI) (auto simp: bit_unsigned_iff bit_or_iff bit_push_bit_iff)
  have hi: "ucast (drop_bit 32 (ucast (a :: u32) OR push_bit 32 (ucast (b :: u32)) :: u64)) = b" for a b
    by (rule bit_word_eqI)
       (auto simp: bit_unsigned_iff bit_or_iff bit_push_bit_iff bit_drop_bit_eq dest: bit_imp_le_length)
  show ?thesis
    using l by (simp add: le64_bytes_def le64_of_bytes_def lo hi bslice_def le32_bytes_of_list del: drop_bit_or)
qed

section \<open>Unsigned 64-bit counters as naturals\<close>

text \<open>\<open>size_t\<close> and \<open>uint64_t\<close> quantities that are lengths, offsets or counts are naturals;
  \<open>sz\<close> is the reduction the C type performs and \<open>sz_sub\<close> its subtraction.\<close>

definition sz :: "nat \<Rightarrow> nat" where
  "sz x = x mod 2 ^ 64"

definition sz_sub :: "nat \<Rightarrow> nat \<Rightarrow> nat" where
  "sz_sub x y = sz (x + 2 ^ 64 - y)"

lemma sz_id: "x < 2 ^ 64 \<Longrightarrow> sz x = x"
  by (simp add: sz_def)

lemma sz_sub_le: "y \<le> x \<Longrightarrow> x < 2 ^ 64 \<Longrightarrow> sz_sub x y = x - y"
proof -
  assume "y \<le> x" "x < 2 ^ 64"
  then have "x + 2 ^ 64 - y = (x - y) + 2 ^ 64" "x - y < 2 ^ 64" by auto
  then show ?thesis by (simp only: sz_sub_def sz_def mod_add_self2 mod_less)
qed

section \<open>The C library\<close>

text \<open>\<open>strtoull (s, &end, 10)\<close>: leading white space, an optional sign, then decimal digits. The
  value saturates at \<open>ULLONG_MAX\<close> and a minus sign negates it modulo \<open>2 ^ 64\<close>; without a digit
  \<open>end\<close> is \<open>s\<close>, which is the result \<open>None\<close>.\<close>

definition is_digit :: "char \<Rightarrow> bool" where
  "is_digit c \<longleftrightarrow> 48 \<le> (of_char c :: nat) \<and> (of_char c :: nat) \<le> 57"

definition is_space :: "char \<Rightarrow> bool" where
  "is_space c \<longleftrightarrow> (of_char c :: nat) = 32 \<or> 9 \<le> (of_char c :: nat) \<and> (of_char c :: nat) \<le> 13"

definition digits_value :: "string \<Rightarrow> nat" where
  "digits_value ds = foldl (\<lambda>n c. 10 * n + (of_char c - 48)) 0 ds"

definition strtoull :: "string \<Rightarrow> (nat \<times> string) option" where
  "strtoull s =
     (let t = dropWhile is_space s;
          neg = (t \<noteq> [] \<and> hd t = CHR ''-'');
          u = (if t \<noteq> [] \<and> (hd t = CHR ''-'' \<or> hd t = CHR ''+'') then tl t else t);
          ds = takeWhile is_digit u;
          n = digits_value ds
      in if ds = [] then None
         else Some (if n \<ge> 2 ^ 64 then 2 ^ 64 - 1 else if neg then sz_sub 0 n else n,
                    dropWhile is_digit u))"

section \<open>Integers as byte strings\<close>

text \<open>\<open>le_put k n\<close> is the image of the \<open>8 k\<close>-bit unsigned integer \<open>n\<close> on a little-endian host,
  \<open>be_put\<close> its network order; the getters read a run of bytes back.\<close>

primrec le_put :: "nat \<Rightarrow> nat \<Rightarrow> bytes" where
  "le_put 0 n = []"
| "le_put (Suc k) n = of_nat n # le_put k (n div 256)"

primrec le_get :: "bytes \<Rightarrow> nat" where
  "le_get [] = 0"
| "le_get (b # bs) = unat b + 256 * le_get bs"

definition be_put :: "nat \<Rightarrow> nat \<Rightarrow> bytes" where
  "be_put k n = rev (le_put k n)"

definition be_get :: "bytes \<Rightarrow> nat" where
  "be_get bs = le_get (rev bs)"

definition ascii :: "string \<Rightarrow> bytes" where
  "ascii s = map of_char s"

lemma length_le_put [simp]: "length (le_put k n) = k"
  by (induction k arbitrary: n) simp_all

lemma length_be_put [simp]: "length (be_put k n) = k"
  by (simp add: be_put_def)

lemma length_ascii [simp]: "length (ascii s) = length s"
  by (simp add: ascii_def)

lemma le_get_put: "n < 256 ^ k \<Longrightarrow> le_get (le_put k n) = n"
proof (induction k arbitrary: n)
  case (Suc k)
  then have "n div 256 < 256 ^ k" by (simp add: less_mult_imp_div_less mult.commute)
  then show ?case using Suc.IH by (simp add: unat_of_nat)
qed simp

lemma le_get_put_mod: "le_get (le_put k n) = n mod 256 ^ k"
proof (induction k arbitrary: n)
  case (Suc k)
  have "n mod 256 + 256 * (n div 256 mod 256 ^ k) = n mod (256 * 256 ^ k)"
    by (simp add: mod_mult2_eq)
  then show ?case using Suc.IH by (simp add: unat_of_nat)
qed simp

lemma le_get_bound: "le_get bs < 256 ^ length bs"
proof (induction bs)
  case (Cons b bs)
  have "unat b < 256" using unsigned_less [of b, where 'a = nat] by simp
  then show ?case using Cons by simp
qed simp

lemma le_put_get: "le_put (length bs) (le_get bs) = bs"
proof (induction bs)
  case (Cons b bs)
  have "unat b < 256" using unsigned_less [of b, where 'a = nat] by simp
  then have "(unat b + 256 * le_get bs) div 256 = le_get bs" by simp
  moreover have "(of_nat (unat b + 256 * le_get bs) :: u8) = b"
    by (rule word_unat_eq_iff [THEN iffD2]) (use \<open>unat b < 256\<close> in \<open>simp add: unat_of_nat del: of_nat_add\<close>)
  ultimately show ?case using Cons by (simp del: of_nat_add)
qed simp

lemma le_put_inject: "n < 256 ^ k \<Longrightarrow> m < 256 ^ k \<Longrightarrow> le_put k n = le_put k m \<Longrightarrow> n = m"
  by (metis le_get_put)

lemma be_get_put: "n < 256 ^ k \<Longrightarrow> be_get (be_put k n) = n"
  by (simp add: be_get_def be_put_def le_get_put)

lemma be_get_bound: "be_get bs < 256 ^ length bs"
  using le_get_bound [of "rev bs"] by (simp add: be_get_def)

lemma be_put_get: "be_put (length bs) (be_get bs) = bs"
  using le_put_get [of "rev bs"] by (simp add: be_get_def be_put_def)

lemma unat_u32_less [simp]: "unat (x :: u32) < 4294967296"
  using unsigned_less [of x, where 'a = nat] by simp

lemma le_get_put_u32 [simp]: "(of_nat (le_get (le_put 4 (unat (x :: u32)))) :: u32) = x"
  by (subst le_get_put) simp_all

lemma le_put_replicate_0: "le_put k 0 = replicate k 0"
  by (induction k) simp_all

section \<open>Byte stores\<close>

text \<open>A store is the content of a file, of a device or of a scratch buffer, by byte offset.\<close>

type_synonym store = "nat \<Rightarrow> u8"

definition store_read :: "store \<Rightarrow> nat \<Rightarrow> nat \<Rightarrow> bytes" where
  "store_read f off n = map f [off..<off + n]"

definition store_write :: "store \<Rightarrow> nat \<Rightarrow> bytes \<Rightarrow> store" where
  "store_write f off bs = (\<lambda>i. if off \<le> i \<and> i < off + length bs then bs ! (i - off) else f i)"

lemma length_store_read [simp]: "length (store_read f off n) = n"
  by (simp add: store_read_def)

lemma nth_store_read [simp]: "i < n \<Longrightarrow> store_read f off n ! i = f (off + i)"
  by (simp add: store_read_def)

lemma store_read_0 [simp]: "store_read f off 0 = []"
  by (simp add: store_read_def)

lemma store_write_Nil [simp]: "store_write f off [] = f"
  by (auto simp: store_write_def fun_eq_iff)

lemma store_write_out [simp]: "i < off \<or> off + length bs \<le> i \<Longrightarrow> store_write f off bs i = f i"
  by (auto simp: store_write_def)

lemma store_write_in: "off \<le> i \<Longrightarrow> i < off + length bs \<Longrightarrow> store_write f off bs i = bs ! (i - off)"
  by (simp add: store_write_def)

lemma store_read_cong:
  "(\<And>i. off \<le> i \<Longrightarrow> i < off + n \<Longrightarrow> f i = g i) \<Longrightarrow> store_read f off n = store_read g off n"
  by (simp add: store_read_def)

lemma store_read_write_same [bytes_simps]:
  "n = length bs \<Longrightarrow> store_read (store_write f off bs) off n = bs"
  by (simp add: list_eq_iff_nth_eq store_write_in)

lemma store_read_write_inside:
  "off \<le> o1 \<Longrightarrow> o1 + n \<le> off + length bs \<Longrightarrow>
     store_read (store_write f off bs) o1 n = bslice (o1 - off) n bs"
  by (simp add: list_eq_iff_nth_eq store_write_in nth_slice)

lemma store_read_write_out [bytes_simps]:
  "o1 + n \<le> off \<or> off + length bs \<le> o1 \<Longrightarrow> store_read (store_write f off bs) o1 n = store_read f o1 n"
  by (rule store_read_cong) auto

lemma store_read_append: "store_read f off (m + n) = store_read f off m @ store_read f (off + m) n"
  by (rule nth_equalityI) (auto simp: nth_append)

lemma store_write_append:
  "store_write f off (xs @ ys) = store_write (store_write f off xs) (off + length xs) ys"
  by (auto simp: store_write_def nth_append fun_eq_iff)

lemma store_write_read [simp]: "store_write f off (store_read f off n) = f"
  by (auto simp: store_write_def fun_eq_iff)

lemma store_write_twice [simp]:
  "length xs = length ys \<Longrightarrow> store_write (store_write f off xs) off ys = store_write f off ys"
  by (auto simp: store_write_def fun_eq_iff)

lemma bslice_store_read: "k + m \<le> n \<Longrightarrow> bslice k m (store_read f off n) = store_read f (off + k) m"
  by (simp add: list_eq_iff_nth_eq nth_slice add.assoc)

end
