(* ===== verification/Crc32c.thy ===== *)
theory Crc32c
  imports Prelude
begin

text \<open>
  CRC32C of \<^verbatim>\<open>src/core/crc32c.c\<close>: the byte table and the eight slicing tables that
  \<open>crc32c_init\<close> builds, the slice-by-8 loop, the SSE4.2 loop, and the runtime dispatch
  between them with its three static variables. The reference is the textbook bit-serial
  CRC. Shown here: both loops compute the reference whatever the alignment of the buffer,
  so a volume written through one path reads back through the other; the checksum streams
  over concatenation; and a corruption confined to four adjacent bytes is always detected.
\<close>

section \<open>The bit-serial reference\<close>

definition crc32c_shift :: "u32 \<Rightarrow> u32" where
  "crc32c_shift c = (if c AND 1 \<noteq> 0 then 0x82F63B78 XOR drop_bit 1 c else drop_bit 1 c)"

definition crc32c_byte :: "u32 \<Rightarrow> u8 \<Rightarrow> u32" where
  "crc32c_byte c b = (crc32c_shift ^^ 8) (c XOR ucast b)"

definition crc32c_run :: "u32 \<Rightarrow> bytes \<Rightarrow> u32" where
  "crc32c_run c bs = foldl crc32c_byte c bs"

definition crc32c_ref :: "u32 \<Rightarrow> bytes \<Rightarrow> u32" where
  "crc32c_ref crc bs = NOT (crc32c_run (NOT crc) bs)"

section \<open>Tables\<close>

record crc32c_tables =
  crc32c_table :: "u32 list"
  crc32c_table8 :: "u32 list list"

text \<open>One turn of the inner loop over \<open>k\<close> in \<open>crc32c_init\<close>: fold the previous slice's tail in.\<close>

definition crc32c_fold_slice :: "u32 list \<Rightarrow> u32 \<Rightarrow> u32" where
  "crc32c_fold_slice T c = T ! unat (c AND 0xFF) XOR drop_bit 8 c"

definition crc32c_init :: crc32c_tables where
  "crc32c_init =
     (let T = map (\<lambda>i. (crc32c_shift ^^ 8) (of_nat i)) [0..<256]
      in \<lparr>crc32c_table = T,
          crc32c_table8 =
            map (\<lambda>k. map (\<lambda>i. (crc32c_fold_slice T ^^ k) (T ! i)) [0..<256]) [0..<8]\<rparr>)"

section \<open>The slice-by-8 loop\<close>

definition crc32c_tab_byte :: "crc32c_tables \<Rightarrow> u32 \<Rightarrow> u8 \<Rightarrow> u32" where
  "crc32c_tab_byte t c b = drop_bit 8 c XOR crc32c_table t ! unat ((c XOR ucast b) AND 0xFF)"

text \<open>The alignment prologue: \<open>addr\<close> is the address of the first byte.\<close>

fun slice8_head :: "crc32c_tables \<Rightarrow> nat \<Rightarrow> u32 \<Rightarrow> bytes \<Rightarrow> u32 \<times> bytes" where
  "slice8_head t addr c [] = (c, [])"
| "slice8_head t addr c (b # bs) =
     (if addr mod 8 \<noteq> 0 then slice8_head t (Suc addr) (crc32c_tab_byte t c b) bs
      else (c, b # bs))"

definition slice8_group :: "crc32c_tables \<Rightarrow> u32 \<Rightarrow> u32 \<Rightarrow> u32 \<Rightarrow> u32" where
  "slice8_group t c lo0 hi =
     (let lo = lo0 XOR c
      in crc32c_table8 t ! 7 ! unat (lo AND 0xFF) XOR
         crc32c_table8 t ! 6 ! unat (drop_bit 8 lo AND 0xFF) XOR
         crc32c_table8 t ! 5 ! unat (drop_bit 16 lo AND 0xFF) XOR
         crc32c_table8 t ! 4 ! unat (drop_bit 24 lo AND 0xFF) XOR
         crc32c_table8 t ! 3 ! unat (hi AND 0xFF) XOR
         crc32c_table8 t ! 2 ! unat (drop_bit 8 hi AND 0xFF) XOR
         crc32c_table8 t ! 1 ! unat (drop_bit 16 hi AND 0xFF) XOR
         crc32c_table8 t ! 0 ! unat (drop_bit 24 hi AND 0xFF))"

fun slice8_body :: "crc32c_tables \<Rightarrow> u32 \<Rightarrow> bytes \<Rightarrow> u32 \<times> bytes" where
  "slice8_body t c bs =
     (if length bs \<ge> 8
      then slice8_body t
             (slice8_group t c (le32_of_bytes (bslice 0 4 bs)) (le32_of_bytes (bslice 4 4 bs)))
             (drop 8 bs)
      else (c, bs))"

declare slice8_body.simps [simp del]

definition crc32c_slice8 :: "crc32c_tables \<Rightarrow> nat \<Rightarrow> u32 \<Rightarrow> bytes \<Rightarrow> u32" where
  "crc32c_slice8 t addr crc p =
     (let (c1, p1) = slice8_head t addr (NOT crc) p;
          (c2, p2) = slice8_body t c1 p1
      in NOT (foldl (crc32c_tab_byte t) c2 p2))"

section \<open>The SSE4.2 loop\<close>

text \<open>The intrinsics \<open>_mm_crc32_u8\<close> and \<open>_mm_crc32_u64\<close> are parameters of the model.\<close>

fun crc32c_hw_head :: "(u32 \<Rightarrow> u8 \<Rightarrow> u32) \<Rightarrow> nat \<Rightarrow> u32 \<Rightarrow> bytes \<Rightarrow> u32 \<times> bytes" where
  "crc32c_hw_head mm8 addr c [] = (c, [])"
| "crc32c_hw_head mm8 addr c (b # bs) =
     (if addr mod 8 \<noteq> 0 then crc32c_hw_head mm8 (Suc addr) (mm8 c b) bs else (c, b # bs))"

fun crc32c_hw_body :: "(u64 \<Rightarrow> u64 \<Rightarrow> u64) \<Rightarrow> u64 \<Rightarrow> bytes \<Rightarrow> u64 \<times> bytes" where
  "crc32c_hw_body mm64 c64 bs =
     (if length bs \<ge> 8
      then crc32c_hw_body mm64 (mm64 c64 (le64_of_bytes (take 8 bs))) (drop 8 bs)
      else (c64, bs))"

declare crc32c_hw_body.simps [simp del]

definition crc32c_hw ::
    "(u32 \<Rightarrow> u8 \<Rightarrow> u32) \<Rightarrow> (u64 \<Rightarrow> u64 \<Rightarrow> u64) \<Rightarrow> nat \<Rightarrow> u32 \<Rightarrow> bytes \<Rightarrow> u32" where
  "crc32c_hw mm8 mm64 addr crc p =
     (let (c1, p1) = crc32c_hw_head mm8 addr (NOT crc) p;
          (c64, p2) = crc32c_hw_body mm64 (ucast c1) p1
      in NOT (foldl mm8 (ucast c64) p2))"

text \<open>What the instruction set reference says the two instructions compute: one byte step of
  the reflected Castagnoli CRC, and eight of them on the bytes of the operand, low byte
  first, in the low half of the accumulator.\<close>

definition mm_crc32_u8_doc :: "(u32 \<Rightarrow> u8 \<Rightarrow> u32) \<Rightarrow> bool" where
  "mm_crc32_u8_doc mm8 \<longleftrightarrow> (\<forall>c b. mm8 c b = crc32c_byte c b)"

definition mm_crc32_u64_doc :: "(u64 \<Rightarrow> u64 \<Rightarrow> u64) \<Rightarrow> bool" where
  "mm_crc32_u64_doc mm64 \<longleftrightarrow>
     (\<forall>c bs. length bs = 8 \<longrightarrow>
        mm64 (ucast (c :: u32)) (le64_of_bytes bs) = ucast (crc32c_run c bs))"

section \<open>Runtime dispatch\<close>

record crc32c_state =
  crc32c_tabs :: crc32c_tables
  crc32c_table_ready :: bool
  crc32c_have_sse42 :: int
  crc32c_pinned_fallback :: int

text \<open>The static variables before the first call.\<close>

definition crc32c_state0 :: crc32c_state where
  "crc32c_state0 =
     \<lparr>crc32c_tabs = \<lparr>crc32c_table = replicate 256 0,
                     crc32c_table8 = replicate 8 (replicate 256 0)\<rparr>,
      crc32c_table_ready = False, crc32c_have_sse42 = -1, crc32c_pinned_fallback = -1\<rparr>"

text \<open>The process environment: the value of \<open>INVFS_CRC32C_FORCE_FALLBACK\<close> and the answer
  of the CPUID probe.\<close>

record crc32c_env =
  env_force_fallback :: "string option"
  env_sse42 :: bool

definition invfs_crc32c_force_fallback :: "int \<Rightarrow> crc32c_state \<Rightarrow> crc32c_state" where
  "invfs_crc32c_force_fallback on st =
     st\<lparr>crc32c_pinned_fallback := (if on \<noteq> 0 then 1 else 0)\<rparr>"

definition crc32c_fallback_pinned :: "crc32c_env \<Rightarrow> crc32c_state \<Rightarrow> bool \<times> crc32c_state" where
  "crc32c_fallback_pinned e st =
     (let st' = (if crc32c_pinned_fallback st < 0
                 then st\<lparr>crc32c_pinned_fallback :=
                        (case env_force_fallback e of
                           None \<Rightarrow> 0
                         | Some s \<Rightarrow> if s \<noteq> [] \<and> s \<noteq> ''0'' then 1 else 0)\<rparr>
                 else st)
      in (crc32c_pinned_fallback st' \<noteq> 0, st'))"

text \<open>The two lazy initialisations at the head of every entry point.\<close>

definition crc32c_prepare :: "crc32c_env \<Rightarrow> crc32c_state \<Rightarrow> crc32c_state" where
  "crc32c_prepare e st =
     (let st1 = (if crc32c_table_ready st then st
                 else st\<lparr>crc32c_tabs := crc32c_init, crc32c_table_ready := True\<rparr>)
      in if crc32c_have_sse42 st1 < 0
         then st1\<lparr>crc32c_have_sse42 := (if env_sse42 e then 1 else 0)\<rparr> else st1)"

definition invfs_crc32c_using_fallback :: "crc32c_env \<Rightarrow> crc32c_state \<Rightarrow> bool \<times> crc32c_state" where
  "invfs_crc32c_using_fallback e st =
     (let st1 = crc32c_prepare e st; (pin, st2) = crc32c_fallback_pinned e st1
      in (pin \<or> crc32c_have_sse42 st2 = 0, st2))"

definition invfs_crc32c_slice8_table :: "nat \<Rightarrow> nat \<Rightarrow> crc32c_state \<Rightarrow> u32 \<times> crc32c_state" where
  "invfs_crc32c_slice8_table k i st =
     (let st1 = (if crc32c_table_ready st then st
                 else st\<lparr>crc32c_tabs := crc32c_init, crc32c_table_ready := True\<rparr>)
      in (if k \<ge> 8 \<or> i \<ge> 256 then 0 else crc32c_table8 (crc32c_tabs st1) ! k ! i, st1))"

definition invfs_crc32c_update ::
    "(u32 \<Rightarrow> u8 \<Rightarrow> u32) \<Rightarrow> (u64 \<Rightarrow> u64 \<Rightarrow> u64) \<Rightarrow> crc32c_env \<Rightarrow> nat \<Rightarrow> u32 \<Rightarrow> bytes
     \<Rightarrow> crc32c_state \<Rightarrow> u32 \<times> crc32c_state" where
  "invfs_crc32c_update mm8 mm64 e addr crc p st =
     (let st1 = crc32c_prepare e st
      in if crc32c_have_sse42 st1 \<noteq> 0
         then (let (pin, st2) = crc32c_fallback_pinned e st1
               in if \<not> pin then (crc32c_hw mm8 mm64 addr crc p, st2)
                  else (crc32c_slice8 (crc32c_tabs st2) addr crc p, st2))
         else (crc32c_slice8 (crc32c_tabs st1) addr crc p, st1))"

definition invfs_crc32c_dispatch ::
    "(u32 \<Rightarrow> u8 \<Rightarrow> u32) \<Rightarrow> (u64 \<Rightarrow> u64 \<Rightarrow> u64) \<Rightarrow> crc32c_env \<Rightarrow> nat \<Rightarrow> bytes
     \<Rightarrow> crc32c_state \<Rightarrow> u32 \<times> crc32c_state" where
  "invfs_crc32c_dispatch mm8 mm64 e addr p st =
     (let st1 = crc32c_prepare e st
      in if crc32c_have_sse42 st1 \<noteq> 0
         then (let (pin, st2) = crc32c_fallback_pinned e st1
               in if \<not> pin then (crc32c_hw mm8 mm64 addr 0 p, st2)
                  else (crc32c_slice8 (crc32c_tabs st2) addr 0 p, st2))
         else (crc32c_slice8 (crc32c_tabs st1) addr 0 p, st1))"

section \<open>The register is linear and the step is invertible\<close>

lemma and_1_neq_0_iff: "(c :: u32) AND 1 \<noteq> 0 \<longleftrightarrow> bit c 0"
  by (simp add: and_one_eq bit_0 odd_iff_mod_2_eq_one)

lemma crc32c_shift_alt:
  "crc32c_shift c = drop_bit 1 c XOR (if bit c 0 then 0x82F63B78 else 0)"
  by (simp add: crc32c_shift_def and_1_neq_0_iff xor.commute)

lemma crc32c_shift_xor: "crc32c_shift (a XOR b) = crc32c_shift a XOR crc32c_shift b"
  by (cases "bit a 0"; cases "bit b 0")
     (simp_all add: crc32c_shift_alt bit_xor_iff ac_simps)

lemma crc32c_shift_0 [simp]: "crc32c_shift 0 = 0"
  by (simp add: crc32c_shift_alt)

lemma shift_pow_0 [simp]: "(crc32c_shift ^^ n) 0 = 0"
  by (induction n) simp_all

lemma shift_pow_xor: "(crc32c_shift ^^ n) (a XOR b) = (crc32c_shift ^^ n) a XOR (crc32c_shift ^^ n) b"
  by (induction n) (simp_all add: crc32c_shift_xor)

lemma crc32c_shift_eq_0: "crc32c_shift x = 0 \<longleftrightarrow> x = 0"
proof
  assume z: "crc32c_shift x = 0"
  have "bit (0x82F63B78 :: u32) 31" by simp
  moreover have "\<not> bit (drop_bit 1 x) 31"
    using bit_imp_le_length [of x 32] by (auto simp: bit_drop_bit_eq)
  ultimately have "drop_bit 1 x \<noteq> 0x82F63B78" by metis
  with z have b0: "\<not> bit x 0"
    by (auto simp: crc32c_shift_alt xor_eq_0_iff)
  with z have d: "drop_bit 1 x = 0" by (simp add: crc32c_shift_alt)
  show "x = 0"
  proof (rule bit_eqI)
    fix n show "bit x n = bit 0 n"
      using b0 arg_cong [OF d, of "\<lambda>w. bit w (n - 1)"] by (cases n) (auto simp: bit_drop_bit_eq)
  qed
qed simp

lemma shift_pow_eq_0: "(crc32c_shift ^^ n) x = 0 \<longleftrightarrow> x = 0"
  by (induction n) (simp_all add: crc32c_shift_eq_0)

lemma shift_pow_inj: "(crc32c_shift ^^ n) a = (crc32c_shift ^^ n) b \<longleftrightarrow> a = b"
  using shift_pow_eq_0 [of n "a XOR b"] by (simp add: shift_pow_xor xor_eq_0_iff)

text \<open>While the low bits are clear the register only moves right.\<close>

lemma shift_pow_low_zero: "(\<And>i. i < n \<Longrightarrow> \<not> bit c i) \<Longrightarrow> (crc32c_shift ^^ n) c = drop_bit n c"
proof (induction n)
  case (Suc n)
  then have "(crc32c_shift ^^ n) c = drop_bit n c" by simp
  moreover have "\<not> bit (drop_bit n c) 0" using Suc.prems [of n] by (simp add: bit_drop_bit_eq)
  ultimately show ?case by (simp add: crc32c_shift_alt [of "drop_bit n c"])
qed simp

lemma shift_pow_push:
  assumes "take_bit (32 - n) x = x" and "n \<le> m"
  shows "(crc32c_shift ^^ m) (push_bit n x) = (crc32c_shift ^^ (m - n)) x"
proof -
  have "(crc32c_shift ^^ n) (push_bit n x) = drop_bit n (push_bit n x)"
    by (rule shift_pow_low_zero) (simp add: bit_push_bit_iff)
  also have "drop_bit n (push_bit n x) = take_bit (32 - n) x"
    by (rule bit_word_eqI) (auto simp: bit_drop_bit_eq bit_push_bit_iff bit_take_bit_iff)
  finally have "(crc32c_shift ^^ n) (push_bit n x) = x" using assms(1) by simp
  then show ?thesis
    using assms(2) funpow_add [of "m - n" n crc32c_shift] by simp
qed

section \<open>Tables against the reference\<close>

lemma and_255_take_bit: "(c :: u32) AND 255 = take_bit 8 c"
  by (simp add: take_bit_eq_mask mask_eq_exp_minus_1)

lemma word_split_byte: "(c :: u32) = take_bit 8 c XOR push_bit 8 (drop_bit 8 c)"
  by (rule bit_word_eqI) (auto simp: bit_take_bit_iff bit_xor_iff bit_push_bit_iff bit_drop_bit_eq)

lemma unat_take_bit_8: "unat (take_bit 8 (c :: u32)) < 256"
  using take_bit_nat_less_exp [of 8 "unat c"] by (simp add: unsigned_take_bit_eq)

lemma crc32c_table_nth:
  "i < 256 \<Longrightarrow> crc32c_table crc32c_init ! i = (crc32c_shift ^^ 8) (of_nat i)"
  by (simp add: crc32c_init_def Let_def)

lemma crc32c_table_byte:
  "crc32c_table crc32c_init ! unat (c AND 0xFF) = (crc32c_shift ^^ 8) (take_bit 8 c)"
  by (simp add: and_255_take_bit crc32c_table_nth unat_take_bit_8)

lemma shift_pow_8: "(crc32c_shift ^^ 8) c = (crc32c_shift ^^ 8) (take_bit 8 c) XOR drop_bit 8 c"
proof -
  have "(crc32c_shift ^^ 8) (push_bit 8 (drop_bit 8 c)) = drop_bit 8 (push_bit 8 (drop_bit 8 c))"
    by (rule shift_pow_low_zero) (simp add: bit_push_bit_iff)
  also have "\<dots> = drop_bit 8 c"
    by (rule bit_word_eqI) (auto simp: bit_push_bit_iff bit_drop_bit_eq dest: bit_imp_le_length)
  finally show ?thesis
    by (subst word_split_byte [of c]) (simp add: shift_pow_xor)
qed

lemma crc32c_fold_slice_eq: "crc32c_fold_slice (crc32c_table crc32c_init) c = (crc32c_shift ^^ 8) c"
  by (simp add: crc32c_fold_slice_def crc32c_table_byte shift_pow_8 [of c])

lemma crc32c_table8_nth:
  assumes "k < 8" and "i < 256"
  shows "crc32c_table8 crc32c_init ! k ! i = (crc32c_shift ^^ (8 * Suc k)) (of_nat i)"
proof -
  have fold: "(crc32c_fold_slice (crc32c_table crc32c_init) ^^ k) c = (crc32c_shift ^^ (8 * k)) c" for c
  proof (induction k)
    case (Suc k)
    then show ?case
      by (simp add: crc32c_fold_slice_eq flip: funpow_add [THEN fun_cong, unfolded comp_def])
  qed simp
  have "crc32c_table8 crc32c_init ! k ! i =
      (crc32c_fold_slice (crc32c_table crc32c_init) ^^ k) (crc32c_table crc32c_init ! i)"
    using assms by (simp add: crc32c_init_def Let_def)
  also have "\<dots> = (crc32c_shift ^^ (8 * k)) ((crc32c_shift ^^ 8) (of_nat i))"
    using assms by (simp only: fold crc32c_table_nth)
  also have "\<dots> = (crc32c_shift ^^ (8 * k + 8)) (of_nat i)"
    by (simp only: funpow_add comp_def)
  finally show ?thesis by (simp add: ac_simps)
qed

lemma crc32c_table8_byte:
  "k < 8 \<Longrightarrow> crc32c_table8 crc32c_init ! k ! unat (c AND 0xFF) = (crc32c_shift ^^ (8 * Suc k)) (take_bit 8 c)"
  by (simp only: and_255_take_bit crc32c_table8_nth unat_take_bit_8 of_nat_unat ucast_id)

lemma crc32c_tab_byte_eq: "crc32c_tab_byte crc32c_init = crc32c_byte"
proof (intro ext)
  fix c b
  have "drop_bit 8 (c XOR ucast (b :: u8)) = drop_bit 8 (c :: u32)"
    by (rule bit_word_eqI) (simp add: bit_drop_bit_eq bit_xor_iff)
  then show "crc32c_tab_byte crc32c_init c b = crc32c_byte c b"
    by (simp add: crc32c_tab_byte_def crc32c_byte_def crc32c_table_byte shift_pow_8 [of "c XOR ucast b"]
        xor.commute)
qed

lemma word_split_bytes:
  "(x :: u32) = take_bit 8 x XOR push_bit 8 (take_bit 8 (drop_bit 8 x)) XOR
     push_bit 16 (take_bit 8 (drop_bit 16 x)) XOR push_bit 24 (take_bit 8 (drop_bit 24 x))"
  (is "x = ?r")
proof (rule bit_word_eqI)
  fix n assume n: "n < LENGTH(32)"
  consider "n < 8" | "8 \<le> n" "n < 16" | "16 \<le> n" "n < 24" | "24 \<le> n" by linarith
  then show "bit x n = bit ?r n"
    using n by cases (simp_all add: bit_xor_iff bit_take_bit_iff bit_push_bit_iff bit_drop_bit_eq less_diff_conv2)
qed

lemma shift_pow_split:
  assumes "24 \<le> m"
  shows "(crc32c_shift ^^ m) x =
     (crc32c_shift ^^ m) (take_bit 8 x) XOR
     (crc32c_shift ^^ (m - 8)) (take_bit 8 (drop_bit 8 x)) XOR
     (crc32c_shift ^^ (m - 16)) (take_bit 8 (drop_bit 16 x)) XOR
     (crc32c_shift ^^ (m - 24)) (take_bit 8 (drop_bit 24 x))"
  using assms by (subst word_split_bytes [of x]) (simp add: shift_pow_xor shift_pow_push take_bit_take_bit)

lemma slice8_group_eq:
  "slice8_group crc32c_init c lo hi =
     (crc32c_shift ^^ 64) (lo XOR c) XOR (crc32c_shift ^^ 32) hi"
proof -
  have lo: "(crc32c_shift ^^ 64) x =
      crc32c_table8 crc32c_init ! 7 ! unat (x AND 0xFF) XOR
      crc32c_table8 crc32c_init ! 6 ! unat (drop_bit 8 x AND 0xFF) XOR
      crc32c_table8 crc32c_init ! 5 ! unat (drop_bit 16 x AND 0xFF) XOR
      crc32c_table8 crc32c_init ! 4 ! unat (drop_bit 24 x AND 0xFF)" for x
    by (subst shift_pow_split) (simp_all add: crc32c_table8_byte)
  have hi: "(crc32c_shift ^^ 32) x =
      crc32c_table8 crc32c_init ! 3 ! unat (x AND 0xFF) XOR
      crc32c_table8 crc32c_init ! 2 ! unat (drop_bit 8 x AND 0xFF) XOR
      crc32c_table8 crc32c_init ! 1 ! unat (drop_bit 16 x AND 0xFF) XOR
      crc32c_table8 crc32c_init ! 0 ! unat (drop_bit 24 x AND 0xFF)" for x
    by (subst shift_pow_split) (simp_all add: crc32c_table8_byte)
  show ?thesis
    by (simp only: slice8_group_def Let_def lo hi xor.assoc)
qed

lemma le32_of_bytes_xor:
  "le32_of_bytes [b0, b1, b2, b3] =
     ucast b0 XOR push_bit 8 (ucast b1) XOR push_bit 16 (ucast b2) XOR push_bit 24 (ucast b3)"
  (is "?l = ?r")
proof (rule bit_word_eqI)
  fix n assume n: "n < LENGTH(32)"
  consider "n < 8" | "8 \<le> n" "n < 16" | "16 \<le> n" "n < 24" | "24 \<le> n" by linarith
  then show "bit ?l n = bit ?r n"
    using n by cases (simp_all add: le32_of_bytes_def bit_or_iff bit_xor_iff bit_push_bit_iff less_diff_conv2)
qed

lemma crc32c_run_append: "crc32c_run c (xs @ ys) = crc32c_run (crc32c_run c xs) ys"
  by (simp add: crc32c_run_def)

lemma take_bit_ucast_u8: "8 \<le> n \<Longrightarrow> take_bit n (ucast (b :: u8) :: u32) = ucast b"
  by (rule bit_word_eqI) (auto simp: bit_take_bit_iff)

lemma shift_pow_comp: "(crc32c_shift ^^ a) ((crc32c_shift ^^ b) x) = (crc32c_shift ^^ (a + b)) x"
  by (simp add: funpow_add)

lemma crc32c_run_4:
  "crc32c_run c [b0, b1, b2, b3] = (crc32c_shift ^^ 32) (c XOR le32_of_bytes [b0, b1, b2, b3])"
proof -
  have "(crc32c_shift ^^ 32) (c XOR le32_of_bytes [b0, b1, b2, b3]) =
      (crc32c_shift ^^ 32) (c XOR ucast b0) XOR (crc32c_shift ^^ 24) (ucast b1) XOR
      (crc32c_shift ^^ 16) (ucast b2) XOR (crc32c_shift ^^ 8) (ucast b3)"
    by (simp add: le32_of_bytes_xor shift_pow_xor shift_pow_push take_bit_ucast_u8 ac_simps)
  then show ?thesis
    by (simp add: crc32c_run_def crc32c_byte_def shift_pow_xor shift_pow_comp ac_simps)
qed

lemma list_8_eq:
  assumes "length bs \<ge> 8"
  obtains b0 b1 b2 b3 b4 b5 b6 b7 rest where "bs = [b0, b1, b2, b3] @ [b4, b5, b6, b7] @ rest"
proof -
  have "\<exists>b0 b1 b2 b3 b4 b5 b6 b7 rest. bs = [b0, b1, b2, b3] @ [b4, b5, b6, b7] @ rest"
    using assms by (auto simp: numeral_eq_Suc Suc_le_length_iff)
  then show ?thesis using that by blast
qed

lemma slice8_group_run:
  assumes "length bs \<ge> 8"
  shows "slice8_group crc32c_init c (le32_of_bytes (bslice 0 4 bs)) (le32_of_bytes (bslice 4 4 bs)) =
    crc32c_run c (take 8 bs)"
proof -
  obtain b0 b1 b2 b3 b4 b5 b6 b7 rest where bs: "bs = [b0, b1, b2, b3] @ [b4, b5, b6, b7] @ rest"
    using list_8_eq [OF assms] .
  have "take 8 bs = [b0, b1, b2, b3] @ [b4, b5, b6, b7]" by (simp add: bs)
  then have "crc32c_run c (take 8 bs) =
      (crc32c_shift ^^ 32) ((crc32c_shift ^^ 32) (c XOR le32_of_bytes [b0, b1, b2, b3])
        XOR le32_of_bytes [b4, b5, b6, b7])"
    by (simp only: crc32c_run_append crc32c_run_4)
  then show ?thesis
    by (simp add: bs bslice_def slice8_group_eq shift_pow_xor shift_pow_comp ac_simps)
qed

lemma slice8_body_run:
  "slice8_body crc32c_init c bs = (c', bs') \<Longrightarrow> crc32c_run c' bs' = crc32c_run c bs"
proof (induction crc32c_init c bs rule: slice8_body.induct)
  case (1 c bs)
  show ?case
  proof (cases "length bs \<ge> 8")
    case True
    with "1.prems" have "crc32c_run c' bs' = crc32c_run (crc32c_run c (take 8 bs)) (drop 8 bs)"
      by (intro "1.hyps" [simplified slice8_group_run [OF True]] True)
         (simp add: slice8_body.simps [of _ c bs] slice8_group_run)
    then show ?thesis by (simp flip: crc32c_run_append)
  next
    case False
    with "1.prems" show ?thesis by (simp add: slice8_body.simps [of _ c bs])
  qed
qed

lemma slice8_head_run:
  "slice8_head crc32c_init addr c bs = (c', bs') \<Longrightarrow> crc32c_run c' bs' = crc32c_run c bs"
  by (induction crc32c_init addr c bs rule: slice8_head.induct)
     (auto simp: crc32c_tab_byte_eq crc32c_run_def split: if_splits)

lemma crc32c_slice8_ref: "crc32c_slice8 crc32c_init addr crc p = crc32c_ref crc p"
proof -
  obtain c1 p1 where h: "slice8_head crc32c_init addr (NOT crc) p = (c1, p1)" by fastforce
  obtain c2 p2 where b: "slice8_body crc32c_init c1 p1 = (c2, p2)" by fastforce
  show ?thesis
    using slice8_head_run [OF h] slice8_body_run [OF b]
    by (simp add: crc32c_slice8_def h b crc32c_ref_def crc32c_run_def crc32c_tab_byte_eq)
qed

text \<open>C6. The slice-by-8 loop over the tables that \<open>crc32c_init\<close> builds returns the bit-serial
  CRC32C for every buffer, every running checksum and every alignment of the buffer.\<close>

theorem crc32c_slice8_correct: "crc32c_slice8 crc32c_init addr crc p = crc32c_ref crc p"
  by (rule crc32c_slice8_ref)

section \<open>Hardware path, dispatch and streaming\<close>

lemma crc32c_hw_head_run:
  "mm_crc32_u8_doc mm8 \<Longrightarrow> crc32c_hw_head mm8 addr c bs = (c', bs') \<Longrightarrow>
   crc32c_run c' bs' = crc32c_run c bs"
  by (induction mm8 addr c bs rule: crc32c_hw_head.induct)
     (auto simp: mm_crc32_u8_doc_def crc32c_run_def split: if_splits)

lemma crc32c_hw_body_run:
  "mm_crc32_u64_doc mm64 \<Longrightarrow> crc32c_hw_body mm64 (ucast c) bs = (c', bs') \<Longrightarrow>
   \<exists>c32. c' = ucast (c32 :: u32) \<and> crc32c_run c32 bs' = crc32c_run c bs"
proof (induction "length bs" arbitrary: c bs rule: less_induct)
  case less
  show ?case
  proof (cases "length bs \<ge> 8")
    case True
    have "mm64 (ucast c) (le64_of_bytes (take 8 bs)) = ucast (crc32c_run c (take 8 bs))"
      using less.prems(1) True by (auto simp: mm_crc32_u64_doc_def)
    with less.prems(2) True
    have "crc32c_hw_body mm64 (ucast (crc32c_run c (take 8 bs))) (drop 8 bs) = (c', bs')"
      by (simp add: crc32c_hw_body.simps [of _ _ bs])
    moreover have "length (drop 8 bs) < length bs" using True by simp
    ultimately obtain c32 where "c' = ucast c32"
      and "crc32c_run c32 bs' = crc32c_run (crc32c_run c (take 8 bs)) (drop 8 bs)"
      using less.hyps less.prems(1) by blast
    then show ?thesis by (auto simp flip: crc32c_run_append)
  next
    case False
    with less.prems(2) show ?thesis
      by (auto simp: crc32c_hw_body.simps [of _ _ bs])
  qed
qed

lemma ucast_u64_u32 [simp]: "(ucast (ucast (c :: u32) :: u64) :: u32) = c"
  by (rule bit_word_eqI) (simp add: bit_unsigned_iff)

lemma crc32c_hw_correct:
  assumes "mm_crc32_u8_doc mm8" and "mm_crc32_u64_doc mm64"
  shows "crc32c_hw mm8 mm64 addr crc p = crc32c_ref crc p"
proof -
  obtain c1 p1 where h: "crc32c_hw_head mm8 addr (NOT crc) p = (c1, p1)" by fastforce
  obtain c64 p2 where b: "crc32c_hw_body mm64 (ucast c1) p1 = (c64, p2)" by fastforce
  obtain c32 where c32: "c64 = ucast (c32 :: u32)" "crc32c_run c32 p2 = crc32c_run c1 p1"
    using crc32c_hw_body_run [OF assms(2) b] by blast
  have mm8: "foldl mm8 c xs = crc32c_run c xs" for c xs
    using assms(1) by (induction xs arbitrary: c) (simp_all add: mm_crc32_u8_doc_def crc32c_run_def)
  show ?thesis
    using c32 crc32c_hw_head_run [OF assms(1) h]
    by (simp add: crc32c_hw_def h b mm8 crc32c_ref_def)
qed

text \<open>The invariant of the static variables: once the ready flag is up the tables are the
  ones \<open>crc32c_init\<close> builds.\<close>

definition crc32c_ok :: "crc32c_state \<Rightarrow> bool" where
  "crc32c_ok st \<longleftrightarrow> (crc32c_table_ready st \<longrightarrow> crc32c_tabs st = crc32c_init)"

lemma crc32c_ok_state0: "crc32c_ok crc32c_state0"
  by (simp add: crc32c_ok_def crc32c_state0_def)

lemma crc32c_ok_force_fallback: "crc32c_ok st \<Longrightarrow> crc32c_ok (invfs_crc32c_force_fallback on st)"
  by (simp add: crc32c_ok_def invfs_crc32c_force_fallback_def)

lemma crc32c_prepare_ok:
  "crc32c_ok st \<Longrightarrow> crc32c_table_ready (crc32c_prepare e st) \<and> crc32c_ok (crc32c_prepare e st)
     \<and> crc32c_tabs (crc32c_prepare e st) = crc32c_init"
  by (auto simp: crc32c_prepare_def crc32c_ok_def Let_def)

lemma crc32c_fallback_pinned_frame:
  "crc32c_tabs (snd (crc32c_fallback_pinned e st)) = crc32c_tabs st"
  "crc32c_table_ready (snd (crc32c_fallback_pinned e st)) = crc32c_table_ready st"
  by (auto simp: crc32c_fallback_pinned_def Let_def)

lemma crc32c_fallback_pinned_ok: "crc32c_ok st \<Longrightarrow> crc32c_ok (snd (crc32c_fallback_pinned e st))"
  by (simp add: crc32c_ok_def crc32c_fallback_pinned_frame)

lemma crc32c_ok_using_fallback:
  "crc32c_ok st \<Longrightarrow> crc32c_ok (snd (invfs_crc32c_using_fallback e st))"
  using crc32c_prepare_ok [of st e] crc32c_fallback_pinned_ok [of "crc32c_prepare e st" e]
  by (simp add: invfs_crc32c_using_fallback_def Let_def split_beta)

text \<open>C7. Whichever path the dispatch takes (hardware, or the software tables when the CPU
  has no SSE4.2 or the fallback is pinned), \<open>invfs_crc32c_update\<close> returns the bit-serial
  CRC32C, provided the two intrinsics behave as documented; and every call keeps the
  invariant that ready tables are the right tables.\<close>

theorem invfs_crc32c_update_correct:
  assumes "mm_crc32_u8_doc mm8" and "mm_crc32_u64_doc mm64" and "crc32c_ok st"
  shows "fst (invfs_crc32c_update mm8 mm64 e addr crc p st) = crc32c_ref crc p
    \<and> crc32c_ok (snd (invfs_crc32c_update mm8 mm64 e addr crc p st))"
  using crc32c_prepare_ok [OF assms(3), of e] crc32c_fallback_pinned_ok [of "crc32c_prepare e st" e]
    crc32c_hw_correct [OF assms(1,2), of addr crc p] crc32c_slice8_ref [of addr crc p]
  by (auto simp: invfs_crc32c_update_def Let_def split_beta crc32c_fallback_pinned_frame)

theorem invfs_crc32c_update_correct_witness:
  "fst (invfs_crc32c_update crc32c_byte (\<lambda>c v. ucast (crc32c_run (ucast c) (le64_bytes v)))
      \<lparr>env_force_fallback = Some ''1'', env_sse42 = True\<rparr> 3 0 [0x31, 0x32] crc32c_state0)
    = crc32c_ref 0 [0x31, 0x32]"
proof -
  have "mm_crc32_u8_doc crc32c_byte" by (simp add: mm_crc32_u8_doc_def)
  moreover have "mm_crc32_u64_doc (\<lambda>c v. ucast (crc32c_run (ucast c) (le64_bytes v)))"
    by (simp add: mm_crc32_u64_doc_def le64_bytes_of_bytes)
  ultimately show ?thesis
    using invfs_crc32c_update_correct crc32c_ok_state0 by blast
qed

lemma crc32c_ref_append: "crc32c_ref (crc32c_ref crc xs) ys = crc32c_ref crc (xs @ ys)"
  by (simp add: crc32c_ref_def crc32c_run_append)

section \<open>What the checksum detects\<close>

lemma crc32c_byte_inj: "crc32c_byte c b = crc32c_byte c' b \<longleftrightarrow> c = c'"
  by (simp add: crc32c_byte_def shift_pow_inj) (metis xor_right_cancel)

lemma crc32c_run_inj: "crc32c_run c bs = crc32c_run c' bs \<longleftrightarrow> c = c'"
  by (induction bs arbitrary: c c') (simp_all add: crc32c_run_def crc32c_byte_inj)

lemma crc32c_run_4_inj:
  assumes "length xs = 4" and "length ys = 4" and "crc32c_run c xs = crc32c_run c ys"
  shows "xs = ys"
proof -
  have run: "crc32c_run c zs = (crc32c_shift ^^ 32) (c XOR le32_of_bytes zs)" if "length zs = 4" for zs
    using that by (auto simp: numeral_eq_Suc length_Suc_conv crc32c_run_4 [simplified numeral_eq_Suc, simplified])
  from assms have "le32_of_bytes xs = le32_of_bytes ys"
    by (simp add: run shift_pow_inj) (metis xor_left_cancel)
  with assms show ?thesis by (blast intro: le32_of_bytes_inject)
qed

lemma crc32c_ref_burst:
  assumes "length xs = length ys" and "length xs \<le> 4" and "xs \<noteq> ys"
  shows "crc32c_ref crc (pre @ xs @ post) \<noteq> crc32c_ref crc (pre @ ys @ post)"
proof
  assume eq: "crc32c_ref crc (pre @ xs @ post) = crc32c_ref crc (pre @ ys @ post)"
  define c z where "c = crc32c_run (NOT crc) pre" and "z = replicate (4 - length xs) (0 :: u8)"
  from eq have "NOT (crc32c_run (crc32c_run c xs) post) = NOT (crc32c_run (crc32c_run c ys) post)"
    by (simp add: crc32c_ref_def crc32c_run_append c_def)
  then have "crc32c_run (crc32c_run c xs) post = crc32c_run (crc32c_run c ys) post"
    by (metis bit.double_compl)
  then have "crc32c_run c (xs @ z) = crc32c_run c (ys @ z)"
    by (simp add: crc32c_run_inj crc32c_run_append)
  then have "xs @ z = ys @ z"
    by (rule crc32c_run_4_inj [rotated 2]) (use assms in \<open>simp_all add: z_def\<close>)
  with assms(3) show False by simp
qed



section \<open>The checksum as its clients see it\<close>

text \<open>Every path of \<open>invfs_crc32c\<close> returns the bit-serial value, so the other components name that
  value and leave the dispatch state out of their own state.\<close>

abbreviation invfs_crc32c :: "bytes \<Rightarrow> u32" where
  "invfs_crc32c p \<equiv> crc32c_ref 0 p"

end
