(* ===== verification/Gf256.thy ===== *)
theory Gf256
  imports Prelude
begin

text \<open>
  The finite field of \<^verbatim>\<open>src/codecs/rs.c\<close>: the lazily built log, exp and product tables
  (\<open>rs_gf_init\<close>) and the table-driven operations \<open>gf_mul\<close>, \<open>gf_inv\<close> and \<open>gf_pow\<close>. The
  reference is shift-and-add multiplication modulo the polynomial 0x11D. The element 2
  generates all 255 non-zero bytes, the tables compute the reference, and bytes with
  exclusive or and the reference product form a field: the type \<open>gf256\<close> is an instance of
  the class \<open>field\<close>, which the matrix theory builds on.
\<close>

section \<open>Tables and operations\<close>

record rs_gf_state =
  rs_gf_exp :: "u8 list"
  rs_gf_log :: "u8 list"
  rs_gf_mul :: "u8 list list"
  rs_gf_ready :: bool

definition rs_gf_state0 :: rs_gf_state where
  "rs_gf_state0 =
     \<lparr>rs_gf_exp = replicate 512 0, rs_gf_log = replicate 256 0,
      rs_gf_mul = replicate 256 (replicate 256 0), rs_gf_ready = False\<rparr>"

text \<open>Doubling: the last two statements of the first loop of \<open>rs_gf_init\<close>.\<close>

definition rs_gf_step :: "u32 \<Rightarrow> u32" where
  "rs_gf_step x = (let y = push_bit 1 x in if y AND 0x100 \<noteq> 0 then y XOR 0x11D else y)"

definition rs_gf_turn :: "nat \<Rightarrow> u32 \<times> u8 list \<times> u8 list \<Rightarrow> u32 \<times> u8 list \<times> u8 list" where
  "rs_gf_turn i = (\<lambda>(x, ex, lg). (rs_gf_step x, ex[i := ucast x], lg[unat x := of_nat i]))"

definition rs_gf_init :: "rs_gf_state \<Rightarrow> rs_gf_state" where
  "rs_gf_init st =
     (if rs_gf_ready st then st
      else let (_, ex, lg) = fold rs_gf_turn [0..<255] (1, rs_gf_exp st, rs_gf_log st);
               ex2 = fold (\<lambda>i e. e[i := e ! (i - 255)]) [255..<512] ex
           in \<lparr>rs_gf_exp = ex2, rs_gf_log = lg,
               rs_gf_mul =
                 map (\<lambda>i. map (\<lambda>j. if i \<noteq> 0 \<and> j \<noteq> 0 then ex2 ! (unat (lg ! i) + unat (lg ! j)) else 0)
                            [0..<256]) [0..<256],
               rs_gf_ready = True\<rparr>)"

definition gf_mul :: "rs_gf_state \<Rightarrow> u8 \<Rightarrow> u8 \<Rightarrow> u8" where
  "gf_mul st a b =
     (if a \<noteq> 0 \<and> b \<noteq> 0
      then rs_gf_exp st ! (unat (rs_gf_log st ! unat a) + unat (rs_gf_log st ! unat b)) else 0)"

definition gf_inv :: "rs_gf_state \<Rightarrow> u8 \<Rightarrow> u8" where
  "gf_inv st a = rs_gf_exp st ! (255 - unat (rs_gf_log st ! unat a))"

definition gf_pow :: "rs_gf_state \<Rightarrow> u8 \<Rightarrow> nat \<Rightarrow> u8" where
  "gf_pow st a e =
     (if e = 0 then 1 else if a = 0 then 0
      else rs_gf_exp st ! (unat (rs_gf_log st ! unat a) * (e mod 255) mod 255))"

section \<open>Doubling on bytes\<close>

definition xt :: "u8 \<Rightarrow> u8" where
  "xt a = (if bit a 7 then push_bit 1 a XOR 0x1D else push_bit 1 a)"

definition gexp :: "nat \<Rightarrow> u8" where
  "gexp n = (xt ^^ n) 1"

primrec gorbit :: "nat \<Rightarrow> u8 \<Rightarrow> u8 list" where
  "gorbit 0 x = []"
| "gorbit (Suc n) x = x # gorbit n (xt x)"

lemma bit_xt: "bit (xt a) n \<longleftrightarrow> n < 8 \<and> (0 < n \<and> bit a (n - 1)) \<noteq> (bit a 7 \<and> bit (0x1D :: u8) n)"
  by (auto simp: xt_def bit_xor_iff mult.commute [of a 2] bit_double_iff dest: bit_imp_le_length)

lemma gf_step_xt: "rs_gf_step (ucast (a :: u8)) = ucast (xt a)"
proof (rule bit_word_eqI)
  fix n
  assume "n < LENGTH(32)"
  define y :: u32 where "y = push_bit 1 (ucast a)"
  have dbl: "bit y k \<longleftrightarrow> 0 < k \<and> k \<le> 8 \<and> bit a (k - 1)" for k
    using bit_double_iff [of "ucast a :: u32" k] by (auto simp: y_def mult.commute [of "ucast a" 2])
  have "y AND 0x100 \<noteq> 0 \<longleftrightarrow> bit a 7"
    using and_exp_eq_0_iff_not_bit [of y 8] dbl [of 8] by simp
  then have step: "rs_gf_step (ucast a) = (if bit a 7 then y XOR 0x11D else y)"
    unfolding rs_gf_step_def Let_def y_def [symmetric] by (rule if_cong) simp_all
  have poly: "bit (0x11D :: u32) k \<longleftrightarrow> k = 8 \<or> bit (0x1D :: u8) k" for k
  proof -
    have "(0x11D :: u32) = 2 ^ 8 XOR ucast (0x1D :: u8)" by simp
    then have "bit (0x11D :: u32) k = bit (2 ^ 8 XOR ucast (0x1D :: u8) :: u32) k" by (simp only:)
    also have "\<dots> \<longleftrightarrow> k = 8 \<or> bit (0x1D :: u8) k"
      unfolding bit_xor_iff bit_exp_iff bit_ucast_u8
      using bit_imp_le_length [of "0x1D :: u8" k] by auto
    finally show ?thesis .
  qed
  show "bit (rs_gf_step (ucast a)) n = bit (ucast (xt a) :: u32) n"
  proof -
    obtain P where P: "bit (0x1D :: u8) n \<longleftrightarrow> P" by blast
    then have "P \<Longrightarrow> n < 8" using bit_imp_le_length [of "0x1D :: u8" n] by simp
    moreover have "bit (rs_gf_step (ucast a)) n \<longleftrightarrow>
        (0 < n \<and> n \<le> 8 \<and> bit a (n - 1)) \<noteq> (bit a 7 \<and> (n = 8 \<or> P))"
      by (cases "bit a 7") (simp_all only: step if_True if_False bit_xor_iff dbl poly P, auto)
    ultimately show ?thesis
      using \<open>n < LENGTH(32)\<close> unfolding bit_ucast_u8 bit_xt P by (cases "n = 8") auto
  qed
qed

lemma xt_xor: "xt (a XOR b) = xt a XOR xt b"
  by (rule bit_word_eqI) (auto simp: bit_xt bit_xor_iff)

lemma xt_0 [simp]: "xt 0 = 0"
  by (simp add: xt_def)

lemma xt_inj [simp]: "xt a = xt b \<longleftrightarrow> a = b"
proof
  assume eq: "xt a = xt b"
  have bits: "bit (xt a) (Suc n) = bit (xt b) (Suc n)" "bit (xt a) 0 = bit (xt b) 0" for n
    using eq by simp_all
  have 7: "bit a 7 = bit b 7"
    using bits(2) by (simp add: bit_xt)
  have "bit a n = bit b n" if "n < 8" for n
    using bits(1) [of n] 7 that by (cases "n = 7") (auto simp: bit_xt)
  then show "a = b"
    by (intro bit_word_eqI) simp
qed simp

lemma xt_pow_0 [simp]: "(xt ^^ n) 0 = 0"
  by (induction n) simp_all

lemma xt_pow_xor: "(xt ^^ n) (a XOR b) = (xt ^^ n) a XOR (xt ^^ n) b"
  by (induction n) (simp_all add: xt_xor)

lemma xt_pow_inj [simp]: "(xt ^^ n) a = (xt ^^ n) b \<longleftrightarrow> a = b"
  by (induction n) simp_all

lemma xt_pow_comm: "(xt ^^ m) ((xt ^^ n) a) = (xt ^^ n) ((xt ^^ m) a)"
  by (metis add.commute comp_apply funpow_add)

section \<open>The element 2 generates the non-zero bytes\<close>

lemma gorbit_nth: "i < n \<Longrightarrow> gorbit n x ! i = (xt ^^ i) x"
  by (induction n arbitrary: i x) (auto simp: nth_Cons funpow_swap1 split: nat.split)

lemma length_gorbit [simp]: "length (gorbit n x) = n"
  by (induction n arbitrary: x) simp_all

lemma gexp_0 [simp]: "gexp 0 = 1"
  by (simp add: gexp_def)

lemma gexp_Suc: "gexp (Suc n) = xt (gexp n)"
  by (simp add: gexp_def)

lemma gexp_add: "gexp (m + n) = (xt ^^ m) (gexp n)"
  by (simp add: gexp_def funpow_add)

lemma gexp_nonzero [simp]: "gexp n \<noteq> 0"
  unfolding gexp_def by (metis xt_pow_0 xt_pow_inj zero_neq_one)

lemma gexp_neq_1:
  assumes "0 < n" and "n < 255" shows "gexp n \<noteq> 1"
proof -
  have "list_all (\<lambda>x. x \<noteq> 1) (gorbit 254 (xt 1))" by code_simp
  then have "gorbit 254 (xt 1) ! (n - 1) \<noteq> 1"
    using assms by (simp add: list_all_length)
  with assms show ?thesis
    by (cases n) (simp_all add: gorbit_nth gexp_def funpow_swap1)
qed

lemma gexp_255: "gexp 255 = 1"
proof -
  have "xt (last (gorbit 255 1)) = 1" by code_simp
  then have "xt (gorbit 255 1 ! 254) = 1"
    by (metis diff_Suc_1 eval_nat_numeral(3) last_conv_nth length_0_conv length_gorbit nat.simps(3) semiring_norm(26) semiring_norm(27))
  then show ?thesis
    using gexp_Suc [of 254] by (simp add: gorbit_nth gexp_def)
qed

lemma gexp_add_255 [simp]: "gexp (n + 255) = gexp n"
  by (simp only: gexp_add gexp_255) (simp add: gexp_def)

lemma gexp_mod: "gexp (n mod 255) = gexp n"
proof (induction n rule: less_induct)
  case (less n)
  show ?case
  proof (cases "n < 255")
    case False
    then obtain m where "n = m + 255" by (metis add.commute le_Suc_ex not_less)
    with less [of m] show ?thesis by simp
  qed simp
qed

lemma gexp_inj:
  assumes "gexp i = gexp j" and "i < 255" and "j < 255" shows "i = j"
proof -
  have "j \<le> i" if "gexp i = gexp j" "i \<le> j" "j < 255" for i j
  proof -
    from that have "gexp (i + (j - i)) = gexp (i + 0)" by simp
    then have "gexp (j - i) = 1" unfolding gexp_add by simp
    with that show ?thesis using gexp_neq_1 [of "j - i"] by fastforce
  qed
  from this [of i j] this [of j i] assms show ?thesis by fastforce
qed

lemma gexp_surj:
  assumes "a \<noteq> 0" obtains i where "i < 255" "a = gexp i"
proof -
  have "card (gexp ` {..<255}) = 255"
    by (simp add: card_image inj_on_def gexp_inj)
  moreover have "card (UNIV - {0 :: u8}) = 255"
    by (simp add: card_Diff_singleton card_word)
  moreover have "gexp ` {..<255} \<subseteq> UNIV - {0}" by auto
  ultimately have "gexp ` {..<255} = UNIV - {0}" by (intro card_subset_eq) auto
  with assms that show thesis by blast
qed

section \<open>The reference product\<close>

text \<open>Shift-and-add multiplication: the sum of \<open>2\<^sup>t b\<close> over the set bits \<open>t\<close> of \<open>a\<close>.\<close>

definition gterm :: "u8 \<Rightarrow> nat \<Rightarrow> u8 \<Rightarrow> u8" where
  "gterm a t b = (if bit a t then (xt ^^ t) b else 0)"

definition gprod :: "u8 \<Rightarrow> u8 \<Rightarrow> u8" where
  "gprod a b = gterm a 0 b XOR gterm a 1 b XOR gterm a 2 b XOR gterm a 3 b
     XOR gterm a 4 b XOR gterm a 5 b XOR gterm a 6 b XOR gterm a 7 b"

lemma gterm_xor_left: "gterm (a XOR a') t b = gterm a t b XOR gterm a' t b"
  by (simp add: gterm_def bit_xor_iff)

lemma gterm_xor_right: "gterm a t (b XOR b') = gterm a t b XOR gterm a t b'"
  by (simp add: gterm_def xt_pow_xor)

lemma gprod_xor_left: "gprod (a XOR a') b = gprod a b XOR gprod a' b"
  by (simp add: gprod_def gterm_xor_left ac_simps)

lemma gprod_xor_right: "gprod a (b XOR b') = gprod a b XOR gprod a b'"
  by (simp add: gprod_def gterm_xor_right ac_simps)

lemma gprod_0_left [simp]: "gprod 0 b = 0"
  by (simp add: gprod_def gterm_def)

lemma gprod_0_right [simp]: "gprod a 0 = 0"
  by (simp add: gprod_def gterm_def)

lemma gprod_1_left [simp]: "gprod 1 b = b"
  by (simp add: gprod_def gterm_def bit_1_iff)

text \<open>The reduction polynomial: \<open>2\<^sup>8 = 2\<^sup>4 + 2\<^sup>3 + 2\<^sup>2 + 1\<close>.\<close>

lemma xt_pow_8: "(xt ^^ 8) b = gprod 0x1D b"
proof (cases "b = 0")
  case False
  then obtain j where b: "b = gexp j" by (rule gexp_surj)
  have "gexp 8 = gprod 0x1D 1" by code_simp
  then have "(xt ^^ j) (gexp 8) = (xt ^^ j) (gprod 0x1D 1)" by simp
  also have "\<dots> = gprod 0x1D ((xt ^^ j) 1)"
    by (simp add: gprod_def gterm_def xt_pow_xor xt_pow_comm [of j])
  finally show ?thesis
    by (simp add: b gexp_def xt_pow_comm [of 8 j])
qed simp

lemma gprod_xt_left: "gprod (xt a) b = xt (gprod a b)"
proof -
  define s where "s = push_bit 1 a"
  have xt: "xt a = s XOR (if bit a 7 then 0x1D else 0)"
    by (simp add: xt_def s_def)
  have bits: "bit s t \<longleftrightarrow> 0 < t \<and> t < 8 \<and> bit a (t - 1)" for t
    by (auto simp: s_def mult.commute [of a 2] bit_double_iff dest: bit_imp_le_length)
  have "gprod s b XOR (if bit a 7 then (xt ^^ 8) b else 0) = xt (gprod a b)"
    by (simp add: gprod_def gterm_def bits xt_xor numeral_eq_Suc ac_simps)
  then show ?thesis
    by (simp add: xt gprod_xor_left xt_pow_8 split: if_splits)
qed

lemma gprod_gexp: "gprod (gexp i) b = (xt ^^ i) b"
  by (induction i) (simp_all add: gexp_Suc gprod_xt_left)

lemma gprod_gexp_gexp: "gprod (gexp i) (gexp j) = gexp (i + j)"
  by (simp add: gprod_gexp gexp_add)

lemma gprod_comm: "gprod a b = gprod b a"
proof (cases "a = 0 \<or> b = 0")
  case False
  then obtain i j where "a = gexp i" "b = gexp j" by (metis gexp_surj)
  then show ?thesis by (simp add: gprod_gexp_gexp add.commute)
qed auto

lemma gprod_assoc: "gprod (gprod a b) c = gprod a (gprod b c)"
proof (cases "a = 0 \<or> b = 0")
  case False
  then obtain i j where "a = gexp i" "b = gexp j" by (metis gexp_surj)
  then show ?thesis by (simp add: gprod_gexp funpow_add flip: gexp_add)
qed auto

section \<open>The tables compute the reference\<close>

definition gf_tables_ok :: "rs_gf_state \<Rightarrow> bool" where
  "gf_tables_ok st \<longleftrightarrow>
     (\<forall>i < 512. rs_gf_exp st ! i = gexp i) \<and>
     (\<forall>i < 255. rs_gf_log st ! unat (gexp i) = of_nat i) \<and>
     (\<forall>a < 256. \<forall>b < 256. rs_gf_mul st ! a ! b = gf_mul st (of_nat a) (of_nat b))"

text \<open>The static tables are zero-filled until the first call of \<open>rs_gf_init\<close>, which is the
  only code that writes them.\<close>

definition rs_gf_ok :: "rs_gf_state \<Rightarrow> bool" where
  "rs_gf_ok st \<longleftrightarrow> st = rs_gf_state0 \<or> st = rs_gf_init rs_gf_state0"

lemma rs_gf_ok_state0: "rs_gf_ok rs_gf_state0"
  by (simp add: rs_gf_ok_def)

lemma gf_step_pow: "(rs_gf_step ^^ n) 1 = ucast (gexp n)"
  by (induction n) (simp_all add: gf_step_xt gexp_Suc)

lemma unat_ucast_u8 [simp]: "unat (ucast (b :: u8) :: u32) = unat b"
  using unsigned_less [of b, where 'a = nat] by (simp add: unsigned_ucast_eq take_bit_nat_eq_self_iff)

lemma unat_u8_lt [simp]: "unat (b :: u8) < 256"
  using unsigned_less [of b, where 'a = nat] by simp

lemma ucast_u8_u32 [simp]: "(ucast (ucast (b :: u8) :: u32) :: u8) = b"
  by (rule bit_word_eqI) (simp add: bit_unsigned_iff)

lemma unat_of_nat_u8: "a < 256 \<Longrightarrow> unat (of_nat a :: u8) = a"
  by (simp add: unat_of_nat)

lemma rs_gf_fill_loop:
  assumes "length ex = 512" and "length lg = 256" and "n \<le> 255"
  shows "\<exists>ex' lg'. fold rs_gf_turn [0..<n] (1, ex, lg) = (ucast (gexp n), ex', lg')
    \<and> length ex' = 512 \<and> length lg' = 256
    \<and> (\<forall>i < n. ex' ! i = gexp i \<and> lg' ! unat (gexp i) = of_nat i)"
  using assms(3)
proof (induction n)
  case (Suc n)
  then obtain ex' lg' where ih: "fold rs_gf_turn [0..<n] (1, ex, lg) = (ucast (gexp n), ex', lg')"
    "length ex' = 512" "length lg' = 256"
    "\<forall>i < n. ex' ! i = gexp i \<and> lg' ! unat (gexp i) = of_nat i" by auto
  have "unat (gexp n) \<noteq> unat (gexp i)" if "i < n" for i
    using that Suc.prems gexp_inj [of n i] by (auto simp: word_unat_eq_iff [symmetric])
  moreover have "fold rs_gf_turn [0..<Suc n] (1, ex, lg) =
      (ucast (gexp (Suc n)), ex'[n := gexp n], lg'[unat (gexp n) := of_nat n])"
    using ih(1) by (simp add: rs_gf_turn_def [of n] gf_step_xt gexp_Suc)
  ultimately show ?case
    using ih Suc.prems by (simp add: nth_list_update less_Suc_eq)
qed (use assms in simp)

lemma rs_gf_exp_loop:
  assumes "length ex = 512" and "\<forall>i < 255. ex ! i = gexp i" and "255 \<le> n" and "n \<le> 512"
  shows "length (fold (\<lambda>i e. e[i := e ! (i - 255)]) [255..<n] ex) = 512
    \<and> (\<forall>i < n. fold (\<lambda>i e. e[i := e ! (i - 255)]) [255..<n] ex ! i = gexp i)"
  using assms(3,4)
proof (induction n rule: dec_induct)
  case (step n)
  have "gexp (n - 255) = gexp n"
    using gexp_add_255 [of "n - 255"] step.hyps by simp
  with step show ?case by (simp add: nth_list_update less_Suc_eq)
qed (use assms in simp)

lemma rs_gf_init_tables: "gf_tables_ok (rs_gf_init rs_gf_state0)"
proof -
  define st where "st = rs_gf_state0"
  have len: "length (rs_gf_exp st) = 512" "length (rs_gf_log st) = 256" and ready: "\<not> rs_gf_ready st"
    by (simp_all add: st_def rs_gf_state0_def)
  obtain ex lg where f: "fold rs_gf_turn [0..<255] (1, rs_gf_exp st, rs_gf_log st) = (ucast (gexp 255), ex, lg)"
    "length ex = 512" "length lg = 256" "\<forall>i < 255. ex ! i = gexp i \<and> lg ! unat (gexp i) = of_nat i"
    using rs_gf_fill_loop [OF len, of 255] by (auto simp del: upt_rec_numeral)
  define ex2 where "ex2 = fold (\<lambda>i e. e[i := e ! (i - 255)]) [255..<512] ex"
  have ex2: "length ex2 = 512" "\<forall>i < 512. ex2 ! i = gexp i"
    using rs_gf_exp_loop [of ex 512] f by (auto simp: ex2_def simp del: upt_rec_numeral)
  have init: "rs_gf_init st = \<lparr>rs_gf_exp = ex2, rs_gf_log = lg,
      rs_gf_mul = map (\<lambda>i. map (\<lambda>j. if i \<noteq> 0 \<and> j \<noteq> 0 then ex2 ! (unat (lg ! i) + unat (lg ! j)) else 0)
        [0..<256]) [0..<256], rs_gf_ready = True\<rparr>"
    using ready f(1) by (simp add: rs_gf_init_def ex2_def Let_def del: upt_rec_numeral)
  have nz: "(of_nat a :: u8) = 0 \<longleftrightarrow> a = 0" if "a < 256" for a
    using unat_of_nat_u8 [OF that] by auto
  have "rs_gf_mul (rs_gf_init st) ! a ! b = gf_mul (rs_gf_init st) (of_nat a) (of_nat b)"
    if "a < 256" "b < 256" for a b
    using that by (simp add: init gf_mul_def unat_of_nat_u8 nz del: upt_rec_numeral)
  moreover have "\<forall>i < 512. rs_gf_exp (rs_gf_init st) ! i = gexp i"
    "\<forall>i < 255. rs_gf_log (rs_gf_init st) ! unat (gexp i) = of_nat i"
    using ex2(2) f(4) unfolding init by simp_all
  ultimately show ?thesis
    unfolding gf_tables_ok_def st_def by blast
qed

lemma rs_gf_init_ready: "rs_gf_ready (rs_gf_init st)"
  by (simp add: rs_gf_init_def Let_def split_beta del: upt_rec_numeral)

lemma rs_gf_init_idem: "rs_gf_init (rs_gf_init st) = rs_gf_init st"
  by (simp add: rs_gf_init_def [of "rs_gf_init st"] rs_gf_init_ready)

lemma rs_gf_init_ok:
  assumes "rs_gf_ok st"
  shows "rs_gf_init st = rs_gf_init rs_gf_state0" and "gf_tables_ok (rs_gf_init st)" and "rs_gf_ok (rs_gf_init st)"
  using assms rs_gf_init_tables by (auto simp: rs_gf_ok_def rs_gf_init_idem)

lemma gf_tables_expD: "gf_tables_ok st \<Longrightarrow> i < 512 \<Longrightarrow> rs_gf_exp st ! i = gexp i"
  by (simp add: gf_tables_ok_def)

lemma gf_tables_logD: "gf_tables_ok st \<Longrightarrow> i < 255 \<Longrightarrow> unat (rs_gf_log st ! unat (gexp i)) = i"
  by (simp add: gf_tables_ok_def unat_of_nat)

lemma gf_mul_gprod:
  assumes "gf_tables_ok st" shows "gf_mul st a b = gprod a b"
proof (cases "a = 0 \<or> b = 0")
  case False
  then obtain i j where "i < 255" "j < 255" and ab: "a = gexp i" "b = gexp j" by (metis gexp_surj)
  then show ?thesis
    using assms by (simp add: gf_mul_def gf_tables_expD gf_tables_logD gprod_gexp_gexp)
qed (auto simp: gf_mul_def)

lemma rs_gf_mul_gprod:
  assumes "gf_tables_ok st" shows "rs_gf_mul st ! unat a ! unat b = gprod a b"
  using assms by (simp add: gf_tables_ok_def gf_mul_gprod [OF assms])

definition gpow :: "u8 \<Rightarrow> nat \<Rightarrow> u8" where
  "gpow a n = (gprod a ^^ n) 1"

lemma gpow_gexp: "gpow (gexp i) n = gexp (i * n)"
  by (induction n) (simp_all add: gpow_def gprod_gexp_gexp)

lemma gpow_0_base: "gpow 0 n = (if n = 0 then 1 else 0)"
  by (cases n) (simp_all add: gpow_def)

lemma gf_pow_gpow:
  assumes "gf_tables_ok st" shows "gf_pow st a e = gpow a e"
proof (cases "a = 0 \<or> e = 0")
  case False
  then obtain i where "i < 255" and a: "a = gexp i" by (metis gexp_surj)
  moreover have "i * (e mod 255) mod 255 < 512"
    by (rule order.strict_trans [of _ 255]) simp_all
  moreover have "gexp (i * (e mod 255) mod 255) = gexp (i * e)"
    by (metis gexp_mod mod_mult_right_eq)
  ultimately show ?thesis
    using False assms by (simp add: gf_pow_def gf_tables_expD gf_tables_logD gpow_gexp)
qed (cases "e = 0"; simp add: gf_pow_def gpow_0_base; simp add: gpow_def)

lemma gf_inv_gexp: "gf_tables_ok st \<Longrightarrow> i < 255 \<Longrightarrow> gf_inv st (gexp i) = gexp (255 - i)"
  by (simp add: gf_inv_def gf_tables_expD gf_tables_logD)

lemma gf_inv_gprod:
  assumes "gf_tables_ok st" and "a \<noteq> 0" shows "gprod a (gf_inv st a) = 1"
proof -
  obtain i where "i < 255" "a = gexp i" using assms(2) by (rule gexp_surj)
  then show ?thesis
    by (simp add: gf_inv_gexp [OF assms(1)] gprod_gexp_gexp gexp_255)
qed

section \<open>Bytes form a field\<close>

definition ginv :: "u8 \<Rightarrow> u8" where
  "ginv a = gpow a 254"

lemma gprod_ginv: "a \<noteq> 0 \<Longrightarrow> gprod (ginv a) a = 1"
proof -
  assume "a \<noteq> 0"
  then obtain i where "a = gexp i" by (rule gexp_surj)
  then have "gprod (ginv a) a = gexp (i * 254 + i)"
    by (simp add: ginv_def gpow_gexp gprod_gexp_gexp)
  also have "i * 254 + i = i * 255" by simp
  also have "gexp (i * 255) = 1" using gexp_mod [of "i * 255"] by simp
  finally show ?thesis .
qed

typedef gf256 = "UNIV :: u8 set"
  morphisms gbyte GF
  by simp

setup_lifting type_definition_gf256

instantiation gf256 :: field
begin

lift_definition zero_gf256 :: gf256 is 0 .

lift_definition one_gf256 :: gf256 is 1 .

lift_definition plus_gf256 :: "gf256 \<Rightarrow> gf256 \<Rightarrow> gf256" is "(XOR)" .

lift_definition minus_gf256 :: "gf256 \<Rightarrow> gf256 \<Rightarrow> gf256" is "(XOR)" .

lift_definition uminus_gf256 :: "gf256 \<Rightarrow> gf256" is "\<lambda>a. a" .

lift_definition times_gf256 :: "gf256 \<Rightarrow> gf256 \<Rightarrow> gf256" is gprod .

lift_definition inverse_gf256 :: "gf256 \<Rightarrow> gf256" is ginv .

definition divide_gf256 :: "gf256 \<Rightarrow> gf256 \<Rightarrow> gf256" where
  "divide_gf256 a b = a * inverse b"

instance
proof
  fix a b c :: gf256
  show "a * b * c = a * (b * c)" by transfer (rule gprod_assoc)
  show "a * b = b * a" by transfer (rule gprod_comm)
  show "1 * a = a" by transfer simp
  show "a + b + c = a + (b + c)" by transfer (rule xor.assoc)
  show "a + b = b + a" by transfer (rule xor.commute)
  show "0 + a = a" by transfer simp
  show "- a + a = 0" by transfer simp
  show "a - b = a + - b" by transfer simp
  show "(a + b) * c = a * c + b * c" by transfer (rule gprod_xor_left)
  show "0 \<noteq> (1 :: gf256)" by transfer simp
  show "inverse a * a = 1" if "a \<noteq> 0" using that by transfer (rule gprod_ginv)
  show "a div b = a * inverse b" by (rule divide_gf256_def)
  show "inverse (0 :: gf256) = 0" by transfer (simp add: ginv_def gpow_0_base)
qed

end

lemma GF_0 [simp]: "GF 0 = 0"
  by (simp add: zero_gf256_def)

lemma GF_1 [simp]: "GF 1 = 1"
  by (simp add: one_gf256_def)

lemma GF_xor: "GF (a XOR b) = GF a + GF b"
  by (simp add: plus_gf256.abs_eq)

lemma GF_inj [simp]: "GF a = GF b \<longleftrightarrow> a = b"
  by (simp add: GF_inject)

lemma GF_eq_0 [simp]: "GF a = 0 \<longleftrightarrow> a = 0"
  using GF_inj [of a 0] by simp

lemma GF_gprod: "GF (gprod a b) = GF a * GF b"
  by (simp add: times_gf256.abs_eq)

lemma GF_gpow: "GF (gpow a n) = GF a ^ n"
  by (induction n) (simp_all add: gpow_def GF_gprod)

lemma gf_char2 [simp]: "(x :: gf256) + x = 0"
  by transfer simp

lemma gf_uminus [simp]: "- (x :: gf256) = x"
  by transfer simp

lemma GF_gf_inv:
  assumes "gf_tables_ok st" and "a \<noteq> 0" shows "GF (gf_inv st a) = inverse (GF a)"
  using gf_inv_gprod [OF assms] by (metis GF_1 GF_gprod inverse_unique)

lemmas gf_field_ops = gf_mul_gprod gf_pow_gpow GF_gprod GF_gpow GF_gf_inv GF_xor

text \<open>C5. From any state of the static tables, \<open>rs_gf_init\<close> leaves tables with which \<open>gf_mul\<close>
  is shift-and-add multiplication modulo 0x11D, \<open>gf_pow\<close> iterates it, \<open>gf_inv\<close> inverts every
  non-zero byte, and the 256x256 product table holds the same products.\<close>

theorem gf_ops_correct:
  assumes "rs_gf_ok st0"
  defines "st \<equiv> rs_gf_init st0"
  shows "gf_mul st a b = gprod a b
    \<and> rs_gf_mul st ! unat a ! unat b = gprod a b
    \<and> gf_pow st a e = (gprod a ^^ e) 1
    \<and> (a \<noteq> 0 \<longrightarrow> gprod a (gf_inv st a) = 1)"
proof -
  have "gf_tables_ok st" using rs_gf_init_ok [OF assms(1)] by (simp add: st_def)
  then show ?thesis
    by (simp add: gf_mul_gprod rs_gf_mul_gprod gf_pow_gpow gpow_def gf_inv_gprod)
qed

theorem gf_ops_correct_witness:
  "gf_mul (rs_gf_init rs_gf_state0) 0x53 0x1B = gprod 0x53 0x1B \<and> gprod 0x53 0x1B = 14"
proof -
  have "gprod 0x53 0x1B = 14" by code_simp
  then show ?thesis
    using gf_ops_correct [OF rs_gf_ok_state0, of "0x53" "0x1B" 0] by simp
qed

end
