(* ===== verification/GfMatrix.thy ===== *)
theory GfMatrix
  imports Complex_Main
begin

text \<open>
  Linear algebra over a field, as far as erasure coding needs it. Matrices are functions of a
  row and a column index. Held here: row spans and the elementary row operations of
  Gauss-Jordan elimination, what a finished elimination of \<open>[M | I]\<close> says about its right
  half, why a missing pivot exhibits a kernel vector, and the two vanishing arguments
  (polynomial evaluation and Cauchy) behind the parity matrices of \<^verbatim>\<open>src/codecs/rs.c\<close>.
\<close>

section \<open>Row spans\<close>

definition row_in :: "nat \<Rightarrow> nat \<Rightarrow> (nat \<Rightarrow> nat \<Rightarrow> 'a::field) \<Rightarrow> (nat \<Rightarrow> 'a) \<Rightarrow> bool" where
  "row_in n w B r \<longleftrightarrow> (\<exists>T. \<forall>c < w. r c = (\<Sum>t < n. T t * B t c))"

lemma row_inI: "(\<And>c. c < w \<Longrightarrow> r c = (\<Sum>t < n. T t * B t c)) \<Longrightarrow> row_in n w B r"
  unfolding row_in_def by blast

lemma row_in_row [intro]: "a < n \<Longrightarrow> row_in n w B (B a)"
  by (rule row_inI [where T = "\<lambda>t. if t = a then 1 else 0"]) (simp add: if_distrib [of "\<lambda>x. x * _"] cong: if_cong)

lemma row_in_scale: "row_in n w B r \<Longrightarrow> row_in n w B (\<lambda>c. x * r c)"
  unfolding row_in_def
  by (elim exE, rule_tac x = "\<lambda>t. x * T t" in exI) (simp add: sum_distrib_left mult.assoc)

lemma row_in_add: "row_in n w B r \<Longrightarrow> row_in n w B s \<Longrightarrow> row_in n w B (\<lambda>c. r c + s c)"
  unfolding row_in_def
  by (elim exE, rule_tac x = "\<lambda>t. T t + Ta t" in exI) (simp add: sum.distrib distrib_right)

lemma row_in_sum:
  "(\<And>t. t < (k :: nat) \<Longrightarrow> row_in n w B (f t)) \<Longrightarrow> row_in n w B (\<lambda>c. \<Sum>t < k. f t c)"
proof (induction k)
  case 0
  show ?case by (rule row_inI [where T = "\<lambda>_. 0"]) simp
next
  case (Suc k)
  then show ?case by (simp add: row_in_add)
qed

lemma row_in_cong: "row_in n w B r \<Longrightarrow> (\<And>c. c < w \<Longrightarrow> s c = r c) \<Longrightarrow> row_in n w B s"
  unfolding row_in_def by metis

definition rows_in :: "nat \<Rightarrow> nat \<Rightarrow> (nat \<Rightarrow> nat \<Rightarrow> 'a::field) \<Rightarrow> (nat \<Rightarrow> nat \<Rightarrow> 'a) \<Rightarrow> bool" where
  "rows_in n w A B \<longleftrightarrow> (\<forall>a < n. row_in n w B (A a))"

definition row_equiv :: "nat \<Rightarrow> nat \<Rightarrow> (nat \<Rightarrow> nat \<Rightarrow> 'a::field) \<Rightarrow> (nat \<Rightarrow> nat \<Rightarrow> 'a) \<Rightarrow> bool" where
  "row_equiv n w A B \<longleftrightarrow> rows_in n w A B \<and> rows_in n w B A"

lemma rows_in_trans:
  assumes "rows_in n w A B" and "rows_in n w B C" shows "rows_in n w A C"
  unfolding rows_in_def
proof (intro allI impI)
  fix a
  assume "a < n"
  then obtain T where T: "\<forall>c < w. A a c = (\<Sum>t < n. T t * B t c)"
    using assms(1) by (auto simp: rows_in_def row_in_def)
  have "row_in n w C (\<lambda>c. \<Sum>t < n. T t * B t c)"
    using assms(2) by (intro row_in_sum row_in_scale) (simp add: rows_in_def)
  then show "row_in n w C (A a)" using T by (rule_tac row_in_cong) auto
qed

lemma row_equiv_refl: "row_equiv n w A A"
  by (auto simp: row_equiv_def rows_in_def)

lemma row_equiv_trans: "row_equiv n w A B \<Longrightarrow> row_equiv n w B C \<Longrightarrow> row_equiv n w A C"
  unfolding row_equiv_def by (blast intro: rows_in_trans)

section \<open>Elementary operations\<close>

lemma row_equiv_swap:
  assumes "p < n" and "b < n"
    and "\<And>a c. a < n \<Longrightarrow> c < w \<Longrightarrow> A' a c = (if a = p then A b c else if a = b then A p c else A a c)"
  shows "row_equiv n w A' A"
proof -
  have "row_in n w A (A' a)" if "a < n" for a
    using assms that by (intro row_in_cong [OF row_in_row, of "if a = p then b else if a = b then p else a"]) auto
  moreover have "row_in n w A' (A a)" if "a < n" for a
    using assms that by (intro row_in_cong [OF row_in_row, of "if a = p then b else if a = b then p else a"]) auto
  ultimately show ?thesis by (simp add: row_equiv_def rows_in_def)
qed

lemma row_equiv_scale:
  assumes "b < n" and "x \<noteq> 0"
    and "\<And>a c. a < n \<Longrightarrow> c < w \<Longrightarrow> A' a c = (if a = b then x * A b c else A a c)"
  shows "row_equiv n w A' A"
proof -
  have "row_in n w A (A' a)" if "a < n" for a
    using assms that
    by (intro row_in_cong [OF row_in_scale [OF row_in_row [of a], where x = "if a = b then x else 1"]]) auto
  moreover have "row_in n w A' (A a)" if "a < n" for a
    using assms that
    by (intro row_in_cong [OF row_in_scale [OF row_in_row [of a], where x = "if a = b then inverse x else 1"]]) auto
  ultimately show ?thesis by (simp add: row_equiv_def rows_in_def)
qed

lemma row_equiv_eliminate:
  assumes "b < n" and "f b = 0"
    and "\<And>a c. a < n \<Longrightarrow> c < w \<Longrightarrow> A' a c = A a c + f a * A b c"
  shows "row_equiv n w A' A"
proof -
  have "row_in n w A (A' a)" if "a < n" for a
    using assms that by (intro row_in_cong [OF row_in_add [OF row_in_row [of a] row_in_scale [OF row_in_row [of b], where x = "f a"]]]) auto
  moreover have "row_in n w A' (A a)" if "a < n" for a
    using assms that by (intro row_in_cong [OF row_in_add [OF row_in_row [of a] row_in_scale [OF row_in_row [of b], where x = "- f a"]]]) auto
  ultimately show ?thesis by (simp add: row_equiv_def rows_in_def)
qed

section \<open>Gauss-Jordan elimination\<close>

text \<open>\<open>gj_inv n b M A\<close>: \<open>A\<close> is row equivalent to \<open>[M | I]\<close> and its first \<open>b\<close> columns are
  unit columns.\<close>

definition delta :: "nat \<Rightarrow> nat \<Rightarrow> 'a::field" where
  "delta a c = (if a = c then 1 else 0)"

definition augmented :: "nat \<Rightarrow> (nat \<Rightarrow> nat \<Rightarrow> 'a::field) \<Rightarrow> nat \<Rightarrow> nat \<Rightarrow> 'a" where
  "augmented n M a c = (if c < n then M a c else delta (n + a) c)"

definition gj_inv :: "nat \<Rightarrow> nat \<Rightarrow> (nat \<Rightarrow> nat \<Rightarrow> 'a::field) \<Rightarrow> (nat \<Rightarrow> nat \<Rightarrow> 'a) \<Rightarrow> bool" where
  "gj_inv n b M A \<longleftrightarrow> row_equiv n (2 * n) A (augmented n M) \<and> (\<forall>a < n. \<forall>c < b. A a c = delta a c)"

lemma sum_delta_left [simp]: "a < n \<Longrightarrow> (\<Sum>t < n. delta a t * f t) = f a"
  by (simp add: delta_def if_distrib [of "\<lambda>x. x * _"] cong: if_cong)

lemma sum_delta_right [simp]: "c < n \<Longrightarrow> (\<Sum>t < n. f t * delta t c) = f c"
  by (simp add: delta_def if_distrib [of "\<lambda>x. _ * x"] cong: if_cong)

lemma gj_inv_step:
  assumes inv: "gj_inv n b M A" and p: "b \<le> p" "p < n" "A p b \<noteq> 0"
    and A1: "\<And>a c. a < n \<Longrightarrow> c < 2 * n \<Longrightarrow>
      A1 a c = (if a = p then A b c else if a = b then A p c else A a c)"
    and A2: "\<And>a c. a < n \<Longrightarrow> c < 2 * n \<Longrightarrow>
      A2 a c = (if a = b then inverse (A1 b b) * A1 b c else A1 a c)"
    and A3: "\<And>a c. a < n \<Longrightarrow> c < 2 * n \<Longrightarrow>
      A3 a c = A2 a c + (if a = b then 0 else - A2 a b) * A2 b c"
  shows "gj_inv n (Suc b) M A3"
proof -
  have b: "b < n" using p by simp
  have nz: "A1 b b \<noteq> 0" using A1 [of b b] p b by auto
  have "row_equiv n (2 * n) A3 A2"
    by (rule row_equiv_eliminate [OF b, where f = "\<lambda>a. if a = b then 0 else - A2 a b"]) (simp_all add: A3)
  moreover have "row_equiv n (2 * n) A2 A1"
    by (rule row_equiv_scale [OF b, where x = "inverse (A1 b b)"]) (simp_all add: nz A2)
  moreover have "row_equiv n (2 * n) A1 A"
    using p b by (intro row_equiv_swap [OF _ _ A1]) auto
  ultimately have "row_equiv n (2 * n) A3 (augmented n M)"
    using inv unfolding gj_inv_def by (blast intro: row_equiv_trans)
  moreover have "A3 a c = delta a c" if "a < n" "c < Suc b" for a c
  proof (cases "c = b")
    case True
    then show ?thesis
      using that b nz A2 [of a b] A2 [of b b] A3 [of a b] by (auto simp: delta_def)
  next
    case False
    with that have c: "c < b" by simp
    then have unit: "\<And>a. a < n \<Longrightarrow> A a c = delta a c" using inv by (simp add: gj_inv_def)
    have "A1 b c = 0" using A1 [of b c] unit b p c by (auto simp: delta_def)
    then have "A2 b c = 0" using A2 [of b c] b c by simp
    then have "A3 a c = A2 a c" using A3 [of a c] that b c by simp
    also have "\<dots> = delta a c"
      using A2 [of a c] A1 [of a c] \<open>A2 b c = 0\<close> unit that b p c by (auto simp: delta_def)
    finally show ?thesis .
  qed
  ultimately show ?thesis by (simp add: gj_inv_def)
qed

lemma gj_inv_init: "gj_inv n 0 M (augmented n M)"
  by (simp add: gj_inv_def row_equiv_refl)

lemma gj_inv_cong:
  assumes "gj_inv n b M A" and "b \<le> n" and "\<And>a c. a < n \<Longrightarrow> c < 2 * n \<Longrightarrow> B a c = A a c"
  shows "gj_inv n b M B"
proof -
  have "row_in n (2 * n) A (B a)" "row_in n (2 * n) B (A a)" if "a < n" for a
    using assms that by (auto intro!: row_in_cong [OF row_in_row [of a]])
  then have "row_equiv n (2 * n) B A" by (simp add: row_equiv_def rows_in_def)
  with assms show ?thesis by (auto simp: gj_inv_def intro: row_equiv_trans)
qed

lemma gj_inv_left:
  assumes inv: "gj_inv n n M A" and "a < n" and "c < n"
  shows "(\<Sum>t < n. A a (n + t) * M t c) = delta a c"
proof -
  obtain T where T: "\<forall>c < 2 * n. A a c = (\<Sum>t < n. T t * augmented n M t c)"
    using inv \<open>a < n\<close> unfolding gj_inv_def row_equiv_def rows_in_def row_in_def by blast
  have "A a (n + j) = T j" if "j < n" for j
  proof -
    have "A a (n + j) = (\<Sum>t < n. T t * delta t j)"
      using T that by (auto simp: augmented_def delta_def intro!: sum.cong)
    then show ?thesis using that by simp
  qed
  moreover have "A a c = (\<Sum>t < n. T t * M t c)"
    using T \<open>c < n\<close> by (simp add: augmented_def)
  ultimately show ?thesis
    using inv assms(2,3) by (simp add: gj_inv_def)
qed

lemma gj_inv_span:
  assumes "gj_inv n b M A" and "a < n"
  obtains S where "\<And>c. c < n \<Longrightarrow> M a c = (\<Sum>t < n. S t * A t c)"
    and "\<And>c. c < n \<Longrightarrow> delta a c = (\<Sum>t < n. S t * A t (n + c))"
proof -
  obtain S where S: "\<forall>c < 2 * n. augmented n M a c = (\<Sum>t < n. S t * A t c)"
    using assms unfolding gj_inv_def row_equiv_def rows_in_def row_in_def by blast
  show thesis
  proof (rule that [of S])
    show "M a c = (\<Sum>t < n. S t * A t c)" if "c < n" for c
      using S [rule_format, of c] that by (simp add: augmented_def)
    show "delta a c = (\<Sum>t < n. S t * A t (n + c))" if "c < n" for c
      using S [rule_format, of "n + c"] that by (simp add: augmented_def delta_def)
  qed
qed

lemma gj_inv_right:
  assumes inv: "gj_inv n n M A" and "a < n" and "c < n"
  shows "(\<Sum>t < n. M a t * A t (n + c)) = delta a c"
proof -
  obtain S where S: "\<And>c. c < n \<Longrightarrow> M a c = (\<Sum>t < n. S t * A t c)"
    "\<And>c. c < n \<Longrightarrow> delta a c = (\<Sum>t < n. S t * A t (n + c))"
    using gj_inv_span [OF inv \<open>a < n\<close>] by blast
  have "M a j = S j" if "j < n" for j
  proof -
    have "M a j = (\<Sum>t < n. S t * delta t j)"
      using S(1) [OF that] inv that by (simp add: gj_inv_def)
    then show ?thesis using that by simp
  qed
  then show ?thesis using S(2) [OF \<open>c < n\<close>] by simp
qed

definition no_kernel :: "nat \<Rightarrow> (nat \<Rightarrow> nat \<Rightarrow> 'a::field) \<Rightarrow> bool" where
  "no_kernel n M \<longleftrightarrow> (\<forall>v. (\<forall>a < n. (\<Sum>c < n. M a c * v c) = 0) \<longrightarrow> (\<forall>c < n. v c = 0))"

lemma left_inverse_no_kernel:
  assumes L: "\<forall>a < n. \<forall>c < n. (\<Sum>t < n. L a t * M t c) = delta a c"
  shows "no_kernel n M"
  unfolding no_kernel_def
proof (intro allI impI)
  fix v c
  assume ker: "\<forall>a < n. (\<Sum>c < n. M a c * v c) = 0" and c: "c < n"
  have "v c = (\<Sum>d < n. delta c d * v d)" using c by simp
  also have "\<dots> = (\<Sum>d < n. \<Sum>t < n. L c t * (M t d * v d))"
  proof (rule sum.cong [OF refl])
    fix d assume "d \<in> {..<n}"
    then have "delta c d * v d = (\<Sum>t < n. L c t * M t d) * v d" using L c by simp
    then show "delta c d * v d = (\<Sum>t < n. L c t * (M t d * v d))"
      by (simp add: sum_distrib_right mult.assoc)
  qed
  also have "\<dots> = (\<Sum>t < n. L c t * (\<Sum>d < n. M t d * v d))"
    by (subst sum.swap) (simp add: sum_distrib_left)
  finally show "v c = 0" using ker by simp
qed

lemma gj_no_pivot:
  assumes inv: "gj_inv n b M A" and b: "b < n" and none: "\<And>p. b \<le> p \<Longrightarrow> p < n \<Longrightarrow> A p b = 0"
  shows "\<exists>v. v b \<noteq> 0 \<and> (\<forall>a < n. (\<Sum>c < n. M a c * v c) = 0)"
proof -
  define v where "v c = (if c = b then 1 else if c < b then - A c b else 0)" for c
  have A: "(\<Sum>c < n. A t c * v c) = 0" if t: "t < n" for t
  proof -
    have "(\<Sum>c < n. A t c * v c) = (\<Sum>c \<in> {..<b} \<union> {b}. A t c * v c)"
      using b by (intro sum.mono_neutral_right) (auto simp: v_def)
    also have "\<dots> = (\<Sum>c < b. A t c * v c) + A t b" by (simp add: v_def)
    also have "(\<Sum>c < b. A t c * v c) = (\<Sum>c < b. delta t c * - A c b)"
      using inv t by (intro sum.cong) (auto simp: gj_inv_def v_def)
    also have "\<dots> + A t b = 0"
    proof (cases "t < b")
      case True
      then show ?thesis by (simp only: sum_delta_left) simp
    next
      case False
      then have "(\<Sum>c < b. delta t c * - A c b) = 0" by (intro sum.neutral) (auto simp: delta_def)
      then show ?thesis using none [of t] t False by simp
    qed
    finally show ?thesis .
  qed
  have "(\<Sum>c < n. M a c * v c) = 0" if a: "a < n" for a
  proof -
    obtain S where S: "\<And>c. c < n \<Longrightarrow> M a c = (\<Sum>t < n. S t * A t c)"
      using gj_inv_span [OF inv a] by metis
    have "(\<Sum>c < n. M a c * v c) = (\<Sum>c < n. \<Sum>t < n. S t * (A t c * v c))"
      by (simp add: S sum_distrib_right mult.assoc)
    also have "\<dots> = (\<Sum>t < n. S t * (\<Sum>c < n. A t c * v c))"
      by (subst sum.swap) (simp add: sum_distrib_left)
    finally show ?thesis by (simp add: A)
  qed
  then show ?thesis by (intro exI [of _ v]) (simp add: v_def)
qed

section \<open>Vanishing arguments\<close>

definition polyfn :: "nat \<Rightarrow> ('a::field \<Rightarrow> 'a) \<Rightarrow> bool" where
  "polyfn n f \<longleftrightarrow> (\<exists>c. \<forall>z. f z = (\<Sum>i < n. c i * z ^ i))"

lemma polyfn_zero: "polyfn n f \<Longrightarrow> finite X \<Longrightarrow> n \<le> card X \<Longrightarrow> \<forall>x \<in> X. f x = 0 \<Longrightarrow> f z = 0"
proof (induction n arbitrary: f X)
  case (Suc n)
  then obtain c where c: "\<And>z. f z = (\<Sum>i \<le> n. c i * z ^ i)"
    unfolding polyfn_def lessThan_Suc_atMost by blast
  obtain a where a: "a \<in> X" using Suc.prems by fastforce
  then have "(\<Sum>i \<le> n. c i * a ^ i) = 0" using Suc.prems(4) by (simp flip: c)
  from polyfun_linear_factor_root [OF this]
  obtain b where b: "\<And>z. (\<Sum>i \<le> n. c i * z ^ i) = (z - a) * (\<Sum>i < n. b i * z ^ i)" by blast
  define g where "g z = (\<Sum>i < n. b i * z ^ i)" for z
  have "polyfn n g" by (auto simp: polyfn_def g_def)
  moreover have "\<forall>x \<in> X - {a}. g x = 0"
    using Suc.prems(4) by (auto simp: c b g_def)
  ultimately have "g z = 0"
    using Suc.IH [of g "X - {a}"] Suc.prems a by simp
  then show ?case by (simp add: c b g_def)
qed (auto simp: polyfn_def)

lemma horner_tail:
  fixes c :: "nat \<Rightarrow> 'a::comm_ring_1"
  assumes "j < n"
  shows "(\<Sum>i = Suc j..n. c i * a ^ (i - j - 1))
    = c (Suc j) + a * (\<Sum>i = Suc (Suc j)..n. c i * a ^ (i - Suc j - 1))"
proof -
  have "(\<Sum>i = Suc j..n. c i * a ^ (i - j - 1))
      = c (Suc j) + (\<Sum>i = Suc (Suc j)..n. c i * a ^ (i - j - 1))"
    using assms by (subst sum.atLeast_Suc_atMost) simp_all
  also have "(\<Sum>i = Suc (Suc j)..n. c i * a ^ (i - j - 1))
      = (\<Sum>i = Suc (Suc j)..n. a * (c i * a ^ (i - Suc j - 1)))"
  proof (rule sum.cong [OF refl])
    fix i assume "i \<in> {Suc (Suc j)..n}"
    then have "i - j - 1 = Suc (i - Suc j - 1)" by auto
    then show "c i * a ^ (i - j - 1) = a * (c i * a ^ (i - Suc j - 1))" by (simp add: ac_simps)
  qed
  finally show ?thesis by (simp add: sum_distrib_left)
qed

text \<open>A polynomial with fewer coefficients than roots has no coefficients: the square
  Vandermonde matrix of distinct nodes has no kernel.\<close>

lemma vandermonde_kernel:
  fixes c :: "nat \<Rightarrow> 'a::field"
  shows "finite X \<Longrightarrow> n \<le> card X \<Longrightarrow> \<forall>x \<in> X. (\<Sum>i < n. c i * x ^ i) = 0 \<Longrightarrow> i < n \<Longrightarrow> c i = 0"
proof (induction n arbitrary: c X i)
  case (Suc n)
  obtain a where a: "a \<in> X" using Suc.prems by fastforce
  have root: "(\<Sum>i \<le> n. c i * x ^ i) = 0" if "x \<in> X" for x
    using Suc.prems(3) that by (simp add: lessThan_Suc_atMost)
  define b where "b j = (\<Sum>i = Suc j..n. c i * a ^ (i - j - 1))" for j
  have "(\<Sum>j < n. b j * x ^ j) = 0" if "x \<in> X - {a}" for x
  proof (cases "n = 0")
    case False
    then have "(x - a) * (\<Sum>j < n. b j * x ^ j) = 0"
      using polyfun_diff [of n c x a] root [of x] root [OF a] that by (simp add: b_def)
    with that show ?thesis by simp
  qed simp
  then have b0: "b j = 0" if "j < n" for j
    using Suc.IH [of "X - {a}" b j] Suc.prems(1,2) a that by simp
  have bn: "b n = 0" by (simp add: b_def)
  have hi: "c (Suc j) = 0" if "j < n" for j
  proof -
    have "b j = c (Suc j) + a * b (Suc j)"
      using horner_tail [OF that, of c a] by (simp add: b_def)
    moreover have "b (Suc j) = 0" using b0 [of "Suc j"] bn that by (cases "Suc j = n") auto
    ultimately show ?thesis using b0 [OF that] by simp
  qed
  have "(\<Sum>i \<le> n. c i * a ^ i) = c 0"
    using hi by (subst sum.atMost_shift) simp
  with hi Suc.prems(4) root [OF a] show ?case by (cases i) auto
qed simp

lemma polyfn_const: "polyfn (Suc n) (\<lambda>z. c)"
  unfolding polyfn_def
  by (rule exI [of _ "\<lambda>i. if i = 0 then c else 0"]) (simp add: if_distrib [of "\<lambda>x. x * _"] sum.delta cong: if_cong)

lemma polyfn_add: "polyfn n f \<Longrightarrow> polyfn n g \<Longrightarrow> polyfn n (\<lambda>z. f z + g z)"
  unfolding polyfn_def
  by (elim exE, rule_tac x = "\<lambda>i. c i + ca i" in exI) (simp add: sum.distrib distrib_right)

lemma polyfn_0: "polyfn n (\<lambda>z. 0)"
  unfolding polyfn_def by (rule exI [of _ "\<lambda>_. 0"]) simp

lemma polyfn_scale: "polyfn n f \<Longrightarrow> polyfn n (\<lambda>z. x * f z)"
  unfolding polyfn_def
  by (elim exE, rule_tac x = "\<lambda>i. x * c i" in exI) (simp add: sum_distrib_left mult.assoc)

lemma polyfn_shift:
  assumes "polyfn n f" shows "polyfn (Suc n) (\<lambda>z. (a + z) * f z)"
proof -
  obtain c where c: "\<And>z. f z = (\<Sum>i < n. c i * z ^ i)" using assms unfolding polyfn_def by blast
  define d where "d i = (if i < n then a * c i else 0) + (if i = 0 then 0 else c (i - 1))" for i
  have "(a + z) * f z = (\<Sum>i < Suc n. d i * z ^ i)" for z
  proof -
    have "(\<Sum>i < Suc n. d i * z ^ i) = (\<Sum>i < Suc n. (if i < n then a * c i else 0) * z ^ i)
        + (\<Sum>i < Suc n. (if i = 0 then 0 else c (i - 1)) * z ^ i)"
      by (simp only: d_def distrib_right sum.distrib)
    also have "(\<Sum>i < Suc n. (if i < n then a * c i else 0) * z ^ i) = a * f z"
      by (simp add: c sum_distrib_left mult.assoc)
    also have "(\<Sum>i < Suc n. (if i = 0 then 0 else c (i - 1)) * z ^ i) = z * f z"
      unfolding sum.lessThan_Suc_shift by (simp add: c sum_distrib_left ac_simps)
    finally show ?thesis by (simp add: distrib_right)
  qed
  then show ?thesis unfolding polyfn_def by blast
qed

lemma polyfn_sum: "(\<And>i. i \<in> E \<Longrightarrow> polyfn n (f i)) \<Longrightarrow> polyfn n (\<lambda>z. \<Sum>i \<in> E. f i z)"
  by (induction E rule: infinite_finite_induct) (auto intro: polyfn_add polyfn_0)

lemma polyfn_prod: "finite E \<Longrightarrow> polyfn (Suc (card E)) (\<lambda>z. \<Prod>i \<in> E. x i + z)"
  by (induction E rule: finite_induct) (auto intro: polyfn_const polyfn_shift)

text \<open>A Cauchy matrix with at least as many rows as columns has no kernel.\<close>

lemma cauchy_kernel:
  fixes x :: "'i \<Rightarrow> 'a::field"
  assumes "finite E" and "inj_on x E" and "finite Y" and "card E \<le> card Y"
    and nz: "\<And>i y. i \<in> E \<Longrightarrow> y \<in> Y \<Longrightarrow> x i + y \<noteq> 0"
    and ker: "\<And>y. y \<in> Y \<Longrightarrow> (\<Sum>i \<in> E. inverse (x i + y) * v i) = 0"
    and e: "e \<in> E"
  shows "v e = 0"
proof -
  define q where "q z = (\<Sum>i \<in> E. v i * (\<Prod>j \<in> E - {i}. x j + z))" for z
  have "polyfn (card E) (\<lambda>z. \<Prod>j \<in> E - {i}. x j + z)" if "i \<in> E" for i
    using polyfn_prod [of "E - {i}" x, unfolded card_Suc_Diff1 [OF assms(1) that]] assms(1) by simp
  then have "polyfn (card E) q"
    unfolding q_def by (intro polyfn_sum polyfn_scale)
  moreover have "q y = 0" if "y \<in> Y" for y
  proof -
    have "v i * (\<Prod>j \<in> E - {i}. x j + y) = (\<Prod>j \<in> E. x j + y) * (inverse (x i + y) * v i)" if "i \<in> E" for i
      using that nz [OF that \<open>y \<in> Y\<close>] assms(1) by (simp add: prod.remove [of E i])
    then have "q y = (\<Prod>j \<in> E. x j + y) * (\<Sum>i \<in> E. inverse (x i + y) * v i)"
      unfolding q_def sum_distrib_left by (rule sum.cong [OF refl])
    then show ?thesis using ker [OF that] by simp
  qed
  ultimately have "q (- x e) = 0"
    using polyfn_zero [of "card E" q Y] assms(3,4) by simp
  moreover have "q (- x e) = v e * (\<Prod>j \<in> E - {e}. x j + - x e)"
  proof -
    have "v i * (\<Prod>j \<in> E - {i}. x j + - x e) = 0" if "i \<in> E - {e}" for i
      using that e assms(1) by (simp add: prod_zero_iff) blast
    then have "(\<Sum>i \<in> E - {e}. v i * (\<Prod>j \<in> E - {i}. x j + - x e)) = 0" by (rule sum.neutral [OF ballI])
    then show ?thesis using assms(1) e unfolding q_def by (subst sum.remove [of E e]) simp_all
  qed
  moreover have "(\<Prod>j \<in> E - {e}. x j + - x e) \<noteq> 0"
    using assms(1,2) e by (auto simp: prod_zero_iff inj_on_def)
  ultimately show ?thesis by simp
qed

end
