(* ===== verification/ReedSolomon.thy ===== *)
theory ReedSolomon
  imports Gf256 GfMatrix
begin

text \<open>
  Reed-Solomon erasure coding of \<^verbatim>\<open>src/codecs/rs.c\<close>: both parity matrices, the two block
  multiply-accumulate kernels, Gauss-Jordan inversion, \<open>rs_encode\<close> and \<open>rs_decode\<close>. A row-major
  array is the list of its rows; a block is the list of its bytes; \<open>malloc\<close> is the predicate
  \<open>mem\<close> that says which request sizes succeed. The main result is that any \<open>k\<close> of the
  \<open>k + m\<close> blocks of an encoded stripe rebuild the whole stripe, for both matrices and every
  admissible shape, and that a failing decode leaves the blocks as they were.
\<close>

section \<open>Shapes and Gauss-Jordan elimination\<close>

definition RS_ALGO_VM :: int where "RS_ALGO_VM = 1"

definition RS_ALGO_CAUCHY :: int where "RS_ALGO_CAUCHY = 2"

definition rs_shape_ok :: "nat \<Rightarrow> nat \<Rightarrow> bool" where
  "rs_shape_ok k m \<longleftrightarrow> \<not> (k = 0 \<or> m = 0 \<or> k > 255 \<or> m > 255 \<or> k + m > 256)"

function gj_pivot :: "u8 list list \<Rightarrow> nat \<Rightarrow> nat \<Rightarrow> nat \<Rightarrow> nat" where
  "gj_pivot aug n b p = (if p < n \<and> aug ! p ! b = 0 then gj_pivot aug n b (p + 1) else p)"
  by pat_completeness auto
termination by (relation "measure (\<lambda>(aug, n, b, p). n - p)") auto

declare gj_pivot.simps [simp del]

definition gj_swap :: "nat \<Rightarrow> nat \<Rightarrow> u8 list list \<Rightarrow> u8 list list" where
  "gj_swap p b aug = (let t = aug ! p in aug[p := aug ! b, b := t])"

definition gj_scale :: "rs_gf_state \<Rightarrow> nat \<Rightarrow> u8 list list \<Rightarrow> u8 list list" where
  "gj_scale st b aug =
     (let iv = gf_inv st (aug ! b ! b) in aug[b := map (\<lambda>x. gf_mul st x iv) (aug ! b)])"

definition gj_clear :: "rs_gf_state \<Rightarrow> nat \<Rightarrow> u8 list list \<Rightarrow> nat \<Rightarrow> u8 list list" where
  "gj_clear st b aug a =
     (let f = aug ! a ! b
      in if a = b \<or> f = 0 then aug
         else aug[a := map2 (\<lambda>x y. x XOR gf_mul st f y) (aug ! a) (aug ! b)])"

definition gj_column ::
    "(nat \<Rightarrow> bool) \<Rightarrow> rs_gf_state \<Rightarrow> nat \<Rightarrow> nat \<Rightarrow> u8 list list \<Rightarrow> u8 list list option" where
  "gj_column mem st n b aug =
     (let p = gj_pivot aug n b b
      in if p = n then None
         else if p \<noteq> b \<and> \<not> mem (2 * n) then None
         else let aug1 = (if p \<noteq> b then gj_swap p b aug else aug);
                  aug2 = gj_scale st b aug1
              in Some (foldl (gj_clear st b) aug2 [0..<n]))"

fun gj_columns ::
    "(nat \<Rightarrow> bool) \<Rightarrow> rs_gf_state \<Rightarrow> nat \<Rightarrow> nat list \<Rightarrow> u8 list list \<Rightarrow> u8 list list option" where
  "gj_columns mem st n [] aug = Some aug"
| "gj_columns mem st n (b # bs) aug =
     (case gj_column mem st n b aug of None \<Rightarrow> None | Some aug' \<Rightarrow> gj_columns mem st n bs aug')"

definition rs_augment :: "nat \<Rightarrow> u8 list list \<Rightarrow> u8 list list" where
  "rs_augment n m = map (\<lambda>a. take n (m ! a) @ (replicate n 0)[a := 1]) [0..<n]"

definition rs_gf_mat_inv ::
    "(nat \<Rightarrow> bool) \<Rightarrow> rs_gf_state \<Rightarrow> nat \<Rightarrow> u8 list list \<Rightarrow> u8 list list option" where
  "rs_gf_mat_inv mem st n m =
     (if \<not> mem (n * 2 * n) then None
      else case gj_columns mem st n [0..<n] (rs_augment n m) of
             None \<Rightarrow> None
           | Some aug \<Rightarrow> Some (map (\<lambda>a. drop n (aug ! a)) [0..<n]))"

section \<open>Parity matrices\<close>

definition rs_cauchy_matrix :: "rs_gf_state \<Rightarrow> nat \<Rightarrow> nat \<Rightarrow> u8 list list" where
  "rs_cauchy_matrix st k m =
     map (\<lambda>j. map (\<lambda>i. gf_inv st (of_nat (i XOR (k + j)))) [0..<k]) [0..<m]"

definition rs_vm_v1 :: "rs_gf_state \<Rightarrow> nat \<Rightarrow> u8 list list" where
  "rs_vm_v1 st k = map (\<lambda>a. map (\<lambda>b. gf_pow st (of_nat (a + 1)) b) [0..<k]) [0..<k]"

definition rs_vm_product :: "rs_gf_state \<Rightarrow> nat \<Rightarrow> nat \<Rightarrow> u8 list list \<Rightarrow> u8 list list" where
  "rs_vm_product st k m V1i =
     map (\<lambda>j. map (\<lambda>b. foldl (\<lambda>acc a. acc XOR gf_mul st (gf_pow st (of_nat (k + 1 + j)) a) (V1i ! a ! b))
                         0 [0..<k]) [0..<k]) [0..<m]"

definition rs_matrix ::
    "(nat \<Rightarrow> bool) \<Rightarrow> rs_gf_state \<Rightarrow> int \<Rightarrow> nat \<Rightarrow> nat \<Rightarrow> u8 list list option" where
  "rs_matrix mem st algo k m =
     (if \<not> rs_shape_ok k m then None
      else if algo = RS_ALGO_CAUCHY then Some (rs_cauchy_matrix st k m)
      else if algo = RS_ALGO_VM then
        (if \<not> mem (k * k) then None
         else case rs_gf_mat_inv mem st k (rs_vm_v1 st k) of
                None \<Rightarrow> None
              | Some V1i \<Rightarrow> Some (rs_vm_product st k m V1i))
      else None)"

section \<open>Block multiply-accumulate\<close>

text \<open>\<open>dst\<close> and \<open>src\<close> are buffers of \<open>n\<close> bytes. \<open>rs_xor_words\<close> is the loop over 64-bit words.\<close>

fun rs_xor_words :: "bytes \<Rightarrow> bytes \<Rightarrow> bytes" where
  "rs_xor_words d s =
     (if length d \<ge> 8
      then le64_bytes (le64_of_bytes (take 8 d) XOR le64_of_bytes (take 8 s))
           @ rs_xor_words (drop 8 d) (drop 8 s)
      else [])"

declare rs_xor_words.simps [simp del]

definition rs_mac_vm :: "rs_gf_state \<Rightarrow> bytes \<Rightarrow> bytes \<Rightarrow> u8 \<Rightarrow> nat \<Rightarrow> bytes" where
  "rs_mac_vm st dst src c n =
     (let T = rs_gf_mul st ! unat c
      in if c = 0 then dst
         else if c = 1 \<and> n mod 8 = 0 then rs_xor_words dst src
         else if c = 1 then map2 (\<lambda>d s. d XOR s) dst src
         else map2 (\<lambda>d s. d XOR T ! unat s) dst src)"

definition rs_mac_cauchy :: "rs_gf_state \<Rightarrow> bytes \<Rightarrow> bytes \<Rightarrow> u8 \<Rightarrow> nat \<Rightarrow> bytes" where
  "rs_mac_cauchy st dst src c n =
     (if c = 0 then dst
      else let col = map (\<lambda>t. gf_mul st c (push_bit t 1)) [0..<8]
           in map2 (\<lambda>d b. d XOR foldl (\<lambda>r t. if b AND push_bit t 1 \<noteq> 0 then r XOR col ! t else r)
                                     0 [0..<8]) dst src)"

definition rs_mac :: "rs_gf_state \<Rightarrow> int \<Rightarrow> bytes \<Rightarrow> bytes \<Rightarrow> u8 \<Rightarrow> nat \<Rightarrow> bytes" where
  "rs_mac st algo dst src c n =
     (if algo = RS_ALGO_CAUCHY then rs_mac_cauchy st dst src c n else rs_mac_vm st dst src c n)"

definition rs_algo_name :: "int \<Rightarrow> string" where
  "rs_algo_name algo =
     (if algo = RS_ALGO_VM then ''rs-vm'' else if algo = RS_ALGO_CAUCHY then ''rs-cauchy'' else ''?'')"

section \<open>Encode and decode\<close>

text \<open>A null pointer argument is \<open>None\<close>. The results are the return code, the blocks as they
  are left, and the static tables.\<close>

definition rs_combine ::
    "rs_gf_state \<Rightarrow> int \<Rightarrow> nat \<Rightarrow> nat \<Rightarrow> (nat \<Rightarrow> bytes) \<Rightarrow> (nat \<Rightarrow> u8) \<Rightarrow> bytes" where
  "rs_combine st algo bsz k src co =
     foldl (\<lambda>d i. rs_mac st algo d (src i) (co i) bsz) (replicate bsz 0) [0..<k]"

definition rs_encode ::
    "(nat \<Rightarrow> bool) \<Rightarrow> int \<Rightarrow> nat \<Rightarrow> nat \<Rightarrow> nat \<Rightarrow> bytes list option \<Rightarrow> bytes list option \<Rightarrow> rs_gf_state
     \<Rightarrow> int \<times> bytes list option \<times> rs_gf_state" where
  "rs_encode mem algo k m bsz data parity st0 =
     (let st = rs_gf_init st0
      in case (data, parity) of
           (Some d, Some par) \<Rightarrow>
             if bsz = 0 then (-1, parity, st)
             else if \<not> mem (m * k) then (-1, parity, st)
             else (case rs_matrix mem st algo k m of
                     None \<Rightarrow> (-1, parity, st)
                   | Some P \<Rightarrow>
                       (0, Some (map (\<lambda>j. rs_combine st algo bsz k (\<lambda>i. d ! i) (\<lambda>i. P ! j ! i)) [0..<m]
                                 @ drop m par), st))
         | _ \<Rightarrow> (-1, parity, st))"

definition rs_survivors :: "nat \<Rightarrow> nat \<Rightarrow> bytes \<Rightarrow> nat list" where
  "rs_survivors k m present = take k (filter (\<lambda>i. present ! i \<noteq> 0) [0..<k + m])"

definition rs_survivor_rows :: "nat \<Rightarrow> u8 list list \<Rightarrow> nat list \<Rightarrow> u8 list list" where
  "rs_survivor_rows k P surv =
     map (\<lambda>i. if i < k then (replicate k 0)[i := 1] else P ! (i - k)) surv"

definition rs_rebuild_data ::
    "rs_gf_state \<Rightarrow> int \<Rightarrow> nat \<Rightarrow> nat \<Rightarrow> bytes \<Rightarrow> nat list \<Rightarrow> u8 list list \<Rightarrow> bytes list \<Rightarrow> nat \<Rightarrow> bytes list" where
  "rs_rebuild_data st algo bsz k present surv B blks i =
     (if present ! i \<noteq> 0 then blks
      else blks[i := rs_combine st algo bsz k (\<lambda>j. blks ! (surv ! j)) (\<lambda>j. B ! i ! j)])"

definition rs_rebuild_parity ::
    "rs_gf_state \<Rightarrow> int \<Rightarrow> nat \<Rightarrow> nat \<Rightarrow> bytes \<Rightarrow> u8 list list \<Rightarrow> bytes list \<Rightarrow> nat \<Rightarrow> bytes list" where
  "rs_rebuild_parity st algo bsz k present P blks i =
     (if present ! (k + i) \<noteq> 0 then blks
      else blks[k + i := rs_combine st algo bsz k (\<lambda>j. blks ! j) (\<lambda>j. P ! i ! j)])"

definition rs_decode ::
    "(nat \<Rightarrow> bool) \<Rightarrow> int \<Rightarrow> nat \<Rightarrow> nat \<Rightarrow> nat \<Rightarrow> bytes option list option \<Rightarrow> bytes option \<Rightarrow> rs_gf_state
     \<Rightarrow> int \<times> bytes option list option \<times> rs_gf_state" where
  "rs_decode mem algo k m bsz blocks present st0 =
     (let st = rs_gf_init st0; fail = (-1, blocks, st)
      in case (blocks, present) of
           (Some blks0, Some pres) \<Rightarrow>
             if bsz = 0 then fail
             else if \<not> rs_shape_ok k m then fail
             else if \<exists>i \<in> set [0..<k + m]. blks0 ! i = None then fail
             else if length (filter (\<lambda>i. pres ! i \<noteq> 0) [0..<k + m]) < k then fail
             else if filter (\<lambda>i. pres ! i = 0) [0..<k + m] = [] then (0, blocks, st)
             else if \<not> (mem (m * k) \<and> mem (k * k) \<and> mem (k * 4)) then fail
             else (case rs_matrix mem st algo k m of
                     None \<Rightarrow> fail
                   | Some P \<Rightarrow>
                       let surv = rs_survivors k m pres
                       in case rs_gf_mat_inv mem st k (rs_survivor_rows k P surv) of
                            None \<Rightarrow> fail
                          | Some B \<Rightarrow>
                              let b1 = foldl (rs_rebuild_data st algo bsz k pres surv B) (map the blks0) [0..<k];
                                  b2 = foldl (rs_rebuild_parity st algo bsz k pres P) b1 [0..<m]
                              in (0, Some (map Some b2), st))
         | _ \<Rightarrow> fail)"

section \<open>The kernels compute field arithmetic\<close>

text \<open>\<open>gf_axpy c dst src\<close> adds \<open>c\<close> times \<open>src\<close> to \<open>dst\<close>, byte by byte.\<close>

definition gf_axpy :: "u8 \<Rightarrow> bytes \<Rightarrow> bytes \<Rightarrow> bytes" where
  "gf_axpy c dst src = map2 (\<lambda>d s. d XOR gprod c s) dst src"

lemma le32_bytes_xor:
  "le32_bytes (x XOR y) = map2 (XOR) (le32_bytes x) (le32_bytes y)"
  by (simp add: le32_bytes_def unsigned_xor_eq)

lemma le64_bytes_xor: "le64_bytes (x XOR y) = map2 (XOR) (le64_bytes x) (le64_bytes y)"
  by (simp add: le64_bytes_def unsigned_xor_eq le32_bytes_xor)

lemma rs_xor_words_eq:
  "length d = length s \<Longrightarrow> length d mod 8 = 0 \<Longrightarrow> rs_xor_words d s = map2 (XOR) d s"
proof (induction d s rule: rs_xor_words.induct)
  case (1 d s)
  show ?case
  proof (cases "length d \<ge> 8")
    case True
    then have "rs_xor_words d s = map2 (XOR) (take 8 d) (take 8 s) @ map2 (XOR) (drop 8 d) (drop 8 s)"
      using 1 by (simp add: rs_xor_words.simps [of d] le64_bytes_xor le_mod_geq)
    also have "\<dots> = map2 (XOR) (take 8 d @ drop 8 d) (take 8 s @ drop 8 s)"
      using 1(2) by (subst zip_append) simp_all
    finally show ?thesis by simp
  next
    case False
    with 1 show ?thesis by (auto simp: rs_xor_words.simps [of "[]"])
  qed
qed

lemma rs_mac_vm_eq:
  assumes "gf_tables_ok st" and "length dst = n" and "length src = n"
  shows "rs_mac_vm st dst src c n = gf_axpy c dst src"
proof -
  have 0: "gf_axpy 0 dst src = dst"
    using assms(2,3) by (intro nth_equalityI) (simp_all add: gf_axpy_def)
  show ?thesis
    using assms 0 by (auto simp: rs_mac_vm_def Let_def gf_axpy_def rs_gf_mul_gprod rs_xor_words_eq)
qed

lemma gprod_bit_left:
  assumes "t < 8" shows "gprod (push_bit t 1) c = (xt ^^ t) c"
proof -
  have "gexp u = push_bit u 1" if "u < 8" for u
  proof -
    have "list_all (\<lambda>u. gexp u = push_bit u 1) [0..<8]" by code_simp
    with that show ?thesis by (simp add: list_all_iff)
  qed
  with assms show ?thesis by (metis gprod_gexp)
qed

lemma rs_cauchy_byte:
  assumes "gf_tables_ok st"
  shows "foldl (\<lambda>r t. if b AND push_bit t 1 \<noteq> 0
                 then r XOR map (\<lambda>t. gf_mul st c (push_bit t 1)) [0..<8] ! t else r) 0 [0..<8] = gprod c b"
proof -
  have "(if b AND push_bit t 1 \<noteq> 0 then r XOR map (\<lambda>t. gf_mul st c (push_bit t 1)) [0..<8] ! t else r)
      = r XOR gterm b t c" if "t < 8" for r t
    using that assms and_exp_eq_0_iff_not_bit [of b t] gprod_bit_left [OF that, of c]
    by (simp add: gterm_def gf_mul_gprod gprod_comm [of c] push_bit_eq_mult del: upt_rec_numeral)
  then have "foldl (\<lambda>r t. if b AND push_bit t 1 \<noteq> 0
        then r XOR map (\<lambda>t. gf_mul st c (push_bit t 1)) [0..<8] ! t else r) 0 [0..<8]
      = foldl (\<lambda>r t. r XOR gterm b t c) 0 [0..<8]"
    by (intro foldl_cong) auto
  also have "\<dots> = gprod b c"
    by (simp add: gprod_def numeral_eq_Suc xor.assoc)
  finally show ?thesis by (simp only: gprod_comm)
qed

lemma rs_mac_cauchy_eq:
  assumes "gf_tables_ok st" and "length dst = n" and "length src = n"
  shows "rs_mac_cauchy st dst src c n = gf_axpy c dst src"
proof -
  have 0: "gf_axpy 0 dst src = dst"
    using assms(2,3) by (intro nth_equalityI) (simp_all add: gf_axpy_def)
  then show ?thesis
    unfolding rs_mac_cauchy_def Let_def rs_cauchy_byte [OF assms(1)] by (simp add: gf_axpy_def)
qed

lemma rs_mac_axpy:
  assumes "gf_tables_ok st" and "length dst = n" and "length src = n"
  shows "rs_mac st algo dst src c n = gf_axpy c dst src"
  using rs_mac_vm_eq [OF assms] rs_mac_cauchy_eq [OF assms] by (simp add: rs_mac_def)

text \<open>C4. The product-table kernel of rs-vm, with its 64-bit exclusive-or shortcut, and the bit
  matrix kernel of rs-cauchy both add \<open>c\<close> times the source block to the destination block.\<close>

theorem rs_mac_correct:
  assumes "rs_gf_ok st0" and "length dst = n" and "length src = n"
  shows "rs_mac (rs_gf_init st0) algo dst src c n = map2 (\<lambda>d s. d XOR gprod c s) dst src"
  using rs_mac_axpy [OF _ assms(2,3)] rs_gf_init_ok [OF assms(1)] by (simp add: gf_axpy_def)

theorem rs_mac_correct_witness:
  "rs_mac (rs_gf_init rs_gf_state0) RS_ALGO_CAUCHY [1, 2] [3, 4] 5 2
   = map2 (\<lambda>d s. d XOR gprod 5 s) [1, 2] [3, 4]"
  by (rule rs_mac_correct [OF rs_gf_ok_state0]) simp_all

lemma length_rs_mac:
  "gf_tables_ok st \<Longrightarrow> length dst = n \<Longrightarrow> length src = n \<Longrightarrow> length (rs_mac st algo dst src c n) = n"
  by (simp add: rs_mac_axpy gf_axpy_def)

lemma rs_combine_sum:
  assumes st: "gf_tables_ok st" and len: "\<And>i. i < k \<Longrightarrow> length (src i) = bsz"
  shows "length (rs_combine st algo bsz k src co) = bsz
    \<and> (\<forall>t < bsz. GF (rs_combine st algo bsz k src co ! t) = (\<Sum>i < k. GF (co i) * GF (src i ! t)))"
  using len
proof (induction k)
  case 0
  show ?case by (simp add: rs_combine_def)
next
  case (Suc k)
  define d where "d = rs_combine st algo bsz k src co"
  have ih: "length d = bsz" "\<And>t. t < bsz \<Longrightarrow> GF (d ! t) = (\<Sum>i < k. GF (co i) * GF (src i ! t))"
    using Suc unfolding d_def by auto
  have "rs_combine st algo bsz (Suc k) src co = gf_axpy (co k) d (src k)"
    using ih(1) Suc.prems by (simp add: rs_combine_def d_def rs_mac_axpy [OF st])
  then show ?case
    using ih Suc.prems by (simp add: gf_axpy_def GF_xor GF_gprod)
qed

section \<open>Elimination on byte rows\<close>

definition dims :: "nat \<Rightarrow> nat \<Rightarrow> 'a list list \<Rightarrow> bool" where
  "dims n w A \<longleftrightarrow> length A = n \<and> (\<forall>a < n. length (A ! a) = w)"

definition gfm :: "u8 list list \<Rightarrow> nat \<Rightarrow> nat \<Rightarrow> gf256" where
  "gfm A a c = GF (A ! a ! c)"

lemma gj_pivot_spec:
  "p \<le> n \<Longrightarrow> p \<le> gj_pivot aug n b p \<and> gj_pivot aug n b p \<le> n
    \<and> (\<forall>q. p \<le> q \<longrightarrow> q < gj_pivot aug n b p \<longrightarrow> aug ! q ! b = 0)
    \<and> (gj_pivot aug n b p < n \<longrightarrow> aug ! gj_pivot aug n b p ! b \<noteq> 0)"
proof (induction aug n b p rule: gj_pivot.induct)
  case (1 aug n b p)
  show ?case
  proof (cases "p < n \<and> aug ! p ! b = 0")
    case True
    with 1 have ih: "p + 1 \<le> gj_pivot aug n b (p + 1) \<and> gj_pivot aug n b (p + 1) \<le> n
      \<and> (\<forall>q. p + 1 \<le> q \<longrightarrow> q < gj_pivot aug n b (p + 1) \<longrightarrow> aug ! q ! b = 0)
      \<and> (gj_pivot aug n b (p + 1) < n \<longrightarrow> aug ! gj_pivot aug n b (p + 1) ! b \<noteq> 0)" by simp
    have "gj_pivot aug n b p = gj_pivot aug n b (p + 1)" using True by (simp add: gj_pivot.simps [of _ _ _ p])
    with ih True show ?thesis by (auto simp: Suc_le_eq) (metis le_neq_implies_less)+
  next
    case False
    with 1(2) show ?thesis by (auto simp: gj_pivot.simps [of _ _ _ p])
  qed
qed

lemma gj_clear_step:
  assumes "gf_tables_ok st" and "dims n w A" and "b < n" and "a < n"
  shows "dims n w (gj_clear st b A a) \<and> (\<forall>x < n. \<forall>c < w. gj_clear st b A a ! x ! c =
    A ! x ! c XOR (if x = a \<and> a \<noteq> b then gprod (A ! a ! b) (A ! b ! c) else 0))"
  using assms by (auto simp: gj_clear_def Let_def dims_def nth_list_update gf_mul_gprod)

lemma gj_clear_loop:
  assumes "gf_tables_ok st" and "dims n w A" and "b < n" and "i \<le> n" and "b < w"
  shows "dims n w (foldl (gj_clear st b) A [0..<i]) \<and>
    (\<forall>x < n. \<forall>c < w. foldl (gj_clear st b) A [0..<i] ! x ! c =
      A ! x ! c XOR (if x < i \<and> x \<noteq> b then gprod (A ! x ! b) (A ! b ! c) else 0))"
  using assms(4)
proof (induction i)
  case 0
  show ?case using assms(2) by simp
next
  case (Suc i)
  define A' where "A' = foldl (gj_clear st b) A [0..<i]"
  have ih: "dims n w A'" "\<And>x c. x < n \<Longrightarrow> c < w \<Longrightarrow> A' ! x ! c =
      A ! x ! c XOR (if x < i \<and> x \<noteq> b then gprod (A ! x ! b) (A ! b ! c) else 0)"
    using Suc unfolding A'_def by auto
  have eq: "foldl (gj_clear st b) A [0..<Suc i] = gj_clear st b A' i" by (simp add: A'_def)
  show ?case
    using gj_clear_step [OF assms(1) ih(1) assms(3), of i] Suc.prems assms(3,5)
    unfolding eq by (auto simp: ih(2))
qed

lemma gj_column_Some:
  assumes st: "gf_tables_ok st" and d: "dims n (2 * n) aug" and b: "b < n"
    and inv: "gj_inv n b M (gfm aug)" and some: "gj_column mem st n b aug = Some aug'"
  shows "dims n (2 * n) aug' \<and> gj_inv n (Suc b) M (gfm aug')"
proof -
  define p where "p = gj_pivot aug n b b"
  have p: "b \<le> p" "p < n" "aug ! p ! b \<noteq> 0"
    using gj_pivot_spec [of b n aug b] some b by (auto simp: gj_column_def p_def Let_def split: if_splits)
  define A1 where "A1 = gj_swap p b aug"
  have A1': "(if p \<noteq> b then gj_swap p b aug else aug) = A1"
    by (simp add: A1_def gj_swap_def)
  have aug': "aug' = foldl (gj_clear st b) (gj_scale st b A1) [0..<n]"
    using some p unfolding gj_column_def Let_def p_def [symmetric] A1' by (simp split: if_splits)
  have d1: "dims n (2 * n) A1" "\<And>a c. a < n \<Longrightarrow>
      A1 ! a ! c = (if a = p then aug ! b ! c else if a = b then aug ! p ! c else aug ! a ! c)"
    using d b p by (auto simp: A1_def gj_swap_def dims_def nth_list_update)
  have nz: "A1 ! b ! b \<noteq> 0" using d1(2) [of b b] b p by auto
  have d2: "dims n (2 * n) (gj_scale st b A1)" "\<And>a c. a < n \<Longrightarrow> c < 2 * n \<Longrightarrow> gj_scale st b A1 ! a ! c =
      (if a = b then gprod (A1 ! b ! c) (gf_inv st (A1 ! b ! b)) else A1 ! a ! c)"
    using d1(1) b by (auto simp: gj_scale_def Let_def dims_def nth_list_update gf_mul_gprod [OF st])
  have d3: "dims n (2 * n) aug'" "\<And>a c. a < n \<Longrightarrow> c < 2 * n \<Longrightarrow> aug' ! a ! c = gj_scale st b A1 ! a ! c XOR
      (if a \<noteq> b then gprod (gj_scale st b A1 ! a ! b) (gj_scale st b A1 ! b ! c) else 0)"
    using gj_clear_loop [OF st d2(1) b, of n] b unfolding aug' by auto
  have "gj_inv n (Suc b) M (gfm aug')"
  proof (rule gj_inv_step [OF inv p(1,2), of "gfm A1" "gfm (gj_scale st b A1)"])
    show "gfm aug p b \<noteq> 0" using p(3) by (simp add: gfm_def)
    show "gfm A1 a c = (if a = p then gfm aug b c else if a = b then gfm aug p c else gfm aug a c)"
      if "a < n" for a c
      using that by (simp add: gfm_def d1(2))
    show "gfm (gj_scale st b A1) a c = (if a = b then inverse (gfm A1 b b) * gfm A1 b c else gfm A1 a c)"
      if "a < n" "c < 2 * n" for a c
      using that by (simp add: gfm_def d2(2) GF_gprod GF_gf_inv [OF st nz])
    show "gfm aug' a c = gfm (gj_scale st b A1) a c
        + (if a = b then 0 else - gfm (gj_scale st b A1) a b) * gfm (gj_scale st b A1) b c"
      if "a < n" "c < 2 * n" for a c
      using that by (simp add: gfm_def d3(2) GF_gprod GF_xor)
  qed
  with d3(1) show ?thesis by simp
qed

lemma gj_column_None:
  assumes "gj_inv n b M (gfm aug)" and "b < n" and "gj_column mem st n b aug = None" and "\<And>x. mem x"
  shows "\<exists>v. v b \<noteq> 0 \<and> (\<forall>a < n. (\<Sum>c < n. M a c * v c) = 0)"
proof (rule gj_no_pivot [OF assms(1,2)])
  have "gj_pivot aug n b b = n"
    using assms(3,4) by (simp add: gj_column_def Let_def split: if_splits)
  then show "gfm aug p b = 0" if "b \<le> p" "p < n" for p
    using gj_pivot_spec [of b n aug b] assms(2) that by (simp add: gfm_def)
qed

lemma gj_columns_inv:
  assumes st: "gf_tables_ok st"
  shows "dims n (2 * n) aug \<Longrightarrow> gj_inv n b M (gfm aug) \<Longrightarrow> b \<le> n \<Longrightarrow>
    gj_columns mem st n [b..<n] aug = Some aug' \<Longrightarrow> dims n (2 * n) aug' \<and> gj_inv n n M (gfm aug')"
proof (induction "n - b" arbitrary: b aug)
  case (Suc k)
  then have b: "b < n" and up: "[b..<n] = b # [Suc b..<n]" by (auto simp: upt_rec)
  then obtain aug1 where a1: "gj_column mem st n b aug = Some aug1"
    and rest: "gj_columns mem st n [Suc b..<n] aug1 = Some aug'"
    using Suc.prems(4) by (auto split: option.splits)
  show ?case
    using Suc.hyps(2) b gj_column_Some [OF st Suc.prems(1) b Suc.prems(2) a1]
    by (intro Suc.hyps(1) [OF _ _ _ _ rest]) auto
qed auto

lemma gj_columns_total:
  assumes st: "gf_tables_ok st" and mem: "\<And>x. mem x" and ker: "no_kernel n M"
  shows "dims n (2 * n) aug \<Longrightarrow> gj_inv n b M (gfm aug) \<Longrightarrow> b \<le> n \<Longrightarrow>
    \<exists>aug'. gj_columns mem st n [b..<n] aug = Some aug'"
proof (induction "n - b" arbitrary: b aug)
  case (Suc k)
  then have b: "b < n" and up: "[b..<n] = b # [Suc b..<n]" by (auto simp: upt_rec)
  obtain aug1 where a1: "gj_column mem st n b aug = Some aug1"
    using gj_column_None [OF Suc.prems(2) b _ mem] ker b unfolding no_kernel_def by fastforce
  then show ?case
    using Suc.hyps(1) [of "Suc b" aug1] Suc.hyps(2) b up gj_column_Some [OF st Suc.prems(1) b Suc.prems(2) a1]
    by auto
qed auto

lemma rs_augment_inv:
  assumes "dims n n m"
  shows "dims n (2 * n) (rs_augment n m) \<and> gj_inv n 0 (gfm m) (gfm (rs_augment n m))"
proof
  show "dims n (2 * n) (rs_augment n m)"
    using assms by (auto simp: dims_def rs_augment_def)
  have "gfm (rs_augment n m) a c = augmented n (gfm m) a c" if "a < n" "c < 2 * n" for a c
    using assms that by (auto simp: gfm_def augmented_def delta_def rs_augment_def dims_def nth_append nth_list_update)
  then show "gj_inv n 0 (gfm m) (gfm (rs_augment n m))"
    by (intro gj_inv_cong [OF gj_inv_init]) auto
qed

lemma rs_gf_mat_inv_Some:
  assumes st: "gf_tables_ok st" and m: "dims n n m" and some: "rs_gf_mat_inv mem st n m = Some R"
  shows "dims n n R"
    and "\<And>a c. a < n \<Longrightarrow> c < n \<Longrightarrow> (\<Sum>t < n. gfm R a t * gfm m t c) = delta a c"
    and "\<And>a c. a < n \<Longrightarrow> c < n \<Longrightarrow> (\<Sum>t < n. gfm m a t * gfm R t c) = delta a c"
proof -
  obtain aug where aug: "gj_columns mem st n [0..<n] (rs_augment n m) = Some aug"
    and R: "R = map (\<lambda>a. drop n (aug ! a)) [0..<n]"
    using some by (auto simp: rs_gf_mat_inv_def split: if_splits option.splits)
  have inv: "dims n (2 * n) aug" "gj_inv n n (gfm m) (gfm aug)"
    using gj_columns_inv [OF st _ _ _ aug] rs_augment_inv [OF m] by auto
  have Rn: "gfm R a t = gfm aug a (n + t)" if "a < n" "t < n" for a t
    using that inv(1) by (simp add: gfm_def R dims_def)
  show "dims n n R" using inv(1) by (auto simp: R dims_def)
  show "(\<Sum>t < n. gfm R a t * gfm m t c) = delta a c" if "a < n" "c < n" for a c
    using gj_inv_left [OF inv(2) that] Rn that by simp
  show "(\<Sum>t < n. gfm m a t * gfm R t c) = delta a c" if "a < n" "c < n" for a c
    using gj_inv_right [OF inv(2) that] Rn that by simp
qed

lemma rs_gf_mat_inv_total:
  assumes "gf_tables_ok st" and "\<And>x. mem x" and "dims n n m" and "no_kernel n (gfm m)"
  shows "\<exists>R. rs_gf_mat_inv mem st n m = Some R"
  using gj_columns_total [where mem = mem and b = 0, OF assms(1,2,4)] rs_augment_inv [OF assms(3)] assms(2)
  by (fastforce simp: rs_gf_mat_inv_def)

text \<open>C3. Gauss-Jordan inversion is correct and complete: what \<open>rs_gf_mat_inv\<close> returns is a
  two-sided inverse, and with memory available it returns one for every matrix that has a
  left inverse.\<close>

theorem rs_gf_mat_inv_correct:
  assumes "rs_gf_ok st0" and "dims n n M"
  defines "st \<equiv> rs_gf_init st0"
  shows "(\<forall>R. rs_gf_mat_inv mem st n M = Some R \<longrightarrow> dims n n R \<and>
      (\<forall>a < n. \<forall>c < n. (\<Sum>t < n. gfm R a t * gfm M t c) = delta a c
                     \<and> (\<Sum>t < n. gfm M a t * gfm R t c) = delta a c))
    \<and> ((\<forall>x. mem x) \<and> (\<exists>L. \<forall>a < n. \<forall>c < n. (\<Sum>t < n. L a t * gfm M t c) = delta a c)
        \<longrightarrow> (\<exists>R. rs_gf_mat_inv mem st n M = Some R))"
proof (intro conjI impI allI)
  have st: "gf_tables_ok st" using rs_gf_init_ok [OF assms(1)] by (simp add: st_def)
  note inv = rs_gf_mat_inv_Some [OF st assms(2)]
  show "dims n n R" if "rs_gf_mat_inv mem st n M = Some R" for R using inv(1) [OF that] .
  show "(\<Sum>t < n. gfm R a t * gfm M t c) = delta a c" "(\<Sum>t < n. gfm M a t * gfm R t c) = delta a c"
    if "rs_gf_mat_inv mem st n M = Some R" "a < n" "c < n" for R a c
    using inv(2,3) [OF that(1)] that(2,3) by blast+
  assume "(\<forall>x. mem x) \<and> (\<exists>L. \<forall>a < n. \<forall>c < n. (\<Sum>t < n. L a t * gfm M t c) = delta a c)"
  then show "\<exists>R. rs_gf_mat_inv mem st n M = Some R"
    by (intro rs_gf_mat_inv_total [OF st _ assms(2)]) (auto intro: left_inverse_no_kernel)
qed

theorem rs_gf_mat_inv_correct_witness:
  "\<exists>R. rs_gf_mat_inv (\<lambda>_. True) (rs_gf_init rs_gf_state0) 1 [[3]] = Some R \<and> gfm R 0 0 * GF 3 = 1"
proof -
  have d: "dims 1 1 [[3 :: u8]]" by (simp add: dims_def)
  have "\<exists>L. \<forall>a < 1. \<forall>c < (1 :: nat). (\<Sum>t < (1 :: nat). L a t * gfm [[3]] t c) = delta a c"
    by (rule exI [of _ "\<lambda>_ _. inverse (GF 3)"]) (simp add: gfm_def delta_def)
  then obtain R where "rs_gf_mat_inv (\<lambda>_. True) (rs_gf_init rs_gf_state0) 1 [[3]] = Some R"
    using rs_gf_mat_inv_correct [OF rs_gf_ok_state0 d, of "\<lambda>_. True"] by blast
  moreover from this have "(\<Sum>t < (1 :: nat). gfm R 0 t * gfm [[3]] t 0) = delta 0 0"
    using rs_gf_mat_inv_correct [OF rs_gf_ok_state0 d, of "\<lambda>_. True"] by blast
  ultimately show ?thesis by (simp add: gfm_def delta_def)
qed

section \<open>The contract of a parity matrix\<close>

text \<open>\<open>sys_row k P i\<close> is row \<open>i\<close> of the systematic matrix \<open>[I; P]\<close>.\<close>

definition sys_row :: "nat \<Rightarrow> u8 list list \<Rightarrow> nat \<Rightarrow> nat \<Rightarrow> gf256" where
  "sys_row k P i c = (if i < k then delta i c else gfm P (i - k) c)"

text \<open>What the decoder needs of a matrix construction: the shape, that it succeeds when
  memory does, and that no data vector but zero vanishes on \<open>k\<close> slots.\<close>

locale mds_code =
  fixes matrix :: "(nat \<Rightarrow> bool) \<Rightarrow> rs_gf_state \<Rightarrow> nat \<Rightarrow> nat \<Rightarrow> u8 list list option"
  assumes matrix_dims: "gf_tables_ok st \<Longrightarrow> matrix mem st k m = Some P \<Longrightarrow> dims m k P"
    and matrix_total: "gf_tables_ok st \<Longrightarrow> rs_shape_ok k m \<Longrightarrow> \<forall>x. mem x \<Longrightarrow> \<exists>P. matrix mem st k m = Some P"
    and matrix_mds: "gf_tables_ok st \<Longrightarrow> matrix mem st k m = Some P \<Longrightarrow> S \<subseteq> {..<k + m} \<Longrightarrow> card S = k \<Longrightarrow>
      \<forall>i \<in> S. (\<Sum>c < k. sys_row k P i c * v c) = 0 \<Longrightarrow> c < k \<Longrightarrow> v c = 0"
begin

lemma survivor_rows:
  assumes "gf_tables_ok st" and "matrix mem st k m = Some P"
    and "set surv \<subseteq> {..<k + m}" and "length surv = k"
  shows "dims k k (rs_survivor_rows k P surv)"
    and "\<And>a c. a < k \<Longrightarrow> c < k \<Longrightarrow> gfm (rs_survivor_rows k P surv) a c = sys_row k P (surv ! a) c"
proof -
  have P: "dims m k P" using assms(1,2) by (rule matrix_dims)
  have surv: "surv ! a < k + m" if "a < k" for a
    using subsetD [OF assms(3) nth_mem, of a] assms(4) that by simp
  then have "surv ! a - k < m" if "a < k" "\<not> surv ! a < k" for a
    using that by fastforce
  then show "dims k k (rs_survivor_rows k P surv)"
    using P assms(4) by (auto simp: dims_def rs_survivor_rows_def)
  show "gfm (rs_survivor_rows k P surv) a c = sys_row k P (surv ! a) c" if "a < k" "c < k" for a c
    using assms(4) that by (auto simp: gfm_def rs_survivor_rows_def sys_row_def delta_def nth_list_update)
qed

lemma survivors_no_kernel:
  assumes "gf_tables_ok st" and "matrix mem st k m = Some P"
    and surv: "set surv \<subseteq> {..<k + m}" "length surv = k" "distinct surv"
  shows "no_kernel k (gfm (rs_survivor_rows k P surv))"
  unfolding no_kernel_def
proof (intro allI impI)
  fix v c
  assume ker: "\<forall>a < k. (\<Sum>c < k. gfm (rs_survivor_rows k P surv) a c * v c) = 0" and "c < k"
  have "(\<Sum>c < k. sys_row k P i c * v c) = 0" if i: "i \<in> set surv" for i
  proof -
    obtain a where "a < k" "i = surv ! a" using i surv(2) by (metis in_set_conv_nth)
    then show ?thesis using ker survivor_rows(2) [OF assms(1,2) surv(1,2)] by simp
  qed
  then show "v c = 0"
    using surv \<open>c < k\<close> by (intro matrix_mds [OF assms(1,2), of "set surv"]) (auto simp: distinct_card)
qed

lemma survivors_invertible:
  assumes "gf_tables_ok st" and "matrix mem st k m = Some P" and "\<forall>x. mem' x"
    and "set surv \<subseteq> {..<k + m}" "length surv = k" "distinct surv"
  shows "\<exists>B. rs_gf_mat_inv mem' st k (rs_survivor_rows k P surv) = Some B"
  using assms by (intro rs_gf_mat_inv_total survivor_rows survivors_no_kernel) auto

text \<open>Row \<open>i\<close> of the inverse applied to the survivors gives data symbol \<open>i\<close>.\<close>

lemma survivors_recover:
  assumes "gf_tables_ok st" and "matrix mem st k m = Some P"
    and surv: "set surv \<subseteq> {..<k + m}" "length surv = k"
    and B: "rs_gf_mat_inv mem' st k (rs_survivor_rows k P surv) = Some B" and i: "i < k"
  shows "(\<Sum>j < k. gfm B i j * (\<Sum>c < k. sys_row k P (surv ! j) c * v c)) = v i"
proof -
  note rows = survivor_rows [OF assms(1,2) surv]
  have "(\<Sum>j < k. gfm B i j * (\<Sum>c < k. sys_row k P (surv ! j) c * v c))
      = (\<Sum>j < k. \<Sum>c < k. gfm B i j * gfm (rs_survivor_rows k P surv) j c * v c)"
    by (simp add: rows(2) sum_distrib_left mult.assoc)
  also have "\<dots> = (\<Sum>c < k. (\<Sum>j < k. gfm B i j * gfm (rs_survivor_rows k P surv) j c) * v c)"
    by (subst sum.swap) (simp add: sum_distrib_right)
  also have "\<dots> = (\<Sum>c < k. delta i c * v c)"
    using rs_gf_mat_inv_Some(2) [OF assms(1) rows(1) B i] by simp
  finally show ?thesis using i by simp
qed

end

lemma of_nat_u8_inj: "i < 256 \<Longrightarrow> j < 256 \<Longrightarrow> (of_nat i :: u8) = of_nat j \<longleftrightarrow> i = j"
  by (metis unat_of_nat_u8)

section \<open>Both matrices meet the contract\<close>

text \<open>The evaluation node of slot \<open>i\<close>; the 256th wraps to the zero byte.\<close>

definition vm_node :: "nat \<Rightarrow> gf256" where
  "vm_node i = GF (of_nat (i + 1))"

lemma vm_node_inj: "i < 256 \<Longrightarrow> j < 256 \<Longrightarrow> vm_node i = vm_node j \<Longrightarrow> i = j"
  using of_nat_u8_inj [of i j] by (simp add: vm_node_def)

lemma rs_vm_v1_entries:
  assumes "gf_tables_ok st"
  shows "dims k k (rs_vm_v1 st k)" and "a < k \<Longrightarrow> b < k \<Longrightarrow> gfm (rs_vm_v1 st k) a b = vm_node a ^ b"
  using assms by (simp_all add: dims_def gfm_def rs_vm_v1_def vm_node_def gf_field_ops)

lemma foldl_xor_GF:
  "GF (foldl (\<lambda>acc a. acc XOR f a) 0 [0..<k]) = (\<Sum>a < k. GF (f a))"
  by (induction k) (simp_all add: GF_xor)

lemma rs_vm_product_entries:
  assumes "gf_tables_ok st"
  shows "dims m k (rs_vm_product st k m V)"
    and "j < m \<Longrightarrow> b < k \<Longrightarrow> gfm (rs_vm_product st k m V) j b = (\<Sum>a < k. vm_node (k + j) ^ a * gfm V a b)"
  using assms by (simp_all add: dims_def gfm_def rs_vm_product_def vm_node_def foldl_xor_GF gf_field_ops ac_simps)

lemma rs_vm_v1_no_kernel:
  assumes st: "gf_tables_ok st" and k: "k \<le> 256"
  shows "no_kernel k (gfm (rs_vm_v1 st k))"
  unfolding no_kernel_def
proof (intro allI impI)
  fix v c
  assume ker: "\<forall>a < k. (\<Sum>c < k. gfm (rs_vm_v1 st k) a c * v c) = 0" and c: "c < k"
  show "v c = 0"
  proof (rule vandermonde_kernel [OF _ _ _ c, of "vm_node ` {..<k}"])
    show "k \<le> card (vm_node ` {..<k})"
      using k by (subst card_image) (auto intro!: inj_onI vm_node_inj)
    show "\<forall>x \<in> vm_node ` {..<k}. (\<Sum>i < k. v i * x ^ i) = 0"
      using ker by (auto simp: rs_vm_v1_entries [OF st] mult.commute)
  qed simp
qed

text \<open>Slot \<open>i\<close> of an rs-vm stripe is the value at its node of the polynomial whose coefficients
  the inverse Vandermonde matrix computes from the data.\<close>

lemma vm_slot_value:
  assumes st: "gf_tables_ok st" and inv: "rs_gf_mat_inv mem st k (rs_vm_v1 st k) = Some V"
    and i: "i < k + m"
  shows "(\<Sum>c < k. sys_row k (rs_vm_product st k m V) i c * v c)
    = (\<Sum>a < k. (\<Sum>c < k. gfm V a c * v c) * vm_node i ^ a)"
proof -
  note V1 = rs_vm_v1_entries [OF st]
  have row: "sys_row k (rs_vm_product st k m V) i c = (\<Sum>a < k. vm_node i ^ a * gfm V a c)" if "c < k" for c
  proof (cases "i < k")
    case True
    then show ?thesis
      using rs_gf_mat_inv_Some(3) [OF st V1(1) inv True that] V1(2) True by (simp add: sys_row_def)
  next
    case False
    then show ?thesis
      using rs_vm_product_entries(2) [OF st, of "i - k" m c k V] i that by (simp add: sys_row_def)
  qed
  have "(\<Sum>c < k. sys_row k (rs_vm_product st k m V) i c * v c)
      = (\<Sum>c < k. \<Sum>a < k. gfm V a c * v c * vm_node i ^ a)"
    by (simp add: row sum_distrib_left sum_distrib_right ac_simps)
  also have "\<dots> = (\<Sum>a < k. (\<Sum>c < k. gfm V a c * v c) * vm_node i ^ a)"
    by (subst sum.swap) (simp add: sum_distrib_right)
  finally show ?thesis .
qed

interpretation vm: mds_code "\<lambda>mem st k m. rs_matrix mem st RS_ALGO_VM k m"
proof
  fix st mem k m P
  assume st: "gf_tables_ok st"
  show "dims m k P" if "rs_matrix mem st RS_ALGO_VM k m = Some P"
    using that rs_vm_product_entries(1) [OF st]
    by (auto simp: rs_matrix_def RS_ALGO_VM_def RS_ALGO_CAUCHY_def split: if_splits option.splits)
  show "\<exists>P. rs_matrix mem st RS_ALGO_VM k m = Some P" if "rs_shape_ok k m" "\<forall>x. mem x"
    using rs_gf_mat_inv_total [where mem = mem, OF st _ rs_vm_v1_entries(1) [OF st] rs_vm_v1_no_kernel [OF st, of k]] that
    by (auto simp: rs_matrix_def RS_ALGO_VM_def RS_ALGO_CAUCHY_def rs_shape_ok_def)
  show "v c = 0" if P: "rs_matrix mem st RS_ALGO_VM k m = Some P" and S: "S \<subseteq> {..<k + m}" "card S = k"
    and ker: "\<forall>i \<in> S. (\<Sum>c < k. sys_row k P i c * v c) = 0" and c: "c < k" for S v c
  proof -
    obtain V where V: "rs_gf_mat_inv mem st k (rs_vm_v1 st k) = Some V" "P = rs_vm_product st k m V"
      and shape: "rs_shape_ok k m"
      using P by (auto simp: rs_matrix_def RS_ALGO_VM_def RS_ALGO_CAUCHY_def split: if_splits option.splits)
    define f where "f z = (\<Sum>a < k. (\<Sum>c < k. gfm V a c * v c) * z ^ a)" for z
    have slot: "(\<Sum>c < k. sys_row k P i c * v c) = f (vm_node i)" if "i < k + m" for i
      using vm_slot_value [OF st V(1) that, of v] by (simp add: V(2) f_def)
    have "f (vm_node c) = 0"
    proof (rule polyfn_zero [where n = k and f = f])
      show "polyfn k f"
        unfolding polyfn_def f_def by (rule exI [of _ "\<lambda>a. \<Sum>c < k. gfm V a c * v c"]) simp
      show "finite (vm_node ` S)" using S(1) finite_subset by blast
      show "k \<le> card (vm_node ` S)"
        using S shape by (subst card_image) (auto intro!: inj_onI vm_node_inj simp: rs_shape_ok_def)
      show "\<forall>x \<in> vm_node ` S. f x = 0" using ker S(1) slot by fastforce
    qed
    moreover have "(\<Sum>d < k. sys_row k P c d * v d) = v c" using c by (simp add: sys_row_def)
    ultimately show ?thesis using slot [of c] c by simp
  qed
qed

lemma rs_cauchy_entries:
  assumes st: "gf_tables_ok st" and shape: "rs_shape_ok k m"
  shows "dims m k (rs_cauchy_matrix st k m)"
    and "j < m \<Longrightarrow> i < k \<Longrightarrow>
      gfm (rs_cauchy_matrix st k m) j i = inverse (GF (of_nat i) + GF (of_nat (k + j)))"
proof -
  show "dims m k (rs_cauchy_matrix st k m)" by (simp add: dims_def rs_cauchy_matrix_def)
  assume "j < m" "i < k"
  moreover from this have "(of_nat i :: u8) \<noteq> of_nat (k + j)"
    using shape of_nat_u8_inj [of i "k + j"] by (auto simp: rs_shape_ok_def)
  then have "(of_nat (i XOR (k + j)) :: u8) \<noteq> 0"
    by (simp add: of_nat_xor_eq xor_eq_0_iff)
  ultimately show "gfm (rs_cauchy_matrix st k m) j i = inverse (GF (of_nat i) + GF (of_nat (k + j)))"
    by (simp add: gfm_def rs_cauchy_matrix_def GF_gf_inv [OF st] of_nat_xor_eq GF_xor)
qed

interpretation cauchy: mds_code "\<lambda>mem st k m. rs_matrix mem st RS_ALGO_CAUCHY k m"
proof
  fix st mem k m P
  assume st: "gf_tables_ok st"
  have mat: "rs_matrix mem st RS_ALGO_CAUCHY k m = Some P \<longleftrightarrow> rs_shape_ok k m \<and> P = rs_cauchy_matrix st k m" for P
    by (auto simp: rs_matrix_def)
  show "dims m k P" if "rs_matrix mem st RS_ALGO_CAUCHY k m = Some P"
    using that rs_cauchy_entries(1) [OF st] by (simp add: mat)
  show "\<exists>P. rs_matrix mem st RS_ALGO_CAUCHY k m = Some P" if "rs_shape_ok k m" "\<forall>x. mem x"
    using that by (simp add: rs_matrix_def)
  show "v c = 0" if P: "rs_matrix mem st RS_ALGO_CAUCHY k m = Some P" and S: "S \<subseteq> {..<k + m}" "card S = k"
    and ker: "\<forall>i \<in> S. (\<Sum>c < k. sys_row k P i c * v c) = 0" and c: "c < k" for S v c
  proof (cases "c \<in> S")
    case True
    with ker c show ?thesis by (auto simp: sys_row_def)
  next
    case False
    have shape: "rs_shape_ok k m" and P: "P = rs_cauchy_matrix st k m" using P by (simp_all add: mat)
    define x where "x i = GF (of_nat i)" for i
    have inj: "x i = x j \<longleftrightarrow> i = j" if "i < k + m" "j < k + m" for i j
      using that shape of_nat_u8_inj [of i j] by (simp add: x_def rs_shape_ok_def)
    have fin: "finite S" using S(1) finite_subset by blast
    define E Y where "E = {..<k} - S" and "Y = x ` (S - {..<k})"
    have "card Y = card (S - {..<k})"
      unfolding Y_def using S(1) inj by (intro card_image inj_onI) auto
    also have "\<dots> = card S - card (S \<inter> {..<k})" using fin by (simp add: card_Diff_subset_Int)
    also have "\<dots> = card E"
      unfolding E_def S(2) by (simp add: card_Diff_subset_Int Int_commute)
    finally have card: "card E \<le> card Y" by simp
    show ?thesis
    proof (rule cauchy_kernel [of E x Y v])
      show "finite E" "finite Y" "card E \<le> card Y" using fin card by (simp_all add: E_def Y_def)
      show "inj_on x E" using inj by (auto simp: E_def inj_on_def)
      show "x i + y \<noteq> 0" if "i \<in> E" "y \<in> Y" for i y
        using that S(1) inj by (auto simp: E_def Y_def eq_neg_iff_add_eq_0 [symmetric])
      show "c \<in> E" using c False by (simp add: E_def)
      fix y assume "y \<in> Y"
      then obtain s where s: "s \<in> S" "k \<le> s" "y = x s" unfolding Y_def by fastforce
      have "s < k + m" using S(1) s(1) by auto
      then have full: "(\<Sum>i < k. inverse (x i + y) * v i) = 0"
        using s ker rs_cauchy_entries(2) [OF st shape, of "s - k"] by (auto simp: P sys_row_def x_def)
      have "v i = 0" if "i < k" "i \<in> S" for i using ker that by (auto simp: sys_row_def)
      then show "(\<Sum>i \<in> E. inverse (x i + y) * v i) = 0"
        using full by (subst sum.mono_neutral_left [of "{..<k}"]) (auto simp: E_def)
    qed
  qed
qed

section \<open>Encoded stripes and their reconstruction\<close>

lemma rs_matrix_algo: "rs_matrix mem st algo k m = Some P \<Longrightarrow> algo = RS_ALGO_VM \<or> algo = RS_ALGO_CAUCHY"
  by (auto simp: rs_matrix_def split: if_splits)

lemma rs_matrix_shape: "rs_matrix mem st algo k m = Some P \<Longrightarrow> rs_shape_ok k m"
  by (simp add: rs_matrix_def split: if_splits)

text \<open>Memory decides whether a matrix or an inverse is returned, never which.\<close>

lemma gj_columns_mem:
  "gj_columns mem st n bs aug = Some r \<Longrightarrow> gj_columns mem' st n bs aug = Some r' \<Longrightarrow> r = r'"
proof (induction bs arbitrary: aug)
  case (Cons b bs)
  then obtain a a' where a: "gj_column mem st n b aug = Some a" "gj_column mem' st n b aug = Some a'"
    "gj_columns mem st n bs a = Some r" "gj_columns mem' st n bs a' = Some r'"
    by (auto split: option.splits)
  moreover from a(1,2) have "a = a'" by (auto simp: gj_column_def Let_def split: if_splits)
  ultimately show ?case using Cons.IH by blast
qed simp

lemma rs_gf_mat_inv_mem:
  "rs_gf_mat_inv mem st n M = Some r \<Longrightarrow> rs_gf_mat_inv mem' st n M = Some r' \<Longrightarrow> r = r'"
  by (auto simp: rs_gf_mat_inv_def split: if_splits option.splits dest: gj_columns_mem)

lemma rs_matrix_mem:
  "rs_matrix mem st algo k m = Some P \<Longrightarrow> rs_matrix mem' st algo k m = Some P' \<Longrightarrow> P = P'"
  by (auto simp: rs_matrix_def split: if_splits option.splits dest: rs_gf_mat_inv_mem)

lemmas rs_matrix_dims = vm.matrix_dims cauchy.matrix_dims

lemma rs_matrix_total:
  assumes "gf_tables_ok st" and "rs_shape_ok k m" and "\<forall>x. mem x"
    and "algo = RS_ALGO_VM \<or> algo = RS_ALGO_CAUCHY"
  shows "\<exists>P. rs_matrix mem st algo k m = Some P"
  using assms(4) vm.matrix_total [OF assms(1-3)] cauchy.matrix_total [OF assms(1-3)] by blast

lemma rs_survivors_spec:
  assumes "k \<le> length (filter (\<lambda>i. present ! i \<noteq> 0) [0..<k + m])"
  shows "set (rs_survivors k m present) \<subseteq> {..<k + m}" and "length (rs_survivors k m present) = k"
    and "distinct (rs_survivors k m present)" and "j < k \<Longrightarrow> present ! (rs_survivors k m present ! j) \<noteq> 0"
proof -
  have sub: "set (rs_survivors k m present) \<subseteq> set (filter (\<lambda>i. present ! i \<noteq> 0) [0..<k + m])"
    unfolding rs_survivors_def by (rule set_take_subset)
  then show "set (rs_survivors k m present) \<subseteq> {..<k + m}" by auto
  show len: "length (rs_survivors k m present) = k" using assms by (simp add: rs_survivors_def)
  show "distinct (rs_survivors k m present)" by (simp add: rs_survivors_def)
  assume "j < k"
  then show "present ! (rs_survivors k m present ! j) \<noteq> 0"
    using subsetD [OF sub nth_mem, of j] len by simp
qed

lemma rs_survivors_recover:
  assumes "gf_tables_ok st" and "rs_matrix mem st algo k m = Some P"
    and "set surv \<subseteq> {..<k + m}" "length surv = k"
    and "rs_gf_mat_inv mem' st k (rs_survivor_rows k P surv) = Some B" and "i < k"
  shows "(\<Sum>j < k. gfm B i j * (\<Sum>c < k. sys_row k P (surv ! j) c * v c)) = v i"
  using rs_matrix_algo [OF assms(2)] assms(2)
    vm.survivors_recover [OF assms(1) _ assms(3-6)] cauchy.survivors_recover [OF assms(1) _ assms(3-6)]
  by blast

lemma rs_survivors_invertible:
  assumes "gf_tables_ok st" and "rs_matrix mem st algo k m = Some P" and "\<forall>x. mem' x"
    and "set surv \<subseteq> {..<k + m}" "length surv = k" "distinct surv"
  shows "\<exists>B. rs_gf_mat_inv mem' st k (rs_survivor_rows k P surv) = Some B"
  using rs_matrix_algo [OF assms(2)] assms(2)
    vm.survivors_invertible [OF assms(1) _ assms(3-6)] cauchy.survivors_invertible [OF assms(1) _ assms(3-6)]
  by blast

text \<open>The parity blocks that \<open>rs_encode\<close> writes, and the whole stripe.\<close>

definition rs_parity :: "rs_gf_state \<Rightarrow> int \<Rightarrow> nat \<Rightarrow> nat \<Rightarrow> nat \<Rightarrow> u8 list list \<Rightarrow> bytes list \<Rightarrow> bytes list" where
  "rs_parity st algo k m bsz P d = map (\<lambda>j. rs_combine st algo bsz k (\<lambda>i. d ! i) (\<lambda>i. P ! j ! i)) [0..<m]"

definition rs_stripe :: "rs_gf_state \<Rightarrow> int \<Rightarrow> nat \<Rightarrow> nat \<Rightarrow> nat \<Rightarrow> u8 list list \<Rightarrow> bytes list \<Rightarrow> bytes list" where
  "rs_stripe st algo k m bsz P d = d @ rs_parity st algo k m bsz P d"

lemma rs_stripe_slots:
  assumes "gf_tables_ok st" and "dims k bsz d"
  shows "dims (k + m) bsz (rs_stripe st algo k m bsz P d)"
    and "i < k + m \<Longrightarrow> t < bsz \<Longrightarrow>
      GF (rs_stripe st algo k m bsz P d ! i ! t) = (\<Sum>c < k. sys_row k P i c * GF (d ! c ! t))"
proof -
  note comb = rs_combine_sum [OF assms(1), of k "\<lambda>i. d ! i" bsz algo]
  have len: "length d = k" and rows: "\<And>i. i < k \<Longrightarrow> length (d ! i) = bsz" using assms(2) by (auto simp: dims_def)
  show "dims (k + m) bsz (rs_stripe st algo k m bsz P d)"
    using len rows comb by (auto simp: dims_def rs_stripe_def rs_parity_def nth_append)
  show "GF (rs_stripe st algo k m bsz P d ! i ! t) = (\<Sum>c < k. sys_row k P i c * GF (d ! c ! t))"
    if "i < k + m" "t < bsz"
  proof (cases "i < k")
    case True
    then show ?thesis using len by (simp add: rs_stripe_def sys_row_def nth_append)
  next
    case False
    then show ?thesis
      using that len rows comb by (simp add: rs_stripe_def rs_parity_def sys_row_def nth_append gfm_def)
  qed
qed

text \<open>A slot list agrees with the stripe on a set of slots.\<close>

definition agrees :: "nat set \<Rightarrow> bytes list \<Rightarrow> bytes list \<Rightarrow> bool" where
  "agrees S full blks \<longleftrightarrow> length blks = length full \<and> (\<forall>i \<in> S. i < length full \<longrightarrow> blks ! i = full ! i)"

lemma agrees_update: "agrees S full blks \<Longrightarrow> agrees (insert i S) full (blks[i := full ! i])"
  by (auto simp: agrees_def) (metis nth_list_update_eq nth_list_update_neq)

lemma agrees_insert: "agrees S full blks \<Longrightarrow> i \<in> S \<Longrightarrow> agrees (insert i S) full blks"
  by (simp add: insert_absorb)

lemma rebuild_data_step:
  assumes st: "gf_tables_ok st" and P: "rs_matrix mem st algo k m = Some P" and d: "dims k bsz d"
    and surv: "set surv \<subseteq> {..<k + m}" "length surv = k" "\<And>j. j < k \<Longrightarrow> present ! (surv ! j) \<noteq> 0"
    and B: "rs_gf_mat_inv mem' st k (rs_survivor_rows k P surv) = Some B" and i: "i < k"
    and full: "full = rs_stripe st algo k m bsz P d"
    and ag: "agrees ({s. present ! s \<noteq> 0} \<union> {..<i}) full blks"
  shows "agrees ({s. present ! s \<noteq> 0} \<union> {..<Suc i}) full (rs_rebuild_data st algo bsz k present surv B blks i)"
proof -
  note slots = rs_stripe_slots [OF st d]
  have len: "length full = k + m" using slots(1) [of m algo P] by (simp add: full dims_def)
  define r where "r = rs_combine st algo bsz k (\<lambda>j. blks ! (surv ! j)) (\<lambda>j. B ! i ! j)"
  have sj: "surv ! j < k + m" if "j < k" for j using subsetD [OF surv(1) nth_mem, of j] surv(2) that by simp
  have src: "blks ! (surv ! j) = full ! (surv ! j)" if "j < k" for j
    using ag surv(3) [OF that] sj [OF that] len by (simp add: agrees_def)
  have "length (full ! (surv ! j)) = bsz" if "j < k" for j
    using slots(1) [of m algo P] sj [OF that] by (simp add: full dims_def)
  then have r: "length r = bsz"
    "\<And>t. t < bsz \<Longrightarrow> GF (r ! t) = (\<Sum>j < k. gfm B i j * GF (full ! (surv ! j) ! t))"
    using rs_combine_sum [OF st, of k "\<lambda>j. blks ! (surv ! j)" bsz algo "\<lambda>j. B ! i ! j"]
    by (simp_all add: r_def src gfm_def)
  have "r = full ! i"
  proof (rule nth_equalityI)
    show "length r = length (full ! i)" using r(1) slots(1) [of m algo P] i by (simp add: full dims_def)
    fix t assume t: "t < length r"
    have "GF (r ! t) = (\<Sum>j < k. gfm B i j * (\<Sum>c < k. sys_row k P (surv ! j) c * GF (d ! c ! t)))"
      using r t slots(2) [of "surv ! _" m t algo P] sj by (simp add: full)
    also have "\<dots> = GF (d ! i ! t)" by (rule rs_survivors_recover [OF st P surv(1,2) B i])
    also have "d ! i ! t = full ! i ! t" using d i by (simp add: full rs_stripe_def dims_def nth_append)
    finally show "r ! t = full ! i ! t" by simp
  qed
  then show ?thesis
    using agrees_update [OF ag, of i] agrees_insert [OF ag, of i]
    by (simp add: rs_rebuild_data_def lessThan_Suc flip: r_def)
qed

lemma rebuild_data_loop:
  assumes st: "gf_tables_ok st" and P: "rs_matrix mem st algo k m = Some P" and d: "dims k bsz d"
    and surv: "set surv \<subseteq> {..<k + m}" "length surv = k" "\<And>j. j < k \<Longrightarrow> present ! (surv ! j) \<noteq> 0"
    and B: "rs_gf_mat_inv mem' st k (rs_survivor_rows k P surv) = Some B"
    and full: "full = rs_stripe st algo k m bsz P d"
    and ag: "agrees {s. present ! s \<noteq> 0} full blks" and i: "i \<le> k"
  shows "agrees ({s. present ! s \<noteq> 0} \<union> {..<i}) full
    (foldl (rs_rebuild_data st algo bsz k present surv B) blks [0..<i])"
  using i
proof (induction i)
  case (Suc i)
  then show ?case
    using rebuild_data_step [OF st P d surv B _ full, of i] by simp
qed (use ag in simp)

lemma rs_combine_cong:
  "(\<And>i. i < k \<Longrightarrow> src i = src' i) \<Longrightarrow> rs_combine st algo bsz k src co = rs_combine st algo bsz k src' co"
  unfolding rs_combine_def by (intro foldl_cong) auto

lemma rebuild_parity_loop:
  assumes d: "length d = k" and full: "full = rs_stripe st algo k m bsz P d"
    and ag: "agrees ({s. present ! s \<noteq> 0} \<union> {..<k}) full blks" and i: "i \<le> m"
  shows "agrees ({s. present ! s \<noteq> 0} \<union> {..<k + i}) full
    (foldl (rs_rebuild_parity st algo bsz k present P) blks [0..<i])"
  using i
proof (induction i)
  case (Suc i)
  define b where "b = foldl (rs_rebuild_parity st algo bsz k present P) blks [0..<i]"
  have len: "length full = k + m" by (simp add: full rs_stripe_def rs_parity_def d)
  have ih: "agrees ({s. present ! s \<noteq> 0} \<union> {..<k + i}) full b" using Suc by (simp add: b_def)
  have "rs_combine st algo bsz k (\<lambda>j. b ! j) (\<lambda>j. P ! i ! j) = rs_combine st algo bsz k (\<lambda>j. d ! j) (\<lambda>j. P ! i ! j)"
  proof (rule rs_combine_cong)
    fix j assume "j < k"
    then have "b ! j = full ! j" using ih len by (simp add: agrees_def)
    then show "b ! j = d ! j" using \<open>j < k\<close> d by (simp add: full rs_stripe_def nth_append)
  qed
  also have "\<dots> = full ! (k + i)"
    using Suc.prems d by (simp add: full rs_stripe_def rs_parity_def nth_append)
  finally have new: "rs_combine st algo bsz k (\<lambda>j. b ! j) (\<lambda>j. P ! i ! j) = full ! (k + i)" .
  show ?case
    using agrees_update [OF ih, of "k + i"] agrees_insert [OF ih, of "k + i"]
    by (simp add: rs_rebuild_parity_def [of _ _ _ _ _ _ b] new lessThan_Suc flip: b_def)
qed (use ag in simp)

lemma agrees_all: "agrees S full blks \<Longrightarrow> {..<length full} \<subseteq> S \<Longrightarrow> blks = full"
  by (auto simp: agrees_def intro!: nth_equalityI)

lemma rs_decode_outcome:
  assumes ok: "rs_gf_ok st0" and d: "dims k bsz d"
    and P: "rs_matrix mem (rs_gf_init st0) algo k m = Some P"
    and full: "full = rs_stripe (rs_gf_init st0) algo k m bsz P d"
    and ag: "agrees {s. present ! s \<noteq> 0} full blks"
    and res: "rs_decode mem' algo k m bsz (Some (map Some blks)) (Some present) st0 = (rc, b, st)"
  shows "rc = -1 \<and> b = Some (map Some blks) \<or> rc = 0 \<and> b = Some (map Some full)"
proof -
  define st1 where "st1 = rs_gf_init st0"
  have st: "gf_tables_ok st1" using rs_gf_init_ok [OF ok] by (simp add: st1_def)
  have len: "length full = k + m" "length blks = k + m"
    using rs_stripe_slots(1) [OF st d, of m algo P] ag by (simp_all add: full dims_def agrees_def st1_def)
  consider (fail) "rc = -1" "b = Some (map Some blks)"
    | (none) "rc = 0" "b = Some (map Some blks)" "filter (\<lambda>i. present ! i = 0) [0..<k + m] = []"
    | (some) P' B surv where "rs_matrix mem' st1 algo k m = Some P'" "surv = rs_survivors k m present"
        "k \<le> length (filter (\<lambda>i. present ! i \<noteq> 0) [0..<k + m])"
        "rs_gf_mat_inv mem' st1 k (rs_survivor_rows k P' surv) = Some B" "rc = 0"
        "b = Some (map Some (foldl (rs_rebuild_parity st1 algo bsz k present P')
               (foldl (rs_rebuild_data st1 algo bsz k present surv B) blks [0..<k]) [0..<m]))"
    using res unfolding rs_decode_def Let_def st1_def
    by (auto simp: comp_def split: if_splits option.splits)
  then show ?thesis
  proof cases
    case none
    then have "blks = full" using len by (intro agrees_all [OF ag]) (auto simp: filter_empty_conv)
    with none show ?thesis by simp
  next
    case some
    have PP: "P' = P" using rs_matrix_mem [OF some(1) P [folded st1_def]] .
    note surv = rs_survivors_spec [OF some(3), folded some(2)]
    have "agrees ({s. present ! s \<noteq> 0} \<union> {..<k}) full
        (foldl (rs_rebuild_data st1 algo bsz k present surv B) blks [0..<k])"
      using rebuild_data_loop [OF st some(1) d surv(1,2,4) some(4) _ ag order_refl] full
      by (simp add: PP st1_def)
    from rebuild_parity_loop [OF _ full [folded st1_def] this order_refl] d
    have "foldl (rs_rebuild_parity st1 algo bsz k present P)
        (foldl (rs_rebuild_data st1 algo bsz k present surv B) blks [0..<k]) [0..<m] = full"
      by (intro agrees_all) (auto simp: dims_def len)
    with some PP show ?thesis by simp
  qed simp
qed

lemma rs_encode_result:
  assumes "rs_encode mem algo k m bsz (Some d) (Some par0) st0 = (0, Some par, st)" and "length par0 = m"
  obtains P where "rs_matrix mem (rs_gf_init st0) algo k m = Some P" and "0 < bsz"
    and "d @ par = rs_stripe (rs_gf_init st0) algo k m bsz P d"
  using assms
  by (auto simp: rs_encode_def Let_def rs_stripe_def rs_parity_def split: if_splits option.splits)

lemma rs_encode_rc:
  assumes "rs_gf_ok st0" and "\<forall>n. mem n"
  shows "fst (rs_encode mem algo k m bsz (Some d) (Some par0) st0)
    = (if bsz \<noteq> 0 \<and> rs_shape_ok k m \<and> (algo = RS_ALGO_VM \<or> algo = RS_ALGO_CAUCHY) then 0 else -1)"
proof -
  have "(\<exists>P. rs_matrix mem (rs_gf_init st0) algo k m = Some P)
      \<longleftrightarrow> rs_shape_ok k m \<and> (algo = RS_ALGO_VM \<or> algo = RS_ALGO_CAUCHY)"
    using rs_matrix_total [OF rs_gf_init_ok(2) [OF assms(1)] _ assms(2)] rs_matrix_algo rs_matrix_shape
    by blast
  then show ?thesis
    using assms(2) by (auto simp: rs_encode_def Let_def split: option.split)
qed

lemma rs_encode_total:
  assumes "rs_gf_ok st0" and "\<forall>n. mem n" and "rs_shape_ok k m" and "bsz \<noteq> 0"
    and "algo = RS_ALGO_VM \<or> algo = RS_ALGO_CAUCHY" and "length par0 = m"
  obtains par st where "rs_encode mem algo k m bsz (Some d) (Some par0) st0 = (0, Some par, st)" and "length par = m"
proof -
  obtain P where "rs_matrix mem (rs_gf_init st0) algo k m = Some P"
    using rs_matrix_total [OF rs_gf_init_ok(2) [OF assms(1)] assms(3,2,5)] by blast
  then show thesis
    using that assms(2,4,6) by (auto simp: rs_encode_def Let_def)
qed

text \<open>C1. Any \<open>k\<close> of the \<open>k + m\<close> blocks rebuild the stripe. Whenever \<open>rs_encode\<close> produced the
  parity \<open>par\<close> of \<open>data\<close>, and the slots marked present hold what was encoded while the others
  hold anything at all, \<open>rs_decode\<close> with at least \<open>k\<close> slots present and memory available returns
  0 and leaves every slot as it was encoded. This holds for both algorithms and every
  shape with \<open>k + m \<le> 256\<close>.\<close>

theorem rs_decode_rebuilds_stripe:
  assumes "rs_gf_ok st0" and "rs_gf_ok st1"
    and "length data = k" and "\<forall>i < k. length (data ! i) = bsz" and "length par0 = m"
    and "rs_encode mem algo k m bsz (Some data) (Some par0) st0 = (0, Some par, st0')"
    and "length blocks = k + m"
    and "\<forall>i < k + m. present ! i \<noteq> 0 \<longrightarrow> blocks ! i = (data @ par) ! i"
    and "k \<le> length (filter (\<lambda>i. present ! i \<noteq> 0) [0..<k + m])"
    and "\<forall>n. mem' n"
  shows "fst (rs_decode mem' algo k m bsz (Some (map Some blocks)) (Some present) st1) = 0
    \<and> fst (snd (rs_decode mem' algo k m bsz (Some (map Some blocks)) (Some present) st1))
        = Some (map Some (data @ par))"
proof -
  define st where "st = rs_gf_init st0"
  have st: "gf_tables_ok st" "rs_gf_init st1 = st" using rs_gf_init_ok [of st0] rs_gf_init_ok [of st1] assms(1,2) by (simp_all add: st_def)
  obtain P where P: "rs_matrix mem st algo k m = Some P" "0 < bsz"
    "data @ par = rs_stripe st algo k m bsz P data"
    using rs_encode_result [OF assms(6,5)] unfolding st_def by metis
  have shape: "rs_shape_ok k m" and algo: "algo = RS_ALGO_VM \<or> algo = RS_ALGO_CAUCHY"
    using rs_matrix_shape [OF P(1)] rs_matrix_algo [OF P(1)] by auto
  have d: "dims k bsz data" using assms(3,4) by (simp add: dims_def)
  have len: "length (data @ par) = k + m" using rs_stripe_slots(1) [OF st(1) d, of m algo P] P(3) by (simp add: dims_def)
  have ag: "agrees {s. present ! s \<noteq> 0} (data @ par) blocks"
    using assms(7,8) len by (auto simp: agrees_def)
  obtain P' where P': "rs_matrix mem' st algo k m = Some P'"
    using rs_matrix_total [OF st(1) shape assms(10) algo] by blast
  obtain B where B: "rs_gf_mat_inv mem' st k (rs_survivor_rows k P' (rs_survivors k m present)) = Some B"
    using rs_survivors_invertible [OF st(1) P' assms(10) rs_survivors_spec(1-3) [OF assms(9)]] by blast
  obtain rc b s where dec: "rs_decode mem' algo k m bsz (Some (map Some blocks)) (Some present) st1 = (rc, b, s)"
    by (metis prod_cases3)
  have "rc = 0"
    using dec P(2) shape assms(7,9,10) P' B
    by (auto simp: rs_decode_def Let_def st(2) split: if_splits)
  with rs_decode_outcome [OF assms(2) d _ _ ag dec] P st(2) show ?thesis by (simp add: dec)
qed

theorem rs_decode_rebuilds_stripe_witness:
  "\<exists>par st. rs_encode (\<lambda>_. True) RS_ALGO_VM 2 1 1 (Some [[7], [9]]) (Some [[0]]) rs_gf_state0 = (0, Some par, st)
    \<and> fst (rs_decode (\<lambda>_. True) RS_ALGO_VM 2 1 1 (Some (map Some ([[0], [9]] @ par))) (Some [0, 1, 1]) rs_gf_state0) = 0
    \<and> fst (snd (rs_decode (\<lambda>_. True) RS_ALGO_VM 2 1 1 (Some (map Some ([[0], [9]] @ par))) (Some [0, 1, 1]) rs_gf_state0))
        = Some (map Some ([[7], [9]] @ par))"
proof -
  obtain par st where enc: "rs_encode (\<lambda>_. True) RS_ALGO_VM 2 1 1 (Some [[7], [9]]) (Some [[0]]) rs_gf_state0 = (0, Some par, st)"
    and len: "length par = 1"
    by (rule rs_encode_total [OF rs_gf_ok_state0, of "\<lambda>_. True" 2 1 1 RS_ALGO_VM "[[0]]" "[[7], [9]]"])
       (simp_all add: rs_shape_ok_def)
  then show ?thesis
    using rs_decode_rebuilds_stripe [OF rs_gf_ok_state0 rs_gf_ok_state0 _ _ _ enc, of "[[0], [9]] @ par" "[0, 1, 1]" "\<lambda>_. True"]
    by (auto simp: numeral_eq_Suc less_Suc_eq nth_append)
qed



end
