(* ===== verification/Arc.thy ===== *)
theory Arc
  imports Prelude "HOL-Library.While_Combinator" "HOL-Library.Monad_Syntax"
begin

text \<open>
  The adaptive replacement cache of \<^verbatim>\<open>src/core/arc.c\<close>. A node is named by its key: \<open>arc_put\<close>
  looks a key up before it inserts one, so the table never holds two nodes of one key. The
  doubly linked lists are key lists with the most recently used key first; their element
  count is the length of the list, their byte count is stored and wraps as a \<open>size_t\<close>. The
  hash table is the list of its chains. Every entry point runs under the cache's mutex, so a
  concurrent execution is a sequence of these operations. The two eviction loops are
  \<open>while_option\<close>; that they end is part of what is shown.
\<close>

section \<open>State\<close>

datatype arc_which = L_NONE | L_T1 | L_T2 | L_B1 | L_B2

record arc_node =
  an_data :: "bytes option"
  an_len :: nat
  an_list :: arc_which

record arc_list =
  al_keys :: "u64 list"
  al_bytes :: nat

record invfs_arc_stats =
  hits :: u64
  misses :: u64
  ghost_hits :: u64
  inserts :: u64
  evictions :: u64
  refused :: u64
  invalidated :: u64
  st_bytes :: nat
  budget :: nat
  t1_bytes :: nat
  t2_bytes :: nat
  st_p :: nat
  entries :: nat
  ghosts :: nat

record invfs_arc =
  arc_t1 :: arc_list
  arc_t2 :: arc_list
  arc_b1 :: arc_list
  arc_b2 :: arc_list
  arc_c :: nat
  arc_p :: nat
  arc_buckets :: "u64 list list"
  arc_nbuckets :: nat
  arc_nnodes :: nat
  arc_nodes :: "u64 \<rightharpoonup> arc_node"
  arc_st :: invfs_arc_stats

abbreviation al_count :: "arc_list \<Rightarrow> nat" where
  "al_count l \<equiv> length (al_keys l)"

section \<open>Hash table\<close>

definition arc_hash :: "u64 \<Rightarrow> nat \<Rightarrow> nat" where
  "arc_hash key nbuckets =
     (let x0 = key + 0x9E3779B97F4A7C15;
          x1 = (x0 XOR drop_bit 30 x0) * 0xBF58476D1CE4E5B9;
          x2 = (x1 XOR drop_bit 27 x1) * 0x94D049BB133111EB;
          x3 = x2 XOR drop_bit 31 x2
      in unat (x3 AND of_nat (nbuckets - 1)))"

definition ht_find :: "invfs_arc \<Rightarrow> u64 \<Rightarrow> u64 option" where
  "ht_find a key = find (\<lambda>k. k = key) (arc_buckets a ! arc_hash key (arc_nbuckets a))"

definition ht_insert :: "invfs_arc \<Rightarrow> u64 \<Rightarrow> invfs_arc" where
  "ht_insert a key =
     (let h = arc_hash key (arc_nbuckets a)
      in a\<lparr>arc_buckets := (arc_buckets a)[h := key # arc_buckets a ! h],
           arc_nnodes := sz (arc_nnodes a + 1)\<rparr>)"

definition ht_remove :: "invfs_arc \<Rightarrow> u64 \<Rightarrow> invfs_arc" where
  "ht_remove a key =
     (let h = arc_hash key (arc_nbuckets a)
      in if key \<in> set (arc_buckets a ! h)
         then a\<lparr>arc_buckets := (arc_buckets a)[h := remove1 key (arc_buckets a ! h)],
                arc_nnodes := sz_sub (arc_nnodes a) 1\<rparr>
         else a)"

definition ht_grow :: "bool \<Rightarrow> invfs_arc \<Rightarrow> invfs_arc" where
  "ht_grow calloc_ok a =
     (let nb = sz (arc_nbuckets a * 2)
      in if \<not> calloc_ok then a
         else a\<lparr>arc_buckets :=
                  foldl (\<lambda>nbk key. let h = arc_hash key nb in nbk[h := key # nbk ! h])
                    (replicate nb []) (concat (arc_buckets a)),
                arc_nbuckets := nb\<rparr>)"

section \<open>Lists, most recently used first\<close>

definition lst_unlink :: "arc_list \<Rightarrow> u64 \<Rightarrow> nat \<Rightarrow> arc_list" where
  "lst_unlink l key len = \<lparr>al_keys = remove1 key (al_keys l), al_bytes = sz_sub (al_bytes l) len\<rparr>"

definition lst_push_mru :: "arc_list \<Rightarrow> u64 \<Rightarrow> nat \<Rightarrow> arc_list" where
  "lst_push_mru l key len = \<lparr>al_keys = key # al_keys l, al_bytes = sz (al_bytes l + len)\<rparr>"

fun list_of :: "invfs_arc \<Rightarrow> arc_which \<Rightarrow> arc_list option" where
  "list_of a L_T1 = Some (arc_t1 a)"
| "list_of a L_T2 = Some (arc_t2 a)"
| "list_of a L_B1 = Some (arc_b1 a)"
| "list_of a L_B2 = Some (arc_b2 a)"
| "list_of a L_NONE = None"

fun set_list :: "arc_which \<Rightarrow> arc_list \<Rightarrow> invfs_arc \<Rightarrow> invfs_arc" where
  "set_list L_T1 l a = a\<lparr>arc_t1 := l\<rparr>"
| "set_list L_T2 l a = a\<lparr>arc_t2 := l\<rparr>"
| "set_list L_B1 l a = a\<lparr>arc_b1 := l\<rparr>"
| "set_list L_B2 l a = a\<lparr>arc_b2 := l\<rparr>"
| "set_list L_NONE l a = a"

text \<open>Field writes through a node pointer.\<close>

definition node_at :: "invfs_arc \<Rightarrow> u64 \<Rightarrow> arc_node" where
  "node_at a key = the (arc_nodes a key)"

definition node_set :: "u64 \<Rightarrow> arc_node \<Rightarrow> invfs_arc \<Rightarrow> invfs_arc" where
  "node_set key n a = a\<lparr>arc_nodes := (arc_nodes a)(key \<mapsto> n)\<rparr>"

definition move_to :: "invfs_arc \<Rightarrow> u64 \<Rightarrow> arc_which \<Rightarrow> invfs_arc" where
  "move_to a key which =
     (let n = node_at a key;
          a1 = (case list_of a (an_list n) of
                  None \<Rightarrow> a
                | Some from \<Rightarrow> set_list (an_list n) (lst_unlink from key (an_len n)) a);
          a2 = node_set key (n\<lparr>an_list := which\<rparr>) a1
      in case list_of a2 which of
           None \<Rightarrow> a2
         | Some to \<Rightarrow> set_list which (lst_push_mru to key (an_len n)) a2)"

definition node_free :: "invfs_arc \<Rightarrow> u64 \<Rightarrow> invfs_arc" where
  "node_free a key =
     (let n = node_at a key;
          a1 = (case list_of a (an_list n) of
                  None \<Rightarrow> a
                | Some l \<Rightarrow> set_list (an_list n) (lst_unlink l key (an_len n)) a);
          a2 = ht_remove a1 key
      in a2\<lparr>arc_nodes := (arc_nodes a2)(key := None)\<rparr>)"

section \<open>Entry points\<close>

text \<open>\<open>init_ok\<close>, \<open>node_ok\<close> and \<open>grow_ok\<close> say whether an allocation succeeds. The body between
  lock and unlock is the operation with suffix \<open>_locked\<close>.\<close>

definition stats0 :: "nat \<Rightarrow> invfs_arc_stats" where
  "stats0 b = \<lparr>hits = 0, misses = 0, ghost_hits = 0, inserts = 0, evictions = 0, refused = 0,
     invalidated = 0, st_bytes = 0, budget = b, t1_bytes = 0, t2_bytes = 0, st_p = 0, entries = 0, ghosts = 0\<rparr>"

definition list0 :: arc_list where
  "list0 = \<lparr>al_keys = [], al_bytes = 0\<rparr>"

definition arc_create :: "bool \<Rightarrow> nat \<Rightarrow> invfs_arc option" where
  "arc_create init_ok budget_bytes =
     (if budget_bytes = 0 then None
      else if \<not> init_ok then None
      else Some \<lparr>arc_t1 = list0, arc_t2 = list0, arc_b1 = list0, arc_b2 = list0,
                 arc_c = budget_bytes, arc_p = budget_bytes div 2,
                 arc_buckets = replicate 256 [], arc_nbuckets = 256, arc_nnodes = 0,
                 arc_nodes = Map.empty, arc_st = stats0 budget_bytes\<rparr>)"

text \<open>The walk of \<open>arc_destroy\<close> and \<open>arc_clear\<close>: the keys of the nodes in the order they are freed.\<close>

definition arc_destroy :: "invfs_arc option \<Rightarrow> u64 list" where
  "arc_destroy ao = (case ao of None \<Rightarrow> [] | Some a \<Rightarrow> concat (arc_buckets a))"

definition stat_miss :: "invfs_arc \<Rightarrow> u64 option \<Rightarrow> invfs_arc" where
  "stat_miss a n =
     (let st = arc_st a;
          st1 = st\<lparr>misses := misses st + 1\<rparr>
      in a\<lparr>arc_st := (if n \<noteq> None then st1\<lparr>ghost_hits := ghost_hits st1 + 1\<rparr> else st1)\<rparr>)"

definition stat_hit :: "invfs_arc \<Rightarrow> invfs_arc" where
  "stat_hit a = a\<lparr>arc_st := (arc_st a)\<lparr>hits := hits (arc_st a) + 1\<rparr>\<rparr>"

definition arc_get_locked :: "invfs_arc \<Rightarrow> u64 \<Rightarrow> bytes option \<times> invfs_arc" where
  "arc_get_locked a key =
     (let n = ht_find a key
      in if n = None \<or> an_data (node_at a key) = None then (None, stat_miss a n)
         else let a1 = stat_hit (move_to a key L_T2)
              in (an_data (node_at a1 key), a1))"

definition arc_get :: "invfs_arc option \<Rightarrow> u64 \<Rightarrow> bytes option \<times> invfs_arc option" where
  "arc_get ao key =
     (case ao of None \<Rightarrow> (None, None)
      | Some a \<Rightarrow> let (d, a1) = arc_get_locked a key in (d, Some a1))"

text \<open>The result of \<open>arc_get_copy\<close> is the bytes copied to \<open>dst\<close>, \<open>None\<close> on a miss.\<close>

definition arc_get_copy_locked :: "invfs_arc \<Rightarrow> u64 \<Rightarrow> nat \<Rightarrow> nat \<Rightarrow> bytes option \<times> invfs_arc" where
  "arc_get_copy_locked a key off want =
     (let n = ht_find a key
      in if n = None \<or> an_data (node_at a key) = None then (None, stat_miss a n)
         else let a1 = stat_hit (move_to a key L_T2);
                  nd = node_at a1 key
              in (if off < an_len nd
                  then let avail0 = an_len nd - off;
                           avail = (if avail0 > want then want else avail0)
                       in Some (bslice off avail (the (an_data nd)))
                  else Some [], a1))"

definition arc_get_copy :: "invfs_arc option \<Rightarrow> u64 \<Rightarrow> nat \<Rightarrow> nat \<Rightarrow> bytes option \<times> invfs_arc option" where
  "arc_get_copy ao key off want =
     (case ao of None \<Rightarrow> (None, None)
      | Some a \<Rightarrow> let (d, a1) = arc_get_copy_locked a key off want in (d, Some a1))"

definition stat_evict :: "invfs_arc \<Rightarrow> invfs_arc" where
  "stat_evict a = a\<lparr>arc_st := (arc_st a)\<lparr>evictions := evictions (arc_st a) + 1\<rparr>\<rparr>"

text \<open>Free the data of a victim and demote it to a ghost list.\<close>

definition arc_demote :: "invfs_arc \<Rightarrow> u64 \<Rightarrow> arc_which \<Rightarrow> invfs_arc" where
  "arc_demote a victim which =
     stat_evict (move_to (node_set victim ((node_at a victim)\<lparr>an_data := None\<rparr>) a) victim which)"

definition arc_replace_step :: "bool \<Rightarrow> invfs_arc \<Rightarrow> invfs_arc" where
  "arc_replace_step from_b2 a =
     (if al_count (arc_t1 a) > 0 \<and>
         (al_bytes (arc_t1 a) > arc_p a \<or> (from_b2 \<and> al_bytes (arc_t1 a) = arc_p a))
      then arc_demote a (last (al_keys (arc_t1 a))) L_B1
      else if al_count (arc_t2 a) > 0 then arc_demote a (last (al_keys (arc_t2 a))) L_B2
      else arc_demote a (last (al_keys (arc_t1 a))) L_B1)"

text \<open>The loop stops when the room is there, or breaks when no live entry is left to give.\<close>

definition arc_replace :: "invfs_arc \<Rightarrow> nat \<Rightarrow> bool \<Rightarrow> invfs_arc option" where
  "arc_replace a need from_b2 =
     while_option
       (\<lambda>a. sz (sz (al_bytes (arc_t1 a) + al_bytes (arc_t2 a)) + need) > arc_c a
            \<and> (al_count (arc_t1 a) > 0 \<or> al_count (arc_t2 a) > 0))
       (arc_replace_step from_b2) a"

definition arc_trim_ghosts :: "invfs_arc \<Rightarrow> invfs_arc option" where
  "arc_trim_ghosts a =
     do {
       a1 \<leftarrow> while_option
              (\<lambda>a. al_count (arc_b1 a) > 0 \<and> sz (al_bytes (arc_t1 a) + al_bytes (arc_b1 a)) > arc_c a)
              (\<lambda>a. node_free a (last (al_keys (arc_b1 a)))) a;
       while_option
         (\<lambda>a. al_count (arc_b2 a) > 0 \<and>
              sz (sz (sz (al_bytes (arc_t1 a) + al_bytes (arc_t2 a)) + al_bytes (arc_b1 a))
                  + al_bytes (arc_b2 a)) > sz (2 * arc_c a))
         (\<lambda>a. node_free a (last (al_keys (arc_b2 a)))) a1
     }"

definition stat_insert :: "invfs_arc \<Rightarrow> invfs_arc" where
  "stat_insert a = a\<lparr>arc_st := (arc_st a)\<lparr>inserts := inserts (arc_st a) + 1\<rparr>\<rparr>"

text \<open>Case I of \<open>arc_put\<close>: the key is live.\<close>

definition arc_put_live :: "invfs_arc \<Rightarrow> u64 \<Rightarrow> bytes \<Rightarrow> nat \<Rightarrow> invfs_arc option" where
  "arc_put_live a key data len =
     do {
       let a1 = move_to a key L_NONE;
       let a2 = node_set key ((node_at a1 key)\<lparr>an_data := None\<rparr>) a1;
       a3 \<leftarrow> arc_replace a2 len False;
       let a4 = node_set key ((node_at a3 key)\<lparr>an_len := len, an_data := Some data\<rparr>) a3;
       arc_trim_ghosts (move_to a4 key L_T2)
     }"

text \<open>Cases II and III: the key is a ghost. First the adaptation of the target \<open>p\<close>.\<close>

definition arc_adapt :: "invfs_arc \<Rightarrow> u64 \<Rightarrow> nat \<Rightarrow> invfs_arc" where
  "arc_adapt a key len =
     (let n1 = al_count (arc_b1 a); n2 = al_count (arc_b2 a)
      in if an_list (node_at a key) = L_B1
         then let r = (if n1 > 0 \<and> n2 > n1 then n2 div n1 else 1);
                  step = sz (len * r)
              in a\<lparr>arc_p := (if sz (arc_p a + step) > arc_c a then arc_c a else sz (arc_p a + step))\<rparr>
         else let r = (if n2 > 0 \<and> n1 > n2 then n1 div n2 else 1);
                  step = sz (len * r)
              in a\<lparr>arc_p := (if arc_p a > step then arc_p a - step else 0)\<rparr>)"

definition arc_put_ghost :: "invfs_arc \<Rightarrow> u64 \<Rightarrow> bytes \<Rightarrow> nat \<Rightarrow> invfs_arc option" where
  "arc_put_ghost a key data len =
     do {
       let from_b2 = (an_list (node_at a key) \<noteq> L_B1);
       a1 \<leftarrow> arc_replace (arc_adapt a key len) len from_b2;
       let a2 = move_to a1 key L_NONE;
       let a3 = node_set key ((node_at a2 key)\<lparr>an_len := len, an_data := Some data\<rparr>) a2;
       arc_trim_ghosts (stat_insert (move_to a3 key L_T2))
     }"

text \<open>Case IV: the key was never seen.\<close>

definition arc_put_new :: "bool \<Rightarrow> bool \<Rightarrow> invfs_arc \<Rightarrow> u64 \<Rightarrow> bytes \<Rightarrow> nat \<Rightarrow> invfs_arc option" where
  "arc_put_new grow_ok node_ok a key data len =
     do {
       a1 \<leftarrow> arc_replace a len False;
       let a2 = (if sz (arc_nnodes a1 + 1) > arc_nbuckets a1 - arc_nbuckets a1 div 4
                 then ht_grow grow_ok a1 else a1);
       if \<not> node_ok then Some a2
       else let a3 = node_set key \<lparr>an_data = Some data, an_len = len, an_list = L_NONE\<rparr> a2;
                a4 = ht_insert a3 key
            in arc_trim_ghosts (stat_insert (move_to a4 key L_T1))
     }"

definition arc_put_locked :: "bool \<Rightarrow> bool \<Rightarrow> invfs_arc \<Rightarrow> u64 \<Rightarrow> bytes \<Rightarrow> nat \<Rightarrow> invfs_arc option" where
  "arc_put_locked grow_ok node_ok a key data len =
     (if sz (len * 2) > arc_c a
      then Some (a\<lparr>arc_st := (arc_st a)\<lparr>refused := refused (arc_st a) + 1\<rparr>\<rparr>)
      else let n = ht_find a key
           in if n \<noteq> None \<and> an_data (node_at a key) \<noteq> None then arc_put_live a key data len
              else if n \<noteq> None then arc_put_ghost a key data len
              else arc_put_new grow_ok node_ok a key data len)"

definition arc_put :: "bool \<Rightarrow> bool \<Rightarrow> invfs_arc option \<Rightarrow> u64 \<Rightarrow> bytes \<Rightarrow> nat \<Rightarrow> invfs_arc option option" where
  "arc_put grow_ok node_ok ao key data len =
     (case ao of None \<Rightarrow> Some None
      | Some a \<Rightarrow> map_option Some (arc_put_locked grow_ok node_ok a key data len))"

definition arc_invalidate_locked :: "invfs_arc \<Rightarrow> u64 \<Rightarrow> invfs_arc" where
  "arc_invalidate_locked a key =
     (if ht_find a key = None then a
      else let a1 = node_free a key
           in a1\<lparr>arc_st := (arc_st a1)\<lparr>invalidated := invalidated (arc_st a1) + 1\<rparr>\<rparr>)"

definition arc_invalidate :: "invfs_arc option \<Rightarrow> u64 \<Rightarrow> invfs_arc option" where
  "arc_invalidate ao key = map_option (\<lambda>a. arc_invalidate_locked a key) ao"

definition arc_clear_locked :: "invfs_arc \<Rightarrow> invfs_arc" where
  "arc_clear_locked a =
     a\<lparr>arc_buckets := replicate (arc_nbuckets a) [], arc_nnodes := 0, arc_nodes := Map.empty,
       arc_t1 := list0, arc_t2 := list0, arc_b1 := list0, arc_b2 := list0, arc_p := arc_c a div 2\<rparr>"

definition arc_clear :: "invfs_arc option \<Rightarrow> invfs_arc option" where
  "arc_clear ao = map_option arc_clear_locked ao"

definition arc_stats :: "invfs_arc option \<Rightarrow> invfs_arc_stats" where
  "arc_stats ao =
     (case ao of None \<Rightarrow> stats0 0
      | Some a \<Rightarrow> (arc_st a)\<lparr>st_bytes := sz (al_bytes (arc_t1 a) + al_bytes (arc_t2 a)),
                    t1_bytes := al_bytes (arc_t1 a), t2_bytes := al_bytes (arc_t2 a),
                    entries := al_count (arc_t1 a) + al_count (arc_t2 a),
                    ghosts := al_count (arc_b1 a) + al_count (arc_b2 a), st_p := arc_p a\<rparr>)"

section \<open>Views of the state\<close>

named_theorems arc_view

definition keysof :: "invfs_arc \<Rightarrow> arc_which \<Rightarrow> u64 list" where
  "keysof a w = (case list_of a w of None \<Rightarrow> [] | Some l \<Rightarrow> al_keys l)"

definition bytesof :: "invfs_arc \<Rightarrow> arc_which \<Rightarrow> nat" where
  "bytesof a w = (case list_of a w of None \<Rightarrow> 0 | Some l \<Rightarrow> al_bytes l)"

definition lenof :: "invfs_arc \<Rightarrow> u64 \<Rightarrow> nat" where
  "lenof a k = (case arc_nodes a k of None \<Rightarrow> 0 | Some n \<Rightarrow> an_len n)"

lemma keysof_fields [simp]:
  "keysof a L_NONE = []" "al_keys (arc_t1 a) = keysof a L_T1" "al_keys (arc_t2 a) = keysof a L_T2"
  "al_keys (arc_b1 a) = keysof a L_B1" "al_keys (arc_b2 a) = keysof a L_B2"
  by (simp_all add: keysof_def)

lemma bytesof_fields [simp]:
  "bytesof a L_NONE = 0" "al_bytes (arc_t1 a) = bytesof a L_T1" "al_bytes (arc_t2 a) = bytesof a L_T2"
  "al_bytes (arc_b1 a) = bytesof a L_B1" "al_bytes (arc_b2 a) = bytesof a L_B2"
  by (simp_all add: bytesof_def)

text \<open>The operations that leave the lists alone.\<close>

lemma list_of_frame [simp]:
  "list_of (node_set k n a) w = list_of a w"
  "list_of (a\<lparr>arc_st := s\<rparr>) w = list_of a w"
  "list_of (a\<lparr>arc_p := q\<rparr>) w = list_of a w"
  "list_of (a\<lparr>arc_nodes := m\<rparr>) w = list_of a w"
  "list_of (ht_insert a k) w = list_of a w"
  "list_of (ht_remove a k) w = list_of a w"
  "list_of (ht_grow b a) w = list_of a w"
  by (cases w; simp add: node_set_def ht_insert_def ht_remove_def ht_grow_def Let_def)+

lemma list_of_set_list [simp]:
  "list_of (set_list w l a) w' = (if w' = w \<and> w \<noteq> L_NONE then Some l else list_of a w')"
  by (cases w; cases w') auto

lemma set_list_frame [simp]:
  "arc_c (set_list w l a) = arc_c a" "arc_p (set_list w l a) = arc_p a"
  "arc_buckets (set_list w l a) = arc_buckets a" "arc_nbuckets (set_list w l a) = arc_nbuckets a"
  "arc_nnodes (set_list w l a) = arc_nnodes a" "arc_nodes (set_list w l a) = arc_nodes a"
  "arc_st (set_list w l a) = arc_st a"
  by (cases w; simp)+

lemma node_set_frame [simp]:
  "arc_c (node_set k n a) = arc_c a" "arc_p (node_set k n a) = arc_p a"
  "arc_buckets (node_set k n a) = arc_buckets a" "arc_nbuckets (node_set k n a) = arc_nbuckets a"
  "arc_nnodes (node_set k n a) = arc_nnodes a" "arc_nodes (node_set k n a) = (arc_nodes a)(k \<mapsto> n)"
  "arc_st (node_set k n a) = arc_st a"
  by (simp_all add: node_set_def)

lemma list_of_None [simp]: "list_of a w = None \<longleftrightarrow> w = L_NONE"
  by (cases w) simp_all

lemma node_at_Some [simp]: "arc_nodes a k = Some n \<Longrightarrow> node_at a k = n"
  by (simp add: node_at_def)

lemma move_to_frame [simp]:
  "arc_c (move_to a k w) = arc_c a" "arc_p (move_to a k w) = arc_p a"
  "arc_buckets (move_to a k w) = arc_buckets a" "arc_nbuckets (move_to a k w) = arc_nbuckets a"
  "arc_nnodes (move_to a k w) = arc_nnodes a" "arc_st (move_to a k w) = arc_st a"
  "arc_nodes (move_to a k w) = (arc_nodes a)(k \<mapsto> (node_at a k)\<lparr>an_list := w\<rparr>)"
  by (simp_all add: move_to_def Let_def split: option.splits)

lemma keysof_set_list [simp]:
  "keysof (set_list w l a) w' = (if w' = w \<and> w \<noteq> L_NONE then al_keys l else keysof a w')"
  by (simp add: keysof_def)

lemma bytesof_set_list [simp]:
  "bytesof (set_list w l a) w' = (if w' = w \<and> w \<noteq> L_NONE then al_bytes l else bytesof a w')"
  by (simp add: bytesof_def)

lemma keysof_frame [simp]:
  "keysof (node_set k n a) w = keysof a w" "keysof (a\<lparr>arc_st := s\<rparr>) w = keysof a w"
  "keysof (a\<lparr>arc_p := q\<rparr>) w = keysof a w" "keysof (a\<lparr>arc_nodes := m\<rparr>) w = keysof a w"
  "keysof (ht_insert a k) w = keysof a w" "keysof (ht_remove a k) w = keysof a w"
  "keysof (ht_grow b a) w = keysof a w"
  by (simp_all add: keysof_def)

lemma bytesof_frame [simp]:
  "bytesof (node_set k n a) w = bytesof a w" "bytesof (a\<lparr>arc_st := s\<rparr>) w = bytesof a w"
  "bytesof (a\<lparr>arc_p := q\<rparr>) w = bytesof a w" "bytesof (a\<lparr>arc_nodes := m\<rparr>) w = bytesof a w"
  "bytesof (ht_insert a k) w = bytesof a w" "bytesof (ht_remove a k) w = bytesof a w"
  "bytesof (ht_grow b a) w = bytesof a w"
  by (simp_all add: bytesof_def)

lemma list_of_SomeD: "list_of a w = Some l \<Longrightarrow> al_keys l = keysof a w \<and> al_bytes l = bytesof a w \<and> w \<noteq> L_NONE"
  by (auto simp: keysof_def bytesof_def)

text \<open>What a move does to the key lists and byte counts.\<close>

lemma keysof_move_to:
  "arc_nodes a k = Some n \<Longrightarrow> keysof (move_to a k w) w' =
    (let base = (if w' = an_list n then remove1 k (keysof a w') else keysof a w')
     in if w' = w \<and> w \<noteq> L_NONE then k # base else base)"
  by (auto simp: move_to_def Let_def lst_unlink_def lst_push_mru_def split: option.splits dest!: list_of_SomeD)

lemma bytesof_move_to:
  "arc_nodes a k = Some n \<Longrightarrow> bytesof (move_to a k w) w' =
    (let base = (if w' = an_list n \<and> w' \<noteq> L_NONE then sz_sub (bytesof a w') (an_len n) else bytesof a w')
     in if w' = w \<and> w \<noteq> L_NONE then sz (base + an_len n) else base)"
  by (auto simp: move_to_def Let_def lst_unlink_def lst_push_mru_def split: option.splits dest!: list_of_SomeD)

section \<open>Links between nodes, lists and byte counts\<close>

definition arc_links :: "invfs_arc \<Rightarrow> bool" where
  "arc_links a \<longleftrightarrow>
     (\<forall>w. distinct (keysof a w)) \<and>
     (\<forall>w k. k \<in> set (keysof a w) \<longleftrightarrow> w \<noteq> L_NONE \<and> (\<exists>n. arc_nodes a k = Some n \<and> an_list n = w)) \<and>
     (\<forall>w. bytesof a w = (\<Sum>k \<leftarrow> keysof a w. lenof a k))"

lemma arc_links_mem:
  "arc_links a \<Longrightarrow> arc_nodes a k = Some n \<Longrightarrow> k \<in> set (keysof a w) \<longleftrightarrow> w \<noteq> L_NONE \<and> an_list n = w"
  by (auto simp: arc_links_def)

lemma arc_links_node: "arc_links a \<Longrightarrow> k \<in> set (keysof a w) \<Longrightarrow> \<exists>n. arc_nodes a k = Some n \<and> an_list n = w"
  by (auto simp: arc_links_def)

lemma arc_links_bytes: "arc_links a \<Longrightarrow> bytesof a w = (\<Sum>k \<leftarrow> keysof a w. lenof a k)"
  by (auto simp: arc_links_def)

lemma arc_links_distinct: "arc_links a \<Longrightarrow> distinct (keysof a w)"
  by (auto simp: arc_links_def)

lemma lenof_Some: "arc_nodes a k = Some n \<Longrightarrow> lenof a k = an_len n"
  by (simp add: lenof_def)

lemma bytesof_unlink:
  assumes "arc_links a" and "arc_nodes a k = Some n" and "an_list n \<noteq> L_NONE"
  shows "bytesof a (an_list n) = an_len n + (\<Sum>k \<leftarrow> remove1 k (keysof a (an_list n)). lenof a k)"
proof -
  have "k \<in> set (keysof a (an_list n))" using assms by (simp add: arc_links_mem)
  then show ?thesis
    using sum_list_map_remove1 [of k "keysof a (an_list n)" "lenof a"] arc_links_bytes [OF assms(1)] assms(2)
    by (simp add: lenof_Some)
qed

lemma lenof_move_to [simp]: "arc_nodes a k = Some n \<Longrightarrow> lenof (move_to a k w) k' = lenof a k'"
  by (simp add: lenof_def)

lemma arc_links_move_to:
  assumes l: "arc_links a" and n: "arc_nodes a k = Some n"
    and bound: "\<forall>w'. bytesof a w' < 2 ^ 64" and room: "w \<noteq> L_NONE \<longrightarrow> bytesof a w + an_len n < 2 ^ 64"
  shows "arc_links (move_to a k w)"
  unfolding arc_links_def
proof (intro conjI allI)
  fix w' k'
  have mem: "k \<in> set (keysof a w') \<longleftrightarrow> w' \<noteq> L_NONE \<and> an_list n = w'" using l n by (rule arc_links_mem)
  have d: "distinct (keysof a w')" using l by (rule arc_links_distinct)
  show "distinct (keysof (move_to a k w) w')"
    using mem d by (auto simp: keysof_move_to [OF n] Let_def)
  show "k' \<in> set (keysof (move_to a k w) w') \<longleftrightarrow>
      w' \<noteq> L_NONE \<and> (\<exists>n'. arc_nodes (move_to a k w) k' = Some n' \<and> an_list n' = w')"
  proof (cases "k' = k")
    case True
    then show ?thesis using mem d n by (auto simp: keysof_move_to [OF n] Let_def)
  next
    case False
    then show ?thesis using l n by (auto simp: keysof_move_to [OF n] Let_def arc_links_def)
  qed
  have un: "sz_sub (bytesof a w') (an_len n) = (\<Sum>k \<leftarrow> remove1 k (keysof a w'). lenof a k)"
    if "w' = an_list n" "w' \<noteq> L_NONE"
    using bytesof_unlink [OF l n] that bound [rule_format, of w'] by (simp add: sz_sub_le)
  show "bytesof (move_to a k w) w' = (\<Sum>k' \<leftarrow> keysof (move_to a k w) w'. lenof (move_to a k w) k')"
    using un bytesof_unlink [OF l n] arc_links_bytes [OF l, of w'] room n
    by (auto simp: bytesof_move_to [OF n] keysof_move_to [OF n] Let_def sz_id lenof_Some)
qed

lemma arc_links_node_set:
  assumes l: "arc_links a"
    and n: "arc_nodes a k = Some n \<and> an_list n' = an_list n \<and> (an_len n' = an_len n \<or> an_list n = L_NONE)
            \<or> arc_nodes a k = None \<and> an_list n' = L_NONE"
  shows "arc_links (node_set k n' a)"
  unfolding arc_links_def
proof (intro conjI allI)
  fix w k'
  show "distinct (keysof (node_set k n' a) w)" using l by (simp add: arc_links_def)
  show "k' \<in> set (keysof (node_set k n' a) w) \<longleftrightarrow>
      w \<noteq> L_NONE \<and> (\<exists>m. arc_nodes (node_set k n' a) k' = Some m \<and> an_list m = w)"
    using l n by (auto simp: arc_links_def)
  have "lenof (node_set k n' a) k' = lenof a k'" if "k' \<in> set (keysof a w)" for k'
    using arc_links_node [OF l that] that n l by (auto simp: lenof_def arc_links_def)
  then show "bytesof (node_set k n' a) w = (\<Sum>k' \<leftarrow> keysof (node_set k n' a) w. lenof (node_set k n' a) k')"
    using arc_links_bytes [OF l, of w] by (simp cong: map_cong)
qed

lemma node_free_frame [simp]:
  "arc_c (node_free a k) = arc_c a" "arc_p (node_free a k) = arc_p a" "arc_nbuckets (node_free a k) = arc_nbuckets a"
  "arc_nodes (node_free a k) = (arc_nodes a)(k := None)" "arc_st (node_free a k) = arc_st a"
  by (simp_all add: node_free_def Let_def ht_remove_def split: option.splits)

lemma keysof_node_free:
  "arc_nodes a k = Some n \<Longrightarrow>
    keysof (node_free a k) w = (if w = an_list n then remove1 k (keysof a w) else keysof a w)"
  by (auto simp: node_free_def Let_def lst_unlink_def split: option.splits dest!: list_of_SomeD)

lemma bytesof_node_free:
  "arc_nodes a k = Some n \<Longrightarrow> bytesof (node_free a k) w =
    (if w = an_list n \<and> w \<noteq> L_NONE then sz_sub (bytesof a w) (an_len n) else bytesof a w)"
  by (auto simp: node_free_def Let_def lst_unlink_def split: option.splits dest!: list_of_SomeD)

lemma arc_links_node_free:
  assumes l: "arc_links a" and n: "arc_nodes a k = Some n" and bound: "\<forall>w. bytesof a w < 2 ^ 64"
  shows "arc_links (node_free a k)"
  unfolding arc_links_def
proof (intro conjI allI)
  fix w k'
  show "distinct (keysof (node_free a k) w)" using l by (auto simp: keysof_node_free [OF n] arc_links_def)
  show "k' \<in> set (keysof (node_free a k) w) \<longleftrightarrow>
      w \<noteq> L_NONE \<and> (\<exists>m. arc_nodes (node_free a k) k' = Some m \<and> an_list m = w)"
    using l n by (auto simp: keysof_node_free [OF n] arc_links_def)
  have "k \<notin> set (keysof (node_free a k) w)"
    using l n by (auto simp: keysof_node_free [OF n] arc_links_def)
  then have m: "map (lenof (node_free a k)) (keysof (node_free a k) w) = map (lenof a) (keysof (node_free a k) w)"
    by (auto simp: lenof_def)
  have "bytesof (node_free a k) w = (\<Sum>k' \<leftarrow> keysof (node_free a k) w. lenof a k')"
    using bytesof_unlink [OF l n] arc_links_bytes [OF l, of w] bound [rule_format, of w]
    by (auto simp: bytesof_node_free [OF n] keysof_node_free [OF n] sz_sub_le)
  then show "bytesof (node_free a k) w = (\<Sum>k' \<leftarrow> keysof (node_free a k) w. lenof (node_free a k) k')"
    by (simp only: m)
qed

section \<open>The hash table is the set of nodes\<close>

definition hash_ok :: "invfs_arc \<Rightarrow> bool" where
  "hash_ok a \<longleftrightarrow>
     (\<exists>e \<le> 33. arc_nbuckets a = 2 ^ e) \<and> length (arc_buckets a) = arc_nbuckets a \<and>
     (\<forall>i < arc_nbuckets a. distinct (arc_buckets a ! i)) \<and>
     (\<forall>i < arc_nbuckets a. \<forall>k. k \<in> set (arc_buckets a ! i) \<longleftrightarrow>
        k \<in> dom (arc_nodes a) \<and> arc_hash k (arc_nbuckets a) = i) \<and>
     arc_nnodes a = card (dom (arc_nodes a))"

lemma arc_hash_less:
  assumes "e \<le> 63" shows "arc_hash k (2 ^ e) < 2 ^ e"
proof -
  have "unat (x AND of_nat (2 ^ e - 1)) < 2 ^ e" for x :: u64
  proof -
    have "(of_nat (2 ^ e - 1) :: u64) = mask e" by (simp add: mask_eq_exp_minus_1 of_nat_diff)
    then have "unat (x AND of_nat (2 ^ e - 1)) = take_bit e (unat x)"
      by (simp add: unsigned_take_bit_eq flip: take_bit_eq_mask)
    then show ?thesis by simp
  qed
  then show ?thesis by (simp add: arc_hash_def Let_def)
qed

lemma hash_ok_hash: "hash_ok a \<Longrightarrow> arc_hash k (arc_nbuckets a) < arc_nbuckets a"
  using arc_hash_less by (auto simp: hash_ok_def)

lemma hash_ok_cong:
  "hash_ok a \<Longrightarrow> arc_buckets b = arc_buckets a \<Longrightarrow> arc_nbuckets b = arc_nbuckets a \<Longrightarrow>
   arc_nnodes b = arc_nnodes a \<Longrightarrow> dom (arc_nodes b) = dom (arc_nodes a) \<Longrightarrow> hash_ok b"
  by (simp add: hash_ok_def)

lemma find_key: "find (\<lambda>k. k = key) xs = (if key \<in> set xs then Some key else None)"
  by (induction xs) auto

lemma ht_find_eq: "hash_ok a \<Longrightarrow> ht_find a k = (if k \<in> dom (arc_nodes a) then Some k else None)"
  using hash_ok_hash [of a k] by (simp add: ht_find_def hash_ok_def find_key)

lemma hash_ok_insert:
  assumes h: "hash_ok a" and k: "arc_nodes a k = None" and room: "arc_nnodes a + 1 < 2 ^ 64"
  shows "hash_ok (ht_insert (node_set k n a) k)"
proof -
  have "arc_hash k (arc_nbuckets a) < arc_nbuckets a" using h by (rule hash_ok_hash)
  moreover have "card (insert k (dom (arc_nodes a))) = Suc (arc_nnodes a)" "k \<notin> dom (arc_nodes a)"
    using h k by (auto simp: hash_ok_def card_insert_if)
  ultimately show ?thesis
    using h room by (auto simp: hash_ok_def ht_insert_def Let_def nth_list_update sz_id)
qed

lemma hash_ok_free:
  assumes h: "hash_ok a" and k: "arc_nodes a k = Some n" and small: "arc_nnodes a < 2 ^ 64"
  shows "hash_ok (node_free a k)"
proof -
  define i where "i = arc_hash k (arc_nbuckets a)"
  have i: "i < arc_nbuckets a" using h unfolding i_def by (rule hash_ok_hash)
  have "k \<in> dom (arc_nodes a)" using k by auto
  then have mem: "k \<in> set (arc_buckets a ! i)" and pos: "0 < card (dom (arc_nodes a))"
    and card: "card (dom (arc_nodes a) - {k}) = card (dom (arc_nodes a)) - 1"
    using h i by (auto simp: hash_ok_def i_def card_gt_0_iff)
  have b: "arc_buckets (node_free a k) = (arc_buckets a)[i := remove1 k (arc_buckets a ! i)]"
    "arc_nnodes (node_free a k) = arc_nnodes a - 1"
    using mem pos h small by (simp_all add: node_free_def Let_def ht_remove_def i_def hash_ok_def sz_sub_le split: option.splits)
  show ?thesis
    using h i card by (auto simp: hash_ok_def b nth_list_update dom_fun_upd i_def)
qed

text \<open>Rehashing: after \<open>ht_grow\<close> every key sits in the chain of its new hash.\<close>

lemma rehash_loop:
  assumes nb: "\<And>k. arc_hash k nb < nb"
  shows "length nbk = nb \<Longrightarrow> \<forall>i < nb. distinct (nbk ! i) \<Longrightarrow> distinct ks \<Longrightarrow>
    \<forall>i < nb. set (nbk ! i) \<inter> set ks = {} \<Longrightarrow>
    length (foldl (\<lambda>nbk key. let h = arc_hash key nb in nbk[h := key # nbk ! h]) nbk ks) = nb \<and>
    (\<forall>i < nb. distinct (foldl (\<lambda>nbk key. let h = arc_hash key nb in nbk[h := key # nbk ! h]) nbk ks ! i) \<and>
      set (foldl (\<lambda>nbk key. let h = arc_hash key nb in nbk[h := key # nbk ! h]) nbk ks ! i)
      = set (nbk ! i) \<union> {k \<in> set ks. arc_hash k nb = i})"
proof (induction ks arbitrary: nbk)
  case (Cons k ks)
  define nbk' where "nbk' = nbk[arc_hash k nb := k # nbk ! arc_hash k nb]"
  have "length nbk' = nb" "\<forall>i < nb. distinct (nbk' ! i)" "\<forall>i < nb. set (nbk' ! i) \<inter> set ks = {}"
    using Cons.prems nb [of k] by (auto simp: nbk'_def nth_list_update)
  from Cons.IH [OF this(1,2) _ this(3)] Cons.prems(3) show ?case
    using nb [of k] Cons.prems(1) by (auto simp: Let_def nbk'_def nth_list_update)
qed simp

lemma hash_ok_walk:
  assumes "hash_ok a"
  shows "distinct (concat (arc_buckets a))" and "set (concat (arc_buckets a)) = dom (arc_nodes a)"
proof -
  have len: "length (arc_buckets a) = arc_nbuckets a" using assms by (simp add: hash_ok_def)
  have mem: "k \<in> set (arc_buckets a ! i) \<longleftrightarrow> k \<in> dom (arc_nodes a) \<and> arc_hash k (arc_nbuckets a) = i"
    if "i < arc_nbuckets a" for i k using assms that by (simp add: hash_ok_def)
  have "distinct (concat (map (\<lambda>i. arc_buckets a ! i) [0..<n]))
      \<and> set (concat (map (\<lambda>i. arc_buckets a ! i) [0..<n])) = {k \<in> dom (arc_nodes a). arc_hash k (arc_nbuckets a) < n}"
    if "n \<le> arc_nbuckets a" for n
    using that
  proof (induction n)
    case (Suc n)
    then show ?case using assms mem [of n] by (auto simp: hash_ok_def less_Suc_eq)
  qed simp
  from this [OF order_refl]
  show "distinct (concat (arc_buckets a))" "set (concat (arc_buckets a)) = dom (arc_nodes a)"
    using hash_ok_hash [OF assms] unfolding len [symmetric] map_nth by auto
qed

lemma hash_ok_grow:
  assumes h: "hash_ok a" and small: "arc_nbuckets a \<le> 2 ^ 32"
  shows "hash_ok (ht_grow ok a)"
proof (cases ok)
  case True
  obtain e where e: "e \<le> 33" "arc_nbuckets a = 2 ^ e" using h by (auto simp: hash_ok_def)
  then have "e \<le> 32" using small power_increasing_iff [of "2 :: nat" e 32] by simp
  define nb where "nb = sz (arc_nbuckets a * 2)"
  have nb: "nb = 2 ^ Suc e"
  proof -
    have "(2 :: nat) ^ Suc e < 2 ^ 64" using \<open>e \<le> 32\<close> by (intro power_strict_increasing) simp_all
    then show ?thesis by (simp add: nb_def e sz_id mult.commute)
  qed
  have less: "arc_hash k nb < nb" for k unfolding nb using \<open>e \<le> 32\<close> by (intro arc_hash_less) simp
  note walk = hash_ok_walk [OF h]
  note loop = rehash_loop [of nb "replicate nb []" "concat (arc_buckets a)", OF less]
  show ?thesis
    using loop walk h True \<open>e \<le> 32\<close> nb
    by (auto simp: hash_ok_def ht_grow_def Let_def simp flip: nb_def intro!: exI [of _ "Suc e"])
qed (use assms in \<open>simp add: ht_grow_def Let_def\<close>)

section \<open>Eviction\<close>

definition live :: "arc_which \<Rightarrow> bool" where "live w \<longleftrightarrow> w = L_T1 \<or> w = L_T2"

definition ghost :: "arc_which \<Rightarrow> bool" where "ghost w \<longleftrightarrow> w = L_B1 \<or> w = L_B2"

definition arc_data :: "invfs_arc \<Rightarrow> bool" where
  "arc_data a \<longleftrightarrow> (\<forall>k n. arc_nodes a k = Some n \<longrightarrow>
     (live (an_list n) \<longrightarrow> (\<exists>d. an_data n = Some d \<and> length d = an_len n)) \<and>
     (ghost (an_list n) \<longrightarrow> an_data n = None))"

text \<open>\<open>shrinks a0 a\<close>: from \<open>a0\<close> to \<open>a\<close> some live nodes became ghosts and nothing else happened.\<close>

definition shrinks :: "invfs_arc \<Rightarrow> invfs_arc \<Rightarrow> bool" where
  "shrinks a0 a \<longleftrightarrow>
     arc_c a = arc_c a0 \<and> arc_p a = arc_p a0 \<and> arc_buckets a = arc_buckets a0 \<and>
     arc_nbuckets a = arc_nbuckets a0 \<and> arc_nnodes a = arc_nnodes a0 \<and>
     dom (arc_nodes a) = dom (arc_nodes a0) \<and>
     (\<forall>k n n0. arc_nodes a k = Some n \<longrightarrow> arc_nodes a0 k = Some n0 \<longrightarrow>
        n = n0 \<or> live (an_list n0) \<and> ghost (an_list n) \<and> an_data n = None \<and> an_len n = an_len n0) \<and>
     bytesof a L_T1 + bytesof a L_B1 = bytesof a0 L_T1 + bytesof a0 L_B1 \<and>
     bytesof a L_T2 + bytesof a L_B2 = bytesof a0 L_T2 + bytesof a0 L_B2 \<and>
     bytesof a L_T1 \<le> bytesof a0 L_T1 \<and> bytesof a L_T2 \<le> bytesof a0 L_T2"

lemma shrinks_refl: "shrinks a a"
  by (simp add: shrinks_def)

lemma live_ghost [simp]: "live w \<Longrightarrow> \<not> ghost w" "live L_T1" "live L_T2" "ghost L_B1" "ghost L_B2"
  "\<not> live L_B1" "\<not> live L_B2" "\<not> live L_NONE" "\<not> ghost L_NONE" "\<not> ghost L_T1" "\<not> ghost L_T2"
  by (auto simp: live_def ghost_def)

lemma shrinks_trans: "shrinks a b \<Longrightarrow> shrinks b c \<Longrightarrow> shrinks a c"
proof -
  assume ab: "shrinks a b" and bc: "shrinks b c"
  have "n = n0 \<or> live (an_list n0) \<and> ghost (an_list n) \<and> an_data n = None \<and> an_len n = an_len n0"
    if "arc_nodes c k = Some n" "arc_nodes a k = Some n0" for k n n0
  proof -
    have "k \<in> dom (arc_nodes b)" using ab that(2) by (auto simp: shrinks_def)
    then obtain m where m: "arc_nodes b k = Some m" by auto
    have "m = n0 \<or> live (an_list n0) \<and> ghost (an_list m) \<and> an_data m = None \<and> an_len m = an_len n0"
      using ab m that(2) by (simp add: shrinks_def)
    moreover have "n = m \<or> live (an_list m) \<and> ghost (an_list n) \<and> an_data n = None \<and> an_len n = an_len m"
      using bc m that(1) by (simp add: shrinks_def)
    ultimately show ?thesis by auto
  qed
  then show ?thesis using ab bc by (simp add: shrinks_def)
qed

definition evict_ok :: "invfs_arc \<Rightarrow> bool" where
  "evict_ok a \<longleftrightarrow> arc_links a \<and> arc_data a
     \<and> bytesof a L_T1 + bytesof a L_B1 < 2 ^ 64 \<and> bytesof a L_T2 + bytesof a L_B2 < 2 ^ 64"

lemma evict_ok_bound: "evict_ok a \<Longrightarrow> bytesof a w < 2 ^ 64"
  by (cases w) (auto simp: evict_ok_def)

lemma stat_evict_view [simp]:
  "keysof (stat_evict a) w = keysof a w" "bytesof (stat_evict a) w = bytesof a w"
  "arc_nodes (stat_evict a) = arc_nodes a" "arc_c (stat_evict a) = arc_c a" "arc_p (stat_evict a) = arc_p a"
  "arc_buckets (stat_evict a) = arc_buckets a" "arc_nbuckets (stat_evict a) = arc_nbuckets a"
  "arc_nnodes (stat_evict a) = arc_nnodes a" "lenof (stat_evict a) k = lenof a k"
  by (simp_all add: stat_evict_def lenof_def)

lemma arc_links_stat [simp]: "arc_links (stat_evict a) = arc_links a"
  by (simp add: arc_links_def)

lemma arc_demote_ok:
  assumes ok: "evict_ok a" and v: "v \<in> set (keysof a w)" and w: "w = L_T1 \<and> g = L_B1 \<or> w = L_T2 \<and> g = L_B2"
  shows "evict_ok (arc_demote a v g)" and "shrinks a (arc_demote a v g)"
    and "length (keysof (arc_demote a v g) w) < length (keysof a w)"
    and "w' \<noteq> w \<Longrightarrow> w' \<noteq> g \<Longrightarrow> keysof (arc_demote a v g) w' = keysof a w'"
proof -
  have links: "arc_links a" using ok by (simp add: evict_ok_def)
  obtain n where n: "arc_nodes a v = Some n" "an_list n = w" using arc_links_node [OF links v] by blast
  define b where "b = node_set v (n\<lparr>an_data := None\<rparr>) a"
  have b: "arc_nodes b v = Some (n\<lparr>an_data := None\<rparr>)" by (simp add: b_def)
  have lb: "arc_links b" unfolding b_def using links n by (intro arc_links_node_set) auto
  have views: "keysof b = keysof a" "bytesof b = bytesof a" by (auto simp: b_def fun_eq_iff)
  have dem: "arc_demote a v g = stat_evict (move_to b v g)" using n by (simp add: arc_demote_def b_def)
  have len: "an_len n \<le> bytesof a w"
    using bytesof_unlink [OF links n(1)] w n(2) by auto
  have ln: "arc_links (move_to b v g)"
    using w len ok evict_ok_bound [OF ok]
    by (intro arc_links_move_to [OF lb b]) (auto simp: views evict_ok_def)
  have by1: "bytesof (move_to b v g) w = bytesof a w - an_len n" "bytesof (move_to b v g) g = bytesof a g + an_len n"
    "w' \<noteq> w \<Longrightarrow> w' \<noteq> g \<Longrightarrow> bytesof (move_to b v g) w' = bytesof a w'" for w'
    using w n(2) len ok evict_ok_bound [OF ok]
    by (auto simp: bytesof_move_to [OF b] views Let_def sz_sub_le sz_id evict_ok_def)
  show "evict_ok (arc_demote a v g)"
    using ok ln by1 len w n by (auto simp: evict_ok_def dem arc_data_def b_def)
  show "shrinks a (arc_demote a v g)"
    using by1 len w n by (auto simp: shrinks_def dem b_def)
  show "length (keysof (arc_demote a v g) w) < length (keysof a w)"
    using v w n(2) length_pos_if_in_set [OF v]
    by (auto simp: dem keysof_move_to [OF b] views length_remove1 Let_def)
  show "keysof (arc_demote a v g) w' = keysof a w'" if "w' \<noteq> w" "w' \<noteq> g"
    using that w n(2) by (auto simp: dem keysof_move_to [OF b] views Let_def)
qed

lemma last_in: "0 < length xs \<Longrightarrow> last xs \<in> set xs"
  by simp

lemma arc_replace_step_ok:
  assumes ok: "evict_ok a" and live: "length (keysof a L_T1) > 0 \<or> length (keysof a L_T2) > 0"
  shows "evict_ok (arc_replace_step b2 a) \<and> shrinks a (arc_replace_step b2 a)
    \<and> length (keysof (arc_replace_step b2 a) L_T1) + length (keysof (arc_replace_step b2 a) L_T2)
      < length (keysof a L_T1) + length (keysof a L_T2)"
proof -
  have t1: ?thesis if "arc_replace_step b2 a = arc_demote a (last (keysof a L_T1)) L_B1" "length (keysof a L_T1) > 0"
    using arc_demote_ok [OF ok last_in [OF that(2)], of L_B1] that(1) by auto
  have t2: ?thesis if "arc_replace_step b2 a = arc_demote a (last (keysof a L_T2)) L_B2" "length (keysof a L_T2) > 0"
    using arc_demote_ok [OF ok last_in [OF that(2)], of L_B2] that(1) by auto
  show ?thesis
    using t1 t2 live by (auto simp: arc_replace_step_def split: if_splits)
qed

lemma arc_replace_ok:
  assumes ok: "evict_ok a" and c: "arc_c a < 2 ^ 62" and need: "need \<le> arc_c a"
    and live: "bytesof a L_T1 + bytesof a L_T2 \<le> arc_c a"
  obtains a' where "arc_replace a need b2 = Some a'" and "evict_ok a'" and "shrinks a a'"
    and "bytesof a' L_T1 + bytesof a' L_T2 + need \<le> arc_c a"
proof -
  let ?P = "\<lambda>x. evict_ok x \<and> shrinks a x"
  let ?b = "\<lambda>a. sz (sz (al_bytes (arc_t1 a) + al_bytes (arc_t2 a)) + need) > arc_c a
            \<and> (al_count (arc_t1 a) > 0 \<or> al_count (arc_t2 a) > 0)"
  have step: "?P (arc_replace_step b2 x)" if "?P x" "?b x" for x
    using arc_replace_step_ok [of x b2] that shrinks_trans by auto
  have "\<exists>t. while_option ?b (arc_replace_step b2) a = Some t"
    by (rule measure_while_option_Some [where P = ?P and f = "\<lambda>x. length (keysof x L_T1) + length (keysof x L_T2)"])
       (use step arc_replace_step_ok ok shrinks_refl in auto)
  then obtain t where t: "arc_replace a need b2 = Some t" unfolding arc_replace_def by blast
  have inv: "?P t"
    using while_option_rule [where P = ?P, OF step t [unfolded arc_replace_def]] ok shrinks_refl by blast
  have small: "bytesof t L_T1 + bytesof t L_T2 \<le> arc_c a" and c': "arc_c t = arc_c a"
    using inv live by (auto simp: shrinks_def)
  have stop: "\<not> ?b t" using while_option_stop [OF t [unfolded arc_replace_def]] .
  have wrap: "sz (sz (bytesof t L_T1 + bytesof t L_T2) + need) = bytesof t L_T1 + bytesof t L_T2 + need"
    using small c need by (simp add: sz_id)
  have "bytesof t L_T1 + bytesof t L_T2 + need \<le> arc_c a"
  proof (cases "keysof t L_T1 = [] \<and> keysof t L_T2 = []")
    case True
    then have "bytesof t L_T1 = 0" "bytesof t L_T2 = 0"
      using arc_links_bytes [of t] inv by (simp_all add: evict_ok_def)
    then show ?thesis using need by simp
  next
    case False
    then show ?thesis using stop c' by (simp add: wrap not_less)
  qed
  with t inv that show thesis by blast
qed

section \<open>Trimming the ghost lists\<close>

definition arc_total :: "invfs_arc \<Rightarrow> nat" where
  "arc_total a = bytesof a L_T1 + bytesof a L_T2 + bytesof a L_B1 + bytesof a L_B2"

definition core_ok :: "invfs_arc \<Rightarrow> bool" where
  "core_ok a \<longleftrightarrow> arc_links a \<and> arc_data a \<and> hash_ok a \<and> arc_total a < 2 ^ 64 \<and> arc_nnodes a < 2 ^ 64"

text \<open>\<open>trims a0 a\<close>: from \<open>a0\<close> to \<open>a\<close> some ghosts were freed and nothing else happened.\<close>

definition trims :: "invfs_arc \<Rightarrow> invfs_arc \<Rightarrow> bool" where
  "trims a0 a \<longleftrightarrow>
     arc_c a = arc_c a0 \<and> arc_p a = arc_p a0 \<and> arc_nbuckets a = arc_nbuckets a0 \<and>
     arc_nodes a \<subseteq>\<^sub>m arc_nodes a0 \<and>
     (\<forall>k n. arc_nodes a0 k = Some n \<longrightarrow> \<not> ghost (an_list n) \<longrightarrow> arc_nodes a k = Some n) \<and>
     bytesof a L_T1 = bytesof a0 L_T1 \<and> bytesof a L_T2 = bytesof a0 L_T2 \<and>
     bytesof a L_B1 \<le> bytesof a0 L_B1 \<and> bytesof a L_B2 \<le> bytesof a0 L_B2"

lemma trims_refl: "trims a a"
  by (simp add: trims_def)

lemma trims_trans: "trims a b \<Longrightarrow> trims b c \<Longrightarrow> trims a c"
  unfolding trims_def using map_le_trans by fastforce

lemma core_ok_bound: "core_ok a \<Longrightarrow> bytesof a w < 2 ^ 64"
  by (cases w) (auto simp: core_ok_def arc_total_def)

lemma node_free_ghost:
  assumes ok: "core_ok a" and v: "v \<in> set (keysof a w)" and w: "ghost w"
  shows "core_ok (node_free a v)" and "trims a (node_free a v)"
    and "length (keysof (node_free a v) w) < length (keysof a w)"
    and "w' \<noteq> w \<Longrightarrow> keysof (node_free a v) w' = keysof a w'"
    and "w' \<noteq> w \<Longrightarrow> bytesof (node_free a v) w' = bytesof a w'"
proof -
  have l: "arc_links a" "hash_ok a" "arc_data a" using ok by (simp_all add: core_ok_def)
  obtain n where n: "arc_nodes a v = Some n" "an_list n = w" using arc_links_node [OF l(1) v] by blast
  have nle: "an_len n \<le> bytesof a w"
    using bytesof_unlink [OF l(1) n(1)] n(2) w by (cases w) auto
  then have le: "bytesof (node_free a v) w' \<le> bytesof a w'" for w'
    using sz_sub_le [OF nle core_ok_bound [OF ok]] n(2) by (simp add: bytesof_node_free [OF n(1)])
  show other: "keysof (node_free a v) w' = keysof a w'" "bytesof (node_free a v) w' = bytesof a w'" if "w' \<noteq> w" for w'
    using that n(2) by (auto simp: keysof_node_free [OF n(1)] bytesof_node_free [OF n(1)])
  show "length (keysof (node_free a v) w) < length (keysof a w)"
    using v n(2) length_pos_if_in_set [OF v] by (simp add: keysof_node_free [OF n(1)] length_remove1)
  have nn: "arc_nnodes (node_free a v) \<le> arc_nnodes a"
    using hash_ok_free [OF l(2) n(1)] l(2) ok by (auto simp: core_ok_def hash_ok_def intro!: card_mono)
  have "arc_total (node_free a v) \<le> arc_total a"
    unfolding arc_total_def by (intro add_mono le)
  then show "core_ok (node_free a v)"
    using arc_links_node_free [OF l(1) n(1)] hash_ok_free [OF l(2) n(1)] core_ok_bound [OF ok] ok l(3) nn
    by (auto simp: core_ok_def arc_data_def)
  show "trims a (node_free a v)"
    using le other n w by (auto simp: trims_def map_le_def ghost_def)
qed

lemma trim_loop:
  assumes ok: "core_ok a" and w: "ghost w" and ne: "\<And>x. b x \<Longrightarrow> keysof x w \<noteq> []"
  obtains t where "while_option b (\<lambda>x. node_free x (last (keysof x w))) a = Some t"
    and "core_ok t" and "trims a t" and "\<not> b t" and "\<forall>w'. w' \<noteq> w \<longrightarrow> bytesof t w' = bytesof a w'"
proof -
  let ?P = "\<lambda>x. core_ok x \<and> trims a x \<and> (\<forall>w'. w' \<noteq> w \<longrightarrow> bytesof x w' = bytesof a w')"
  let ?c = "\<lambda>x. node_free x (last (keysof x w))"
  have step: "?P (?c x)" if "?P x" "b x" for x
    using node_free_ghost [of x "last (keysof x w)" w] that ne [OF that(2)] w trims_trans by auto
  have "\<exists>t. while_option b ?c a = Some t"
  proof (rule measure_while_option_Some [where P = ?P and f = "\<lambda>x. length (keysof x w)"])
    show "?P (?c x) \<and> length (keysof (?c x) w) < length (keysof x w)" if "?P x" "b x" for x
      using step [OF that] node_free_ghost(3) [of x "last (keysof x w)" w] that ne [OF that(2)] w by simp
  qed (use ok trims_refl in simp)
  then obtain t where t: "while_option b ?c a = Some t" by blast
  have "?P t"
    by (rule while_option_rule [where P = ?P, OF step t]) (use ok trims_refl in auto)
  with t while_option_stop [OF t] that show thesis by blast
qed

lemma arc_trim_ghosts_ok:
  assumes ok: "core_ok a" and c: "arc_c a < 2 ^ 62" and live: "bytesof a L_T1 + bytesof a L_T2 \<le> arc_c a"
  obtains a' where "arc_trim_ghosts a = Some a'" and "core_ok a'" and "trims a a'"
    and "bytesof a' L_T1 + bytesof a' L_B1 \<le> arc_c a" and "arc_total a' \<le> 2 * arc_c a"
proof -
  let ?b1 = "\<lambda>a. keysof a L_B1 \<noteq> [] \<and> sz (bytesof a L_T1 + bytesof a L_B1) > arc_c a"
  let ?b2 = "\<lambda>a. keysof a L_B2 \<noteq> [] \<and>
     sz (sz (sz (bytesof a L_T1 + bytesof a L_T2) + bytesof a L_B1) + bytesof a L_B2) > sz (2 * arc_c a)"
  obtain a1 where a1: "while_option ?b1 (\<lambda>x. node_free x (last (keysof x L_B1))) a = Some a1"
    "core_ok a1" "trims a a1" "\<not> ?b1 a1"
    by (rule trim_loop [OF ok, of L_B1 ?b1]) simp_all
  obtain a2 where a2: "while_option ?b2 (\<lambda>x. node_free x (last (keysof x L_B2))) a1 = Some a2"
    "core_ok a2" "trims a1 a2" "\<not> ?b2 a2" "\<forall>w'. w' \<noteq> L_B2 \<longrightarrow> bytesof a2 w' = bytesof a1 w'"
    by (rule trim_loop [OF a1(2), of L_B2 ?b2]) simp_all
  have empty: "bytesof x w = 0" if "core_ok x" "keysof x w = []" for x w
    using arc_links_bytes [of x w] that by (simp add: core_ok_def)
  have t1: "bytesof a1 L_T1 + bytesof a1 L_B1 \<le> arc_c a"
    using a1(2,3,4) empty [OF a1(2), of L_B1] live c
    by (cases "keysof a1 L_B1 = []") (auto simp: trims_def sz_id core_ok_def arc_total_def not_less)
  have "bytesof a2 L_T1 + bytesof a2 L_B1 \<le> arc_c a" using t1 a2(3,5) by (simp add: trims_def)
  moreover have "arc_total a2 \<le> 2 * arc_c a"
  proof (cases "keysof a2 L_B2 = []")
    case True
    then show ?thesis
      using empty [OF a2(2), of L_B2] t1 a1(3) a2(3,5) live by (simp add: arc_total_def trims_def)
  next
    case False
    then show ?thesis
      using a2(2,4) a1(3) a2(3) c by (simp add: not_less sz_id core_ok_def arc_total_def trims_def)
  qed
  moreover have "arc_trim_ghosts a = Some a2" using a1(1) a2(1) by (simp add: arc_trim_ghosts_def)
  ultimately show thesis using that a2(2) trims_trans [OF a1(3) a2(3)] by blast
qed

section \<open>The cache invariant\<close>

definition all_linked :: "u64 set \<Rightarrow> invfs_arc \<Rightarrow> bool" where
  "all_linked F a \<longleftrightarrow> (\<forall>k n. arc_nodes a k = Some n \<longrightarrow> k \<notin> F \<longrightarrow> an_list n \<noteq> L_NONE)"

definition limits_ok :: "invfs_arc \<Rightarrow> bool" where
  "limits_ok a \<longleftrightarrow> 0 < arc_c a \<and> arc_c a < 2 ^ 62 \<and> arc_p a \<le> arc_c a"

definition arc_inv :: "invfs_arc \<Rightarrow> bool" where
  "arc_inv a \<longleftrightarrow> core_ok a \<and> all_linked {} a \<and> limits_ok a \<and>
     bytesof a L_T1 + bytesof a L_T2 \<le> arc_c a \<and>
     bytesof a L_T1 + bytesof a L_B1 \<le> arc_c a \<and>
     arc_total a \<le> 2 * arc_c a"

definition contents :: "invfs_arc \<Rightarrow> u64 \<rightharpoonup> bytes" where
  "contents a k = Option.bind (arc_nodes a k) an_data"

lemma contents_stat [simp]: "contents (a\<lparr>arc_st := s\<rparr>) = contents a" "contents (a\<lparr>arc_p := q\<rparr>) = contents a"
  by (simp_all add: contents_def fun_eq_iff)

lemma shrinks_node:
  assumes "shrinks a b" and "arc_nodes a k = Some n0"
  obtains n where "arc_nodes b k = Some n"
    and "n = n0 \<or> live (an_list n0) \<and> ghost (an_list n) \<and> an_data n = None \<and> an_len n = an_len n0"
proof -
  obtain n where n: "arc_nodes b k = Some n" using assms unfolding shrinks_def by (metis domD domI)
  moreover have "n = n0 \<or> live (an_list n0) \<and> ghost (an_list n) \<and> an_data n = None \<and> an_len n = an_len n0"
    using assms n by (simp add: shrinks_def)
  ultimately show thesis by (rule that)
qed

lemma contents_shrinks:
  assumes "shrinks a b" shows "contents b k = contents a k \<or> contents b k = None"
proof (cases "arc_nodes a k")
  case None
  with assms have "arc_nodes b k = None" unfolding shrinks_def by (metis domIff)
  then show ?thesis by (simp add: contents_def)
next
  case (Some n0)
  with assms obtain n where "arc_nodes b k = Some n" "n = n0 \<or> an_data n = None"
    by (metis shrinks_node)
  with Some show ?thesis by (auto simp: contents_def)
qed

lemma contents_trims:
  assumes "trims a b" and "arc_data a" shows "contents b k = contents a k"
proof (cases "arc_nodes a k")
  case None
  with assms have "arc_nodes b k = None" unfolding trims_def map_le_def by (metis domIff)
  with None show ?thesis by (simp add: contents_def)
next
  case (Some n)
  show ?thesis
  proof (cases "ghost (an_list n)")
    case True
    then have "an_data n = None" using assms(2) Some by (auto simp: arc_data_def)
    moreover have "arc_nodes b k = None \<or> arc_nodes b k = Some n"
      using assms(1) Some by (auto simp: trims_def map_le_def) (metis domIff)
    ultimately show ?thesis using Some by (auto simp: contents_def)
  next
    case False
    with assms(1) Some show ?thesis by (simp add: trims_def contents_def)
  qed
qed

lemma stat_views [simp]:
  "arc_links (a\<lparr>arc_st := s\<rparr>) = arc_links a" "hash_ok (a\<lparr>arc_st := s\<rparr>) = hash_ok a"
  "arc_data (a\<lparr>arc_st := s\<rparr>) = arc_data a" "arc_total (a\<lparr>arc_st := s\<rparr>) = arc_total a"
  "core_ok (a\<lparr>arc_st := s\<rparr>) = core_ok a" "arc_inv (a\<lparr>arc_st := s\<rparr>) = arc_inv a"
  by (simp_all add: arc_links_def hash_ok_def arc_data_def arc_total_def core_ok_def arc_inv_def
      all_linked_def limits_ok_def lenof_def)

text \<open>The last steps of every insertion: a detached node with its new data goes on a live
  list, then the ghosts are trimmed.\<close>

lemma place_ok:
  assumes l: "arc_links b" "hash_ok b" "arc_data b" "all_linked {key} b" "limits_ok b"
    and n: "arc_nodes b key = Some \<lparr>an_data = Some data, an_len = length data, an_list = L_NONE\<rparr>"
    and w: "live w" and room: "bytesof b L_T1 + bytesof b L_T2 + length data \<le> arc_c b"
    and g: "bytesof b L_T1 + bytesof b L_B1 \<le> arc_c b" "bytesof b L_T2 + bytesof b L_B2 \<le> 2 * arc_c b"
    and nn: "arc_nnodes b < 2 ^ 64"
  obtains a where "arc_trim_ghosts ((move_to b key w)\<lparr>arc_st := s\<rparr>) = Some a" and "arc_inv a"
    and "contents a = (contents b)(key \<mapsto> data)" and "arc_c a = arc_c b"
proof -
  define m where "m = (move_to b key w)\<lparr>arc_st := s\<rparr>"
  have c: "arc_c b < 2 ^ 62" using l(5) by (simp add: limits_ok_def)
  have bound: "\<forall>w'. bytesof b w' < 2 ^ 64" using room g c by (auto split: arc_which.split intro: arc_which.induct)
  have w': "w \<noteq> L_NONE" using w by auto
  have by1: "bytesof m x = bytesof b x + (if x = w then length data else 0)" for x
    using room c w' bound w by (auto simp: m_def bytesof_move_to [OF n] Let_def sz_id live_def)
  have lm: "arc_links m"
    unfolding m_def stat_views using room c w bound
    by (intro arc_links_move_to [OF l(1) n]) (auto simp: live_def)
  have hm: "hash_ok m" unfolding m_def stat_views using n by (intro hash_ok_cong [OF l(2)]) auto
  have dm: "arc_data m" using l(3) n w by (auto simp: m_def arc_data_def)
  have cm: "arc_c m = arc_c b" by (simp add: m_def)
  have tm: "bytesof m L_T1 + bytesof m L_T2 \<le> arc_c m"
    using room w by (auto simp: by1 live_def cm)
  have core: "core_ok m"
    using lm hm dm nn room g c w by (auto simp: core_ok_def arc_total_def by1 live_def) (auto simp: m_def)
  obtain a where a: "arc_trim_ghosts m = Some a" "core_ok a" "trims m a"
    "bytesof a L_T1 + bytesof a L_B1 \<le> arc_c m" "arc_total a \<le> 2 * arc_c m"
    using arc_trim_ghosts_ok [OF core] c tm cm by auto
  have "all_linked {} m" using l(4) n w' by (auto simp: all_linked_def m_def)
  then have "all_linked {} a" using a(3) by (auto simp: all_linked_def trims_def map_le_def) (metis domI)
  then have "arc_inv a" using a tm l(5) cm by (auto simp: arc_inv_def limits_ok_def trims_def m_def)
  moreover have "contents a = contents m" using contents_trims [OF a(3) dm] by (simp add: fun_eq_iff)
  moreover have "contents m = (contents b)(key \<mapsto> data)" using n by (auto simp: contents_def m_def fun_eq_iff)
  moreover have "arc_c a = arc_c b" using a(3) cm by (simp add: trims_def)
  ultimately show thesis using that a(1) by (simp add: m_def)
qed

section \<open>Insertion\<close>

lemma detach_ok:
  assumes l: "arc_links a" "hash_ok a" "arc_data a" "all_linked {key} a"
    and n: "arc_nodes a key = Some n" and bound: "\<forall>w. bytesof a w < 2 ^ 64"
  shows "arc_links (move_to a key L_NONE)" and "hash_ok (move_to a key L_NONE)"
    and "arc_data (move_to a key L_NONE)" and "all_linked {key} (move_to a key L_NONE)"
    and "bytesof (move_to a key L_NONE) w \<le> bytesof a w"
proof -
  show "arc_links (move_to a key L_NONE)" using bound by (intro arc_links_move_to [OF l(1) n]) auto
  show "hash_ok (move_to a key L_NONE)" using n by (intro hash_ok_cong [OF l(2)]) auto
  show "arc_data (move_to a key L_NONE)" using l(3) n by (auto simp: arc_data_def)
  show "all_linked {key} (move_to a key L_NONE)" using l(4) n by (auto simp: all_linked_def)
  have "an_len n \<le> bytesof a (an_list n)" if "an_list n \<noteq> L_NONE"
    using bytesof_unlink [OF l(1) n that] by simp
  then show "bytesof (move_to a key L_NONE) w \<le> bytesof a w"
    using sz_sub_le [of "an_len n" "bytesof a w"] bound by (auto simp: bytesof_move_to [OF n] Let_def)
qed

lemma floating_data_ok:
  assumes "arc_links a" and "hash_ok a" and "arc_data a" and "all_linked {key} a"
    and "arc_nodes a key = Some n" and "an_list n = L_NONE" and "an_list n' = L_NONE"
  shows "arc_links (node_set key n' a)" and "hash_ok (node_set key n' a)" and "arc_data (node_set key n' a)"
    and "all_linked {key} (node_set key n' a)"
proof -
  show "arc_links (node_set key n' a)" using assms by (intro arc_links_node_set) auto
  show "hash_ok (node_set key n' a)" using assms(5) by (intro hash_ok_cong [OF assms(2)]) auto
  show "arc_data (node_set key n' a)" using assms(3,7) by (auto simp: arc_data_def)
  show "all_linked {key} (node_set key n' a)" using assms(4) by (auto simp: all_linked_def)
qed

lemma arc_inv_parts:
  assumes "arc_inv a"
  shows "arc_links a" "hash_ok a" "arc_data a" "all_linked F a" "limits_ok a" "evict_ok a"
    "\<forall>w. bytesof a w < 2 ^ 64" "arc_nnodes a < 2 ^ 64" "arc_c a < 2 ^ 62"
    "bytesof a L_T1 + bytesof a L_T2 \<le> arc_c a" "bytesof a L_T1 + bytesof a L_B1 \<le> arc_c a"
    "bytesof a L_T2 + bytesof a L_B2 \<le> 2 * arc_c a"
  using assms core_ok_bound [of a]
  by (auto simp: arc_inv_def core_ok_def all_linked_def limits_ok_def evict_ok_def arc_total_def)

text \<open>What \<open>arc_replace\<close> leaves, in the terms the three insertion cases need.\<close>

lemma arc_replace_floating:
  assumes ok: "evict_ok a" and c: "arc_c a < 2 ^ 62" and need: "need \<le> arc_c a"
    and live: "bytesof a L_T1 + bytesof a L_T2 \<le> arc_c a" and h: "hash_ok a" and al: "all_linked F a"
  obtains b where "arc_replace a need f = Some b" and "evict_ok b" and "shrinks a b" and "hash_ok b"
    and "all_linked F b" and "bytesof b L_T1 + bytesof b L_T2 + need \<le> arc_c a"
proof -
  obtain b where b: "arc_replace a need f = Some b" "evict_ok b" "shrinks a b"
    "bytesof b L_T1 + bytesof b L_T2 + need \<le> arc_c a"
    using arc_replace_ok [OF ok c need live] by blast
  moreover have "hash_ok b" using b(3) by (intro hash_ok_cong [OF h]) (auto simp: shrinks_def)
  moreover have "all_linked F b"
    unfolding all_linked_def
  proof (intro allI impI)
    fix k n assume n: "arc_nodes b k = Some n" and "k \<notin> F"
    have "k \<in> dom (arc_nodes a)" using b(3) n by (auto simp: shrinks_def)
    then obtain n0 where n0: "arc_nodes a k = Some n0" by auto
    with al \<open>k \<notin> F\<close> have "an_list n0 \<noteq> L_NONE" by (simp add: all_linked_def)
    with shrinks_node [OF b(3) n0] n show "an_list n \<noteq> L_NONE" by (metis live_ghost(9) option.inject)
  qed
  ultimately show thesis using that by blast
qed

lemma evict_ok_cong:
  assumes "arc_links a" "arc_data a" "\<And>w. bytesof a w \<le> bytesof b w" "evict_ok b"
  shows "evict_ok a"
  using assms(1,2,4) add_mono [OF assms(3) assms(3), of L_T1 L_B1] add_mono [OF assms(3) assms(3), of L_T2 L_B2]
  by (auto simp: evict_ok_def)

lemma evict_ok_parts: "evict_ok a \<Longrightarrow> arc_links a" "evict_ok a \<Longrightarrow> arc_data a"
  by (simp_all add: evict_ok_def)

lemma arc_put_live_ok:
  assumes inv: "arc_inv a" and n: "arc_nodes a key = Some n" and len: "length data * 2 \<le> arc_c a"
  obtains a' where "arc_put_live a key data (length data) = Some a'" and "arc_inv a'"
    and "arc_c a' = arc_c a" and "contents a' key = Some data" and "\<forall>k. k \<noteq> key \<longrightarrow> contents a' k = contents a k \<or> contents a' k = None"
proof -
  note p = arc_inv_parts [OF inv]
  define a1 where "a1 = move_to a key L_NONE"
  note d = detach_ok [OF p(1-4) n p(7), folded a1_def]
  have n1: "arc_nodes a1 key = Some (n\<lparr>an_list := L_NONE\<rparr>)" using n by (simp add: a1_def)
  define n2 where "n2 = n\<lparr>an_list := L_NONE, an_data := None\<rparr>"
  define a2 where "a2 = node_set key n2 a1"
  note f = floating_data_ok [OF d(1-4) n1, where n' = n2, folded a2_def]
  have a2: "arc_nodes a2 key = Some n2" "arc_c a2 = arc_c a" "arc_p a2 = arc_p a" "arc_nnodes a2 = arc_nnodes a"
    by (simp_all add: a2_def a1_def)
  have le: "bytesof a2 w \<le> bytesof a w" for w using d(5) by (simp add: a2_def)
  have ev: "evict_ok a2" using f le p(6) by (intro evict_ok_cong [of a2 a]) (auto simp: n2_def)
  have live: "bytesof a2 L_T1 + bytesof a2 L_T2 \<le> arc_c a2" using le add_mono [OF le le] p(10) a2 by (metis order_trans)
  obtain b where b: "arc_replace a2 (length data) False = Some b" "evict_ok b" "shrinks a2 b" "hash_ok b"
    "all_linked {key} b" "bytesof b L_T1 + bytesof b L_T2 + length data \<le> arc_c a2"
    using arc_replace_floating [OF ev _ _ live, of "length data" "{key}" False] f p(9) len a2 by (auto simp: n2_def)
  have nb: "arc_nodes b key = Some n2"
    by (rule shrinks_node [OF b(3) a2(1)]) (simp add: n2_def)
  define n3 where "n3 = \<lparr>an_data = Some data, an_len = length data, an_list = L_NONE\<rparr>"
  define a4 where "a4 = node_set key n3 b"
  have n3: "n2\<lparr>an_len := length data, an_data := Some data\<rparr> = n3" by (simp add: n2_def n3_def)
  note fb = floating_data_ok [OF evict_ok_parts(1) [OF b(2)] b(4) evict_ok_parts(2) [OF b(2)] b(5) nb, where n' = n3, folded a4_def]
  have lim: "limits_ok a4" "arc_c a4 = arc_c a" "arc_nnodes a4 < 2 ^ 64"
    using b(3) p(5,8) a2 by (auto simp: a4_def limits_ok_def shrinks_def)
  have g: "bytesof a4 L_T1 + bytesof a4 L_B1 \<le> arc_c a4" "bytesof a4 L_T2 + bytesof a4 L_B2 \<le> 2 * arc_c a4"
    using b(3) le add_mono [OF le le, of L_T1 L_B1] add_mono [OF le le, of L_T2 L_B2] p(11,12) lim(2)
    by (auto simp: a4_def shrinks_def)
  obtain r where r: "arc_trim_ghosts ((move_to a4 key L_T2)\<lparr>arc_st := arc_st (move_to a4 key L_T2)\<rparr>) = Some r"
    "arc_inv r" "contents r = (contents a4)(key \<mapsto> data)" "arc_c r = arc_c a4"
    by (rule place_ok [of a4 key data L_T2])
       (use fb lim g b(6) a2 in \<open>auto simp: n2_def n3_def a4_def\<close>)
  have "(move_to a4 key L_T2)\<lparr>arc_st := arc_st (move_to a4 key L_T2)\<rparr> = move_to a4 key L_T2"
    by (simp del: move_to_frame)
  then have "arc_trim_ghosts (move_to a4 key L_T2) = Some r" using r(1) by (simp only:)
  then have "arc_put_live a key data (length data) = Some r"
    using b(1) n n1 nb by (simp add: arc_put_live_def Let_def a1_def [symmetric] n2_def [symmetric]
        a2_def [symmetric] n3 a4_def [symmetric])
  moreover have "contents r k = contents a k \<or> contents r k = None" if "k \<noteq> key" for k
    using contents_shrinks [OF b(3), of k] that by (auto simp: r(3) a4_def a2_def a1_def contents_def)
  ultimately show thesis using that r lim(2) by simp
qed

lemma arc_adapt_view:
  assumes "limits_ok a"
  obtains q where "arc_adapt a key len = a\<lparr>arc_p := q\<rparr>" and "q \<le> arc_c a"
proof -
  have "arc_adapt a key len = a\<lparr>arc_p := arc_p (arc_adapt a key len)\<rparr>"
    unfolding arc_adapt_def Let_def by simp
  moreover have "arc_p (arc_adapt a key len) \<le> arc_c a"
    using assms unfolding limits_ok_def arc_adapt_def Let_def by auto
  ultimately show thesis by (rule that)
qed

lemma p_views [simp]:
  "arc_links (a\<lparr>arc_p := q\<rparr>) = arc_links a" "hash_ok (a\<lparr>arc_p := q\<rparr>) = hash_ok a"
  "arc_data (a\<lparr>arc_p := q\<rparr>) = arc_data a" "evict_ok (a\<lparr>arc_p := q\<rparr>) = evict_ok a"
  "all_linked F (a\<lparr>arc_p := q\<rparr>) = all_linked F a"
  by (simp_all add: arc_links_def hash_ok_def arc_data_def evict_ok_def all_linked_def lenof_def)

lemma arc_put_ghost_ok:
  assumes inv: "arc_inv a" and n: "arc_nodes a key = Some n" "an_data n = None" and len: "length data * 2 \<le> arc_c a"
  obtains a' where "arc_put_ghost a key data (length data) = Some a'" and "arc_inv a'"
    and "arc_c a' = arc_c a" and "contents a' key = Some data" and "\<forall>k. k \<noteq> key \<longrightarrow> contents a' k = contents a k \<or> contents a' k = None"
proof -
  note p = arc_inv_parts [OF inv]
  have gh: "\<not> live (an_list n)" using p(3) n unfolding arc_data_def by (metis option.distinct(1))
  obtain q where q: "arc_adapt a key (length data) = a\<lparr>arc_p := q\<rparr>" "q \<le> arc_c a"
    by (rule arc_adapt_view [OF p(5)])
  define a1 where "a1 = a\<lparr>arc_p := q\<rparr>"
  have a1: "arc_nodes a1 key = Some n" "arc_c a1 = arc_c a" "arc_nnodes a1 = arc_nnodes a" by (simp_all add: a1_def n)
  obtain b where b: "arc_replace a1 (length data) (an_list n \<noteq> L_B1) = Some b" "evict_ok b" "shrinks a1 b" "hash_ok b"
    "all_linked {key} b" "bytesof b L_T1 + bytesof b L_T2 + length data \<le> arc_c a"
    using arc_replace_floating [of a1 "length data" "{key}" "an_list n \<noteq> L_B1"] p len by (auto simp: a1_def)
  have nb: "arc_nodes b key = Some n"
    by (rule shrinks_node [OF b(3) a1(1)]) (simp add: gh)
  define b2 where "b2 = move_to b key L_NONE"
  have bound: "\<forall>w. bytesof b w < 2 ^ 64" using evict_ok_bound [OF b(2)] by simp
  note d = detach_ok [OF evict_ok_parts(1) [OF b(2)] b(4) evict_ok_parts(2) [OF b(2)] b(5) nb bound, folded b2_def]
  have nb2: "arc_nodes b2 key = Some (n\<lparr>an_list := L_NONE\<rparr>)" using nb by (simp add: b2_def)
  define n3 where "n3 = \<lparr>an_data = Some data, an_len = length data, an_list = L_NONE\<rparr>"
  define a3 where "a3 = node_set key n3 b2"
  have n3: "n\<lparr>an_list := L_NONE, an_len := length data, an_data := Some data\<rparr> = n3" by (simp add: n3_def)
  note f = floating_data_ok [OF d(1-4) nb2, where n' = n3, folded a3_def]
  have lim: "limits_ok a3" "arc_c a3 = arc_c a" "arc_nnodes a3 < 2 ^ 64"
    using b(3) p(5,8) q(2) by (auto simp: a3_def b2_def a1_def limits_ok_def shrinks_def)
  have le: "bytesof a3 w \<le> bytesof b w" for w using d(5) by (simp add: a3_def)
  have sums: "bytesof b L_T1 + bytesof b L_B1 \<le> arc_c a" "bytesof b L_T2 + bytesof b L_B2 \<le> 2 * arc_c a"
    using b(3) p(11,12) by (simp_all add: shrinks_def a1_def)
  obtain r where r: "arc_trim_ghosts ((move_to a3 key L_T2)\<lparr>arc_st := (arc_st (move_to a3 key L_T2))\<lparr>
        inserts := inserts (arc_st (move_to a3 key L_T2)) + 1\<rparr>\<rparr>) = Some r"
    "arc_inv r" "contents r = (contents a3)(key \<mapsto> data)" "arc_c r = arc_c a3"
    by (rule place_ok [of a3 key data L_T2])
       (use f lim b(6) sums add_mono [OF le le, of L_T1 L_T2] add_mono [OF le le, of L_T1 L_B1]
          add_mono [OF le le, of L_T2 L_B2] in \<open>auto simp: n3_def a3_def\<close>)
  have "arc_put_ghost a key data (length data) = Some r"
    using r(1) b(1) n(1) nb2 by (simp add: arc_put_ghost_def Let_def q(1) a1_def [symmetric] b2_def [symmetric]
        n3 a3_def [symmetric] stat_insert_def del: move_to_frame)
  moreover have "contents r k = contents a k \<or> contents r k = None" if "k \<noteq> key" for k
    using contents_shrinks [OF b(3), of k] that by (auto simp: r(3) a3_def b2_def a1_def contents_def)
  ultimately show thesis using that r lim(2) by simp
qed

lemma ht_grow_view [simp]:
  "arc_links (ht_grow g a) = arc_links a" "arc_data (ht_grow g a) = arc_data a"
  "all_linked F (ht_grow g a) = all_linked F a" "arc_nodes (ht_grow g a) = arc_nodes a"
  "arc_c (ht_grow g a) = arc_c a" "arc_p (ht_grow g a) = arc_p a" "arc_nnodes (ht_grow g a) = arc_nnodes a"
proof -
  show n: "arc_nodes (ht_grow g a) = arc_nodes a" by (simp add: ht_grow_def Let_def)
  show "arc_c (ht_grow g a) = arc_c a" "arc_p (ht_grow g a) = arc_p a" "arc_nnodes (ht_grow g a) = arc_nnodes a"
    by (simp_all add: ht_grow_def Let_def)
  show "arc_links (ht_grow g a) = arc_links a" "arc_data (ht_grow g a) = arc_data a"
    "all_linked F (ht_grow g a) = all_linked F a"
    by (simp_all add: arc_links_def arc_data_def all_linked_def lenof_def n)
qed

text \<open>With fewer than \<open>2\<^sup>3\<^sup>2\<close> nodes the table is rehashed only while it has at most \<open>2\<^sup>3\<^sup>2\<close> chains.\<close>

lemma grow_bound:
  assumes "hash_ok a" and "arc_nnodes a + 1 < 2 ^ 32"
    and "sz (arc_nnodes a + 1) > arc_nbuckets a - arc_nbuckets a div 4"
  shows "arc_nbuckets a \<le> 2 ^ 32"
proof -
  obtain e where e: "e \<le> 33" "arc_nbuckets a = 2 ^ e" using assms(1) by (auto simp: hash_ok_def)
  have "e \<noteq> 33"
  proof
    assume "e = 33"
    then show False using assms(2,3) e(2) by (simp add: sz_id)
  qed
  then have "(2 :: nat) ^ e \<le> 2 ^ 32" using e(1) by (intro power_increasing) auto
  then show ?thesis using e by simp
qed

lemma arc_inv_shrinks:
  assumes "arc_inv a" and "shrinks a b" and "evict_ok b" and "hash_ok b" and "all_linked {} b"
  shows "arc_inv b"
  using assms by (auto simp: arc_inv_def core_ok_def shrinks_def evict_ok_def limits_ok_def arc_total_def)

lemma ht_insert_view [simp]:
  "arc_links (ht_insert a k) = arc_links a" "arc_data (ht_insert a k) = arc_data a"
  "all_linked F (ht_insert a k) = all_linked F a" "arc_nodes (ht_insert a k) = arc_nodes a"
  "arc_c (ht_insert a k) = arc_c a" "arc_p (ht_insert a k) = arc_p a"
  "arc_nnodes (ht_insert a k) = sz (arc_nnodes a + 1)" "limits_ok (ht_insert a k) = limits_ok a"
proof -
  show n: "arc_nodes (ht_insert a k) = arc_nodes a" by (simp add: ht_insert_def Let_def)
  show "arc_c (ht_insert a k) = arc_c a" "arc_p (ht_insert a k) = arc_p a"
    "arc_nnodes (ht_insert a k) = sz (arc_nnodes a + 1)" "limits_ok (ht_insert a k) = limits_ok a"
    by (simp_all add: ht_insert_def Let_def limits_ok_def)
  show "arc_links (ht_insert a k) = arc_links a" "arc_data (ht_insert a k) = arc_data a"
    "all_linked F (ht_insert a k) = all_linked F a"
    by (simp_all add: arc_links_def arc_data_def all_linked_def lenof_def n)
qed

lemma arc_put_new_ok:
  assumes inv: "arc_inv a" and n: "arc_nodes a key = None" and len: "length data * 2 \<le> arc_c a"
    and room: "arc_nnodes a + 1 < 2 ^ 32"
  obtains a' where "arc_put_new grow_ok node_ok a key data (length data) = Some a'" and "arc_inv a'"
    and "arc_c a' = arc_c a" and "contents a' key = (if node_ok then Some data else None)"
    and "\<forall>k. k \<noteq> key \<longrightarrow> contents a' k = contents a k \<or> contents a' k = None"
proof -
  note p = arc_inv_parts [OF inv]
  obtain b where b: "arc_replace a (length data) False = Some b" "evict_ok b" "shrinks a b" "hash_ok b"
    "all_linked {} b" "bytesof b L_T1 + bytesof b L_T2 + length data \<le> arc_c a"
    using arc_replace_floating [of a "length data" "{}" False] p len by auto
  define g where "g = (if sz (arc_nnodes b + 1) > arc_nbuckets b - arc_nbuckets b div 4 then ht_grow grow_ok b else b)"
  have nb: "arc_nnodes b = arc_nnodes a" "arc_c b = arc_c a" "arc_nodes b key = None"
    using b(3) n unfolding shrinks_def by (auto simp: domIff)
  have gv: "arc_nodes g = arc_nodes b" "arc_c g = arc_c a" "arc_nnodes g = arc_nnodes a" "arc_links g" "arc_data g"
    "all_linked {} g" "\<And>w. bytesof g w = bytesof b w" "arc_p g = arc_p b"
    using b(2,5) nb by (auto simp: g_def evict_ok_def)
  have hg: "hash_ok g"
    using b(4) hash_ok_grow [OF b(4) grow_bound [OF b(4)]] room nb by (auto simp: g_def)
  have con: "contents g k = contents a k \<or> contents g k = None" for k
    using contents_shrinks [OF b(3), of k] by (simp add: contents_def gv)
  have put: "arc_put_new grow_ok node_ok a key data (length data) = (if \<not> node_ok then Some g else
      arc_trim_ghosts (stat_insert (move_to (ht_insert (node_set key
        \<lparr>an_data = Some data, an_len = length data, an_list = L_NONE\<rparr> g) key) key L_T1)))"
    using b(1) by (simp add: arc_put_new_def Let_def g_def)
  show thesis
  proof (cases node_ok)
    case False
    have "arc_inv g"
      using arc_inv_shrinks [OF inv b(3) b(2) b(4,5)] gv hg nb
      by (auto simp: arc_inv_def core_ok_def limits_ok_def arc_total_def)
    with put con False that nb show thesis by (auto simp: contents_def gv)
  next
    case True
    define i where "i = ht_insert (node_set key \<lparr>an_data = Some data, an_len = length data, an_list = L_NONE\<rparr> g) key"
    have ni: "arc_nodes i key = Some \<lparr>an_data = Some data, an_len = length data, an_list = L_NONE\<rparr>"
      by (simp add: i_def)
    have li: "arc_links i" using gv nb by (auto simp: i_def intro!: arc_links_node_set)
    have hi: "hash_ok i" unfolding i_def using gv nb room by (intro hash_ok_insert [OF hg]) auto
    have iv: "arc_data i" "all_linked {key} i" "arc_c i = arc_c a" "\<And>w. bytesof i w = bytesof b w"
      using gv by (auto simp: i_def arc_data_def all_linked_def)
    have ii: "limits_ok i" "arc_nnodes i < 2 ^ 64"
      using p(5) gv room b(3) by (auto simp: i_def limits_ok_def sz_id shrinks_def)
    have sums: "bytesof b L_T1 + bytesof b L_B1 \<le> arc_c a" "bytesof b L_T2 + bytesof b L_B2 \<le> 2 * arc_c a"
      using b(3) p(11,12) by (simp_all add: shrinks_def)
    obtain r where r: "arc_trim_ghosts ((move_to i key L_T1)\<lparr>arc_st := (arc_st (move_to i key L_T1))\<lparr>
          inserts := inserts (arc_st (move_to i key L_T1)) + 1\<rparr>\<rparr>) = Some r"
      "arc_inv r" "contents r = (contents i)(key \<mapsto> data)" "arc_c r = arc_c i"
      by (rule place_ok [OF li hi iv(1,2) ii(1) ni, of L_T1]) (use ii sums b(6) in \<open>simp_all add: iv(3,4)\<close>)
    have "contents r k = contents a k \<or> contents r k = None" if "k \<noteq> key" for k
      using con [of k] that by (auto simp: r(3) i_def contents_def)
    moreover have "arc_put_new grow_ok node_ok a key data (length data) = Some r"
      using put r(1) True unfolding stat_insert_def i_def by (simp del: move_to_frame)
    ultimately show thesis using that r True iv(3) by simp
  qed
qed

lemma arc_put_locked_ok:
  assumes inv: "arc_inv a" and room: "arc_nnodes a + 1 < 2 ^ 32" and len: "length data < 2 ^ 63"
  obtains a' where "arc_put_locked g m a key data (length data) = Some a'" and "arc_inv a'" and "arc_c a' = arc_c a"
    and "length data * 2 > arc_c a \<Longrightarrow> contents a' key = contents a key"
    and "length data * 2 \<le> arc_c a \<Longrightarrow>
      contents a' key = (if arc_nodes a key = None \<and> \<not> m then None else Some data)"
    and "\<forall>k. k \<noteq> key \<longrightarrow> contents a' k = contents a k \<or> contents a' k = None"
proof -
  have sz2: "sz (length data * 2) = length data * 2" using len by (simp add: sz_id)
  have find: "ht_find a key = (if key \<in> dom (arc_nodes a) then Some key else None)"
    using arc_inv_parts(2) [OF inv] by (rule ht_find_eq)
  consider (big) "length data * 2 > arc_c a"
    | (live) n where "length data * 2 \<le> arc_c a" "arc_nodes a key = Some n" "an_data n \<noteq> None"
    | (ghost) n where "length data * 2 \<le> arc_c a" "arc_nodes a key = Some n" "an_data n = None"
    | (new) "length data * 2 \<le> arc_c a" "arc_nodes a key = None"
    by (cases "arc_nodes a key") force+
  then show thesis
  proof cases
    case big
    then show thesis
      using that [of "a\<lparr>arc_st := (arc_st a)\<lparr>refused := refused (arc_st a) + 1\<rparr>\<rparr>"] inv
      by (simp add: arc_put_locked_def sz2)
  next
    case (live n)
    show thesis
      by (rule arc_put_live_ok [OF inv live(2,1)]) (use live find in \<open>auto simp: arc_put_locked_def sz2 intro!: that\<close>)
  next
    case (ghost n)
    show thesis
      by (rule arc_put_ghost_ok [OF inv ghost(2,3,1)]) (use ghost find in \<open>auto simp: arc_put_locked_def sz2 intro!: that\<close>)
  next
    case new
    show thesis
      by (rule arc_put_new_ok [OF inv new(2,1) room, of g m]) (use new find in \<open>auto simp: arc_put_locked_def sz2 intro!: that\<close>)
  qed
qed

section \<open>Lookup, invalidation, clearing\<close>

lemma arc_dataD:
  "arc_data a \<Longrightarrow> arc_nodes a k = Some n \<Longrightarrow> live (an_list n) \<Longrightarrow> \<exists>d. an_data n = Some d \<and> length d = an_len n"
  by (simp add: arc_data_def)

lemma arc_touch_ok:
  assumes inv: "arc_inv a" and n: "arc_nodes a key = Some n" "an_data n = Some d"
  shows "arc_inv (move_to a key L_T2)" and "contents (move_to a key L_T2) = contents a"
proof -
  note p = arc_inv_parts [OF inv]
  have lv: "live (an_list n)"
    using p(3) n inv by (cases "an_list n") (auto simp: arc_data_def arc_inv_def all_linked_def)
  have le: "an_len n \<le> bytesof a (an_list n)" using bytesof_unlink [OF p(1) n(1)] lv by (cases "an_list n") auto
  have by1: "bytesof (move_to a key L_T2) L_T1 = bytesof a L_T1 - (if an_list n = L_T1 then an_len n else 0)"
    "bytesof (move_to a key L_T2) L_T2 = bytesof a L_T2 + (if an_list n = L_T1 then an_len n else 0)"
    "bytesof (move_to a key L_T2) L_B1 = bytesof a L_B1" "bytesof (move_to a key L_T2) L_B2 = bytesof a L_B2"
    using lv le p(7,9,10) by (auto simp: bytesof_move_to [OF n(1)] Let_def sz_sub_le sz_id live_def)
  have links: "arc_links (move_to a key L_T2)"
    using lv le p(7,9,10) by (intro arc_links_move_to [OF p(1) n(1)]) (auto simp: live_def)
  have hash: "hash_ok (move_to a key L_T2)" using n by (intro hash_ok_cong [OF p(2)]) auto
  have data: "arc_data (move_to a key L_T2)" using p(3) n arc_dataD [OF p(3) n(1) lv] by (auto simp: arc_data_def)
  show "arc_inv (move_to a key L_T2)"
    using inv links hash data le n
    by (auto simp: arc_inv_def core_ok_def arc_total_def by1 limits_ok_def all_linked_def)
  show "contents (move_to a key L_T2) = contents a" using n by (auto simp: contents_def fun_eq_iff)
qed

lemma stat_miss_view: "\<exists>s. stat_miss a n = a\<lparr>arc_st := s\<rparr>"
  by (auto simp: stat_miss_def Let_def)

lemma arc_get_locked_ok:
  assumes inv: "arc_inv a"
  shows "arc_inv (snd (arc_get_locked a key))" and "fst (arc_get_locked a key) = contents a key"
    and "contents (snd (arc_get_locked a key)) = contents a"
proof -
  have find: "ht_find a key = (if key \<in> dom (arc_nodes a) then Some key else None)"
    using arc_inv_parts(2) [OF inv] by (rule ht_find_eq)
  show "arc_inv (snd (arc_get_locked a key))" "fst (arc_get_locked a key) = contents a key"
    "contents (snd (arc_get_locked a key)) = contents a"
    using inv find arc_touch_ok [OF inv] stat_miss_view [of a]
    by (auto simp: arc_get_locked_def Let_def stat_hit_def contents_def [of a key] split: option.splits)
       (metis stat_views(6) contents_stat(1))+
qed

lemma live_of_data:
  "arc_inv a \<Longrightarrow> arc_nodes a k = Some n \<Longrightarrow> an_data n = Some d \<Longrightarrow> length d = an_len n"
proof -
  assume inv: "arc_inv a" and n: "arc_nodes a k = Some n" "an_data n = Some d"
  note p = arc_inv_parts [OF inv]
  have "live (an_list n)"
    using p(3) n inv by (cases "an_list n") (auto simp: arc_data_def arc_inv_def all_linked_def)
  from arc_dataD [OF p(3) n(1) this] n(2) show ?thesis by simp
qed

lemma arc_get_copy_locked_eq:
  assumes inv: "arc_inv a"
  shows "arc_get_copy_locked a key off want =
    (map_option (\<lambda>d. take want (drop off d)) (contents a key), snd (arc_get_locked a key))"
proof -
  have find: "ht_find a key = (if key \<in> dom (arc_nodes a) then Some key else None)"
    using arc_inv_parts(2) [OF inv] by (rule ht_find_eq)
  show ?thesis
  proof (cases "contents a key")
    case None
    then show ?thesis
      using find by (auto simp: arc_get_copy_locked_def arc_get_locked_def Let_def contents_def split: bind_splits)
  next
    case (Some d)
    then obtain n where n: "arc_nodes a key = Some n" "an_data n = Some d"
      by (auto simp: contents_def bind_eq_Some_conv)
    have "length d = an_len n" by (rule live_of_data [OF inv n])
    with find n Some show ?thesis
      by (auto simp: arc_get_copy_locked_def arc_get_locked_def Let_def stat_hit_def bslice_def node_at_def)
  qed
qed

lemma node_free_ok:
  assumes inv: "arc_inv a" and n: "arc_nodes a key = Some n"
  shows "arc_inv (node_free a key)" and "contents (node_free a key) = (contents a)(key := None)"
proof -
  note p = arc_inv_parts [OF inv]
  have le: "bytesof (node_free a key) w \<le> bytesof a w" for w
  proof (cases "w = an_list n \<and> w \<noteq> L_NONE")
    case True
    then have "an_len n \<le> bytesof a w" using bytesof_unlink [OF p(1) n] by auto
    then show ?thesis using True p(7) by (simp add: bytesof_node_free [OF n] sz_sub_le)
  qed (auto simp: bytesof_node_free [OF n])
  have core: "arc_links (node_free a key)" "hash_ok (node_free a key)" "arc_data (node_free a key)"
    using arc_links_node_free [OF p(1) n p(7)] hash_ok_free [OF p(2) n p(8)] p(3) by (auto simp: arc_data_def)
  have "arc_nnodes (node_free a key) \<le> arc_nnodes a"
    using core(2) p(2) by (auto simp: hash_ok_def intro!: card_mono)
  with core show "arc_inv (node_free a key)"
    using inv le add_mono [OF le le, of L_T1 L_T2] add_mono [OF le le, of L_T1 L_B1]
      add_mono [OF add_mono [OF add_mono [OF le le] le] le, of L_T1 L_T2 L_B1 L_B2]
    by (auto simp: arc_inv_def core_ok_def arc_total_def limits_ok_def all_linked_def)
  show "contents (node_free a key) = (contents a)(key := None)" by (auto simp: contents_def fun_eq_iff)
qed

lemma arc_invalidate_locked_ok:
  assumes inv: "arc_inv a"
  shows "arc_inv (arc_invalidate_locked a key)" and "contents (arc_invalidate_locked a key) = (contents a)(key := None)"
proof -
  have find: "ht_find a key = (if key \<in> dom (arc_nodes a) then Some key else None)"
    using arc_inv_parts(2) [OF inv] by (rule ht_find_eq)
  have "arc_inv (arc_invalidate_locked a key) \<and> contents (arc_invalidate_locked a key) = (contents a)(key := None)"
  proof (cases "arc_nodes a key")
    case None
    then show ?thesis using inv find by (auto simp: arc_invalidate_locked_def contents_def fun_eq_iff)
  next
    case (Some n)
    then show ?thesis using node_free_ok [OF inv Some] find by (auto simp: arc_invalidate_locked_def Let_def)
  qed
  then show "arc_inv (arc_invalidate_locked a key)" "contents (arc_invalidate_locked a key) = (contents a)(key := None)"
    by simp_all
qed

lemma keysof_cleared: "keysof (arc_clear_locked a) w = []"
  by (cases w) (simp_all add: keysof_def arc_clear_locked_def list0_def)

lemma bytesof_cleared: "bytesof (arc_clear_locked a) w = 0"
  by (cases w) (simp_all add: bytesof_def arc_clear_locked_def list0_def)

lemma cleared_fields:
  "arc_nodes (arc_clear_locked a) = Map.empty" "arc_c (arc_clear_locked a) = arc_c a"
  "arc_p (arc_clear_locked a) = arc_c a div 2" "arc_nnodes (arc_clear_locked a) = 0"
  by (simp_all add: arc_clear_locked_def)

lemma arc_clear_locked_ok:
  assumes inv: "arc_inv a"
  shows "arc_inv (arc_clear_locked a)" and "contents (arc_clear_locked a) = Map.empty"
proof -
  have "hash_ok a" "limits_ok a" using inv by (auto simp: arc_inv_def core_ok_def)
  then have "hash_ok (arc_clear_locked a)" "limits_ok (arc_clear_locked a)"
    by (auto simp: hash_ok_def arc_clear_locked_def limits_ok_def)
  moreover have "arc_links (arc_clear_locked a)"
    by (simp add: arc_links_def keysof_cleared bytesof_cleared cleared_fields)
  ultimately show "arc_inv (arc_clear_locked a)"
    by (simp add: arc_inv_def core_ok_def arc_total_def bytesof_cleared arc_data_def all_linked_def limits_ok_def
        cleared_fields)
  show "contents (arc_clear_locked a) = Map.empty" by (simp add: contents_def arc_clear_locked_def fun_eq_iff)
qed

lemma arc_create_ok:
  assumes "arc_create ok b = Some a" and "b < 2 ^ 62"
  shows "arc_inv a" and "contents a = Map.empty" and "arc_c a = b"
proof -
  have a: "a = \<lparr>arc_t1 = list0, arc_t2 = list0, arc_b1 = list0, arc_b2 = list0,
                 arc_c = b, arc_p = b div 2, arc_buckets = replicate 256 [], arc_nbuckets = 256, arc_nnodes = 0,
                 arc_nodes = Map.empty, arc_st = stats0 b\<rparr>" and "0 < b"
    using assms(1) by (auto simp: arc_create_def split: if_splits)
  have k: "keysof a w = []" "bytesof a w = 0" for w by (cases w; simp add: a keysof_def bytesof_def list0_def)+
  have "arc_nodes a = Map.empty" by (simp add: a)
  moreover have "hash_ok a" by (auto simp: hash_ok_def a intro!: exI [of _ 8])
  ultimately show "arc_inv a"
    using assms(2) \<open>0 < b\<close>
    by (simp add: arc_inv_def core_ok_def arc_links_def arc_data_def arc_total_def k all_linked_def limits_ok_def)
       (simp add: a)
  show "contents a = Map.empty" "arc_c a = b" by (simp_all add: contents_def a fun_eq_iff)
qed

section \<open>What a content cache promises its readers\<close>

text \<open>The read path keys the cache by inode id and relies on one thing: a hit returns the
  content of that inode. The contract is stated over the visible contents of a cache.\<close>

locale content_cache =
  fixes inv :: "'s \<Rightarrow> bool" and room :: "'s \<Rightarrow> bool" and visible :: "'s \<Rightarrow> u64 \<rightharpoonup> bytes"
    and get :: "'s \<Rightarrow> u64 \<Rightarrow> nat \<Rightarrow> nat \<Rightarrow> bytes option \<times> 's"
    and put :: "'s \<Rightarrow> u64 \<Rightarrow> bytes \<Rightarrow> 's option"
    and invalidate :: "'s \<Rightarrow> u64 \<Rightarrow> 's" and wipe :: "'s \<Rightarrow> 's"
  assumes get_inv: "inv s \<Longrightarrow> inv (snd (get s k off want))"
    and get_result: "inv s \<Longrightarrow> fst (get s k off want) = map_option (\<lambda>d. take want (drop off d)) (visible s k)"
    and get_keeps: "inv s \<Longrightarrow> visible (snd (get s k off want)) = visible s"
    and put_inv: "inv s \<Longrightarrow> room s \<Longrightarrow> length d < 2 ^ 63 \<Longrightarrow> put s k d = Some s' \<Longrightarrow> inv s'"
    and put_key: "inv s \<Longrightarrow> room s \<Longrightarrow> length d < 2 ^ 63 \<Longrightarrow> put s k d = Some s' \<Longrightarrow>
      visible s' k = visible s k \<or> visible s' k = Some d \<or> visible s' k = None"
    and put_other: "inv s \<Longrightarrow> room s \<Longrightarrow> length d < 2 ^ 63 \<Longrightarrow> put s k d = Some s' \<Longrightarrow> k' \<noteq> k \<Longrightarrow>
      visible s' k' = visible s k' \<or> visible s' k' = None"
    and invalidate_inv: "inv s \<Longrightarrow> inv (invalidate s k)"
    and invalidate_drops: "inv s \<Longrightarrow> visible (invalidate s k) = (visible s)(k := None)"
    and wipe_inv: "inv s \<Longrightarrow> inv (wipe s)"
    and wipe_drops: "inv s \<Longrightarrow> visible (wipe s) = Map.empty"
begin

text \<open>\<open>honest H s\<close>: everything visible is the content \<open>H\<close> gives to that inode.\<close>

definition honest :: "(u64 \<Rightarrow> bytes) \<Rightarrow> 's \<Rightarrow> bool" where
  "honest H s \<longleftrightarrow> inv s \<and> (\<forall>k d. visible s k = Some d \<longrightarrow> d = H k)"

lemma honest_get: "honest H s \<Longrightarrow> honest H (snd (get s k off want))"
  by (simp add: honest_def get_inv get_keeps)

lemma honest_put:
  assumes h: "honest H s" and r: "room s" and l: "length (H k) < 2 ^ 63" and p: "put s k (H k) = Some s'"
  shows "honest H s'"
proof -
  have i: "inv s" using h by (simp add: honest_def)
  have "d = H k'" if "visible s' k' = Some d" for k' d
    using put_key [OF i r l p] put_other [OF i r l p, of k'] h that by (cases "k' = k") (auto simp: honest_def)
  then show ?thesis using put_inv [OF i r l p] by (simp add: honest_def)
qed

lemma honest_invalidate: "honest H s \<Longrightarrow> honest H (invalidate s k)"
  by (auto simp: honest_def invalidate_inv invalidate_drops)

lemma honest_wipe: "honest H s \<Longrightarrow> honest H (wipe s)"
  by (simp add: honest_def wipe_inv wipe_drops)

lemma honest_hit:
  "honest H s \<Longrightarrow> fst (get s k off want) = Some d \<Longrightarrow> d = take want (drop off (H k))"
  by (auto simp: honest_def get_result)

end

definition arc_room :: "invfs_arc \<Rightarrow> bool" where
  "arc_room a \<longleftrightarrow> arc_nnodes a + 1 < 2 ^ 32"

interpretation arc: content_cache arc_inv arc_room contents arc_get_copy_locked
  "\<lambda>a k d. arc_put_locked g m a k d (length d)" arc_invalidate_locked arc_clear_locked for g m
proof
  fix s k off want d s' k'
  assume inv: "arc_inv s"
  show "arc_inv (snd (arc_get_copy_locked s k off want))"
    "fst (arc_get_copy_locked s k off want) = map_option (\<lambda>d. take want (drop off d)) (contents s k)"
    "contents (snd (arc_get_copy_locked s k off want)) = contents s"
    using arc_get_locked_ok [OF inv] by (simp_all add: arc_get_copy_locked_eq [OF inv])
  show "arc_inv (arc_invalidate_locked s k)" "contents (arc_invalidate_locked s k) = (contents s)(k := None)"
    "arc_inv (arc_clear_locked s)" "contents (arc_clear_locked s) = Map.empty"
    using arc_invalidate_locked_ok [OF inv] arc_clear_locked_ok [OF inv] by simp_all
  assume room: "arc_room s" and len: "length d < 2 ^ 63" and put: "arc_put_locked g m s k d (length d) = Some s'"
  obtain r where r: "arc_put_locked g m s k d (length d) = Some r" "arc_inv r"
    "length d * 2 > arc_c s \<Longrightarrow> contents r k = contents s k"
    "length d * 2 \<le> arc_c s \<Longrightarrow> contents r k = (if arc_nodes s k = None \<and> \<not> m then None else Some d)"
    "\<forall>k'. k' \<noteq> k \<longrightarrow> contents r k' = contents s k' \<or> contents r k' = None"
    using arc_put_locked_ok [OF inv room [unfolded arc_room_def] len, of g m k] by blast
  have [simp]: "s' = r" using put r(1) by simp
  show "arc_inv s'" using r(2) by simp
  show "contents s' k = contents s k \<or> contents s' k = Some d \<or> contents s' k = None"
    using r(3,4) by (cases "length d * 2 > arc_c s") (auto split: if_splits)
  show "k' \<noteq> k \<Longrightarrow> contents s' k' = contents s k' \<or> contents s' k' = None" using r(5) by simp
qed

section \<open>Every execution of the cache\<close>

text \<open>\<open>arc_run H b a\<close>: \<open>a\<close> is reached from a fresh cache of budget \<open>b\<close> by any sequence of
  operations, where whatever is put under a key is the content \<open>H\<close> of that inode and fewer
  than \<open>2\<^sup>3\<^sup>2\<close> nodes exist. Both allocation outcomes are possible at every put.\<close>

inductive arc_run :: "(u64 \<Rightarrow> bytes) \<Rightarrow> nat \<Rightarrow> invfs_arc \<Rightarrow> bool" for H b where
  run_create: "arc_create ok b = Some a \<Longrightarrow> arc_run H b a"
| run_get: "arc_run H b a \<Longrightarrow> arc_run H b (snd (arc_get_locked a k))"
| run_get_copy: "arc_run H b a \<Longrightarrow> arc_run H b (snd (arc_get_copy_locked a k off want))"
| run_put: "arc_run H b a \<Longrightarrow> arc_room a \<Longrightarrow> arc_put_locked g m a k (H k) (length (H k)) = Some a' \<Longrightarrow> arc_run H b a'"
| run_invalidate: "arc_run H b a \<Longrightarrow> arc_run H b (arc_invalidate_locked a k)"
| run_clear: "arc_run H b a \<Longrightarrow> arc_run H b (arc_clear_locked a)"

lemma arc_put_keeps_c:
  "arc_inv a \<Longrightarrow> arc_room a \<Longrightarrow> length d < 2 ^ 63 \<Longrightarrow> arc_put_locked g m a k d (length d) = Some a' \<Longrightarrow>
   arc_c a' = arc_c a"
  using arc_put_locked_ok [of a d g m k] unfolding arc_room_def by (metis option.inject)

lemma arc_get_keeps_c: "arc_c (snd (arc_get_locked a k)) = arc_c a"
  using stat_miss_view [of a "ht_find a k"] by (auto simp: arc_get_locked_def Let_def stat_hit_def)

lemma arc_run_honest:
  assumes "arc_run H b a" and b: "b < 2 ^ 62" and H: "\<forall>k. length (H k) < 2 ^ 63"
  shows "arc.honest H a \<and> arc_c a = b"
  using assms(1)
proof induction
  case (run_create ok a)
  then show ?case using arc_create_ok [OF run_create b] by (simp add: arc.honest_def)
next
  case (run_get a k)
  then have "arc_inv a" by (simp add: arc.honest_def)
  with run_get arc_get_locked_ok [OF this] show ?case by (simp add: arc.honest_def arc_get_keeps_c)
next
  case (run_get_copy a k off want)
  then have "arc_inv a" by (simp add: arc.honest_def)
  moreover have "arc.honest H (snd (arc_get_copy_locked a k off want))" using run_get_copy arc.honest_get by blast
  ultimately show ?case using run_get_copy by (simp add: arc_get_copy_locked_eq arc_get_keeps_c)
next
  case (run_put a g m k a')
  then have i: "arc_inv a" "arc.honest H a" "length (H k) < 2 ^ 63" using H by (simp_all add: arc.honest_def)
  then show ?case
    using arc.honest_put [OF i(2) run_put.hyps(2) i(3) run_put.hyps(3)]
      arc_put_keeps_c [OF i(1) run_put.hyps(2) i(3) run_put.hyps(3)] run_put.IH by simp
next
  case (run_invalidate a k)
  then show ?case using arc.honest_invalidate by (simp add: arc_invalidate_locked_def Let_def)
next
  case (run_clear a)
  then show ?case using arc.honest_wipe by (simp add: cleared_fields)
qed


lemma arc_run_one_put:
  fixes a0 :: invfs_arc
  assumes "arc_create True 100 = Some a0"
  obtains a where "arc_put_locked True True a0 7 [1, 2, 3] 3 = Some a" and "arc_run (\<lambda>_. [1, 2, 3]) 100 a"
    and "contents a 7 = Some [1, 2, 3]"
proof -
  have c: "arc_inv a0" "arc_c a0 = 100" using arc_create_ok [OF assms] by simp_all
  have n: "arc_nnodes a0 = 0" using assms by (auto simp: arc_create_def)
  obtain a where a: "arc_put_locked True True a0 7 [1, 2, 3] (length [1, 2, 3 :: u8]) = Some a"
    "length [1, 2, 3 :: u8] * 2 \<le> arc_c a0 \<Longrightarrow>
      contents a 7 = (if arc_nodes a0 7 = None \<and> \<not> True then None else Some [1, 2, 3])"
    by (rule arc_put_locked_ok [OF c(1), of "[1, 2, 3]" True True 7]) (simp_all add: n)
  moreover have "arc_run (\<lambda>_. [1, 2, 3]) 100 a"
    using arc_run.run_put [OF arc_run.run_create [OF assms], of True True 7 "\<lambda>_. [1, 2, 3]" a] a(1)
    by (simp add: arc_room_def n)
  ultimately show thesis using that c(2) by (simp add: numeral_3_eq_3)
qed




text \<open>C11. An insertion always returns: both eviction loops end. If the entry is at most half
  the budget and its node can be allocated, the next lookup of the key hits and returns the
  data, from any reachable state, whichever of the four cases of \<open>arc_put\<close> applies.\<close>

theorem arc_put_then_get:
  assumes "arc_run H b a" and "b < 2 ^ 62" and "\<forall>k. length (H k) < 2 ^ 63"
    and "arc_room a" and "length data * 2 \<le> b"
  shows "\<exists>a'. arc_put g True (Some a) key data (length data) = Some (Some a')
    \<and> fst (arc_get (Some a') key) = Some data"
proof -
  have inv: "arc_inv a" and c: "arc_c a = b" using arc_run_honest [OF assms(1-3)] by (simp_all add: arc.honest_def)
  obtain r where r: "arc_put_locked g True a key data (length data) = Some r" "arc_inv r" "contents r key = Some data"
    using arc_put_locked_ok [OF inv assms(4) [unfolded arc_room_def], of data g True key] assms(2,5) c by auto
  then show ?thesis
    using arc_get_locked_ok(2) [OF r(2), of key] by (auto simp: arc_put_def arc_get_def split: prod.splits)
qed

theorem arc_put_then_get_witness:
  "\<exists>a0 a. arc_create True 100 = Some a0 \<and> arc_put True True (Some a0) 7 [1, 2, 3] (length [1, 2, 3 :: u8]) = Some (Some a)
    \<and> fst (arc_get (Some a) 7) = Some [1, 2, 3]"
proof -
  obtain a0 where a0: "arc_create True 100 = Some a0" by (simp add: arc_create_def)
  have "arc_run (\<lambda>_. []) 100 a0" by (rule arc_run.run_create [OF a0])
  moreover have "arc_room a0" using a0 by (auto simp: arc_room_def arc_create_def)
  ultimately show ?thesis
    using arc_put_then_get [of "\<lambda>_. []" 100 a0 "[1, 2, 3]" True 7] a0 by auto
qed

text \<open>C12. \<open>arc_clear\<close> and \<open>arc_destroy\<close> walk the hash chains and free what they meet: in every
  reachable state that is each node exactly once, so nothing leaks and nothing is freed twice.\<close>

theorem arc_destroy_frees_each_node_once:
  assumes "arc_run H b a" and "b < 2 ^ 62" and "\<forall>k. length (H k) < 2 ^ 63"
  shows "distinct (arc_destroy (Some a)) \<and> set (arc_destroy (Some a)) = dom (arc_nodes a)"
proof -
  have "arc_inv a" using arc_run_honest [OF assms] by (simp add: arc.honest_def)
  then show ?thesis using hash_ok_walk [of a] arc_inv_parts(2) by (simp add: arc_destroy_def)
qed

theorem arc_destroy_frees_each_node_once_witness:
  "\<exists>a0 a. arc_create True 100 = Some a0 \<and> arc_put_locked True True a0 7 [1, 2, 3] 3 = Some a
    \<and> distinct (arc_destroy (Some a)) \<and> set (arc_destroy (Some a)) = dom (arc_nodes a)"
proof -
  obtain a0 where a0: "arc_create True 100 = Some a0" by (simp add: arc_create_def)
  obtain a where a: "arc_put_locked True True a0 7 [1, 2, 3] 3 = Some a" "arc_run (\<lambda>_. [1, 2, 3]) 100 a"
    by (rule arc_run_one_put [OF a0])
  have "distinct (arc_destroy (Some a)) \<and> set (arc_destroy (Some a)) = dom (arc_nodes a)"
    using arc_destroy_frees_each_node_once [OF a(2)] by simp
  with a0 a(1) show ?thesis by blast
qed

end
