(* ===== verification/Blkio.thy ===== *)
theory Blkio
  imports Prelude
begin

text \<open>
  The backing store, \<^verbatim>\<open>src/core/blkio.c\<close> (POSIX branch). A handle owns an open file or device;
  the kernel's side of it is an \<open>os_file\<close> whose \<open>pread\<close>, \<open>pwrite\<close> and \<open>fsync\<close> may
  transfer short or fail, as a script of outcomes decides. On top of it stand the raw loops, the
  bounce-buffer path that turns byte-granular requests into aligned read-modify-write transfers,
  the cursor calls, the deferred commit policy and \<open>blkio_flush\<close> with its generation watermark.
  The bounce mutex makes each transfer one atomic step; the interleaving of concurrent flushers
  is the subject of the theory on group commit.
\<close>

section \<open>The kernel's side of a file\<close>

text \<open>\<open>Os_short n\<close> transfers at most \<open>n\<close> bytes; an exhausted script means success.
  \<open>f_stable\<close> is what survives a power cut for certain, \<open>f_writes\<close> the transfers issued since
  then, most recent first. \<open>f_ticks\<close> are the clock increments the next clock reads observe.\<close>

datatype os_outcome = Os_ok | Os_short nat | Os_err

record os_file =
  f_data :: store
  f_size :: nat
  f_stable :: store
  f_writes :: "(nat \<times> bytes) list"
  f_script :: "os_outcome list"
  f_now :: nat
  f_ticks :: "nat list"

fun os_next :: "os_file \<Rightarrow> os_outcome \<times> os_file" where
  "os_next f = (case f_script f of [] \<Rightarrow> (Os_ok, f) | r # rs \<Rightarrow> (r, f\<lparr>f_script := rs\<rparr>))"

fun os_count :: "os_outcome \<Rightarrow> nat \<Rightarrow> nat option" where
  "os_count Os_ok want = Some want"
| "os_count (Os_short n) want = Some (min n want)"
| "os_count Os_err want = None"

definition os_pread :: "os_file \<Rightarrow> nat \<Rightarrow> nat \<Rightarrow> bytes option \<times> os_file" where
  "os_pread f off want =
     (let (r, f1) = os_next f
      in case os_count r want of
           None \<Rightarrow> (None, f1)
         | Some n \<Rightarrow> (Some (store_read (f_data f1) off (min n (f_size f1 - off))), f1))"

definition os_pwrite :: "os_file \<Rightarrow> nat \<Rightarrow> bytes \<Rightarrow> nat option \<times> os_file" where
  "os_pwrite f off bs =
     (let (r, f1) = os_next f
      in case os_count r (length bs) of
           None \<Rightarrow> (None, f1)
         | Some n \<Rightarrow>
             if n = 0 then (Some 0, f1)
             else (Some n, f1\<lparr>f_data := store_write (f_data f1) off (take n bs),
                              f_size := max (f_size f1) (off + n),
                              f_writes := (off, take n bs) # f_writes f1\<rparr>))"

definition os_fsync :: "os_file \<Rightarrow> int \<times> os_file" where
  "os_fsync f =
     (let (r, f1) = os_next f
      in if r = Os_err then (-1, f1) else (0, f1\<lparr>f_stable := f_data f1, f_writes := []\<rparr>))"

text \<open>\<open>ftruncate\<close>: bytes between the old and a larger new length read as zero. The new length
  is part of the inode, so it is not stable before the next \<open>fsync\<close>.\<close>

definition os_ftruncate :: "os_file \<Rightarrow> nat \<Rightarrow> int \<times> os_file" where
  "os_ftruncate f newlen =
     (let (r, f1) = os_next f
      in if r = Os_err then (-1, f1)
         else (0, f1\<lparr>f_data := (\<lambda>i. if i < f_size f1 then f_data f1 i else 0), f_size := newlen\<rparr>))"

definition os_clock :: "os_file \<Rightarrow> nat \<times> os_file" where
  "os_clock f =
     (case f_ticks f of
        [] \<Rightarrow> (f_now f, f)
      | d # ds \<Rightarrow> (f_now f + d, f\<lparr>f_now := f_now f + d, f_ticks := ds\<rparr>))"

text \<open>The contents a power cut may leave: every byte is either the stable one or one that a
  transfer since the last successful \<open>fsync\<close> put there.\<close>

definition crash_image :: "os_file \<Rightarrow> store \<Rightarrow> bool" where
  "crash_image f c \<longleftrightarrow>
     (\<forall>i. c i = f_stable f i
        \<or> (\<exists>(off, bs) \<in> set (f_writes f). off \<le> i \<and> i < off + length bs \<and> c i = bs ! (i - off)))"

section \<open>Handles\<close>

definition BLKIO_ALIGN :: nat where "BLKIO_ALIGN = 4096"

definition BLKIO_BOUNCE :: nat where "BLKIO_BOUNCE = 1024 * 1024"

definition BLKIO_E_TOOSMALL :: int where "BLKIO_E_TOOSMALL = 7"

record blkio =
  fd :: int
  io_pos :: nat
  cap :: nat
  is_dev :: bool
  aligned :: bool
  bounce :: store
  n_read :: nat
  n_write :: nat
  b_read :: nat
  b_write :: nat
  write_gen :: nat
  flushed_gen :: nat
  commit_bytes :: nat
  commit_ms :: nat
  idle_ms :: nat
  dirty_bytes :: nat
  last_write_ms :: nat
  force_flush :: bool
  os :: os_file

abbreviation io_data :: "blkio \<Rightarrow> store" where
  "io_data io \<equiv> f_data (os io)"

section \<open>Raw transfers\<close>

text \<open>The transfer loops of \<open>raw_pread\<close> and \<open>raw_pwrite\<close>: a short transfer continues where it
  stopped, an empty or failed one ends the call.\<close>

lemma os_pread_len: "os_pread f off want = (Some bs, f') \<Longrightarrow> length bs \<le> want"
  by (auto simp: os_pread_def Let_def split: list.splits option.splits prod.splits
      elim!: os_count.elims)

lemma os_pwrite_len: "os_pwrite f off bs = (Some n, f') \<Longrightarrow> n \<le> length bs"
  by (auto simp: os_pwrite_def Let_def split: list.splits option.splits prod.splits if_splits
      elim!: os_count.elims)

function raw_pread_loop :: "os_file \<Rightarrow> nat \<Rightarrow> nat \<Rightarrow> bytes option \<times> os_file" where
  "raw_pread_loop f off len =
     (if len = 0 then (Some [], f)
      else case os_pread f off len of
             (None, f1) \<Rightarrow> (None, f1)
           | (Some bs, f1) \<Rightarrow>
               if bs = [] then (None, f1)
               else case raw_pread_loop f1 (off + length bs) (len - length bs) of
                      (None, f2) \<Rightarrow> (None, f2)
                    | (Some rest, f2) \<Rightarrow> (Some (bs @ rest), f2))"
  by pat_completeness auto
termination
  by (relation "measure (\<lambda>(f, off, len). len)") (auto dest: os_pread_len)

function raw_pwrite_loop :: "os_file \<Rightarrow> nat \<Rightarrow> bytes \<Rightarrow> int \<times> os_file" where
  "raw_pwrite_loop f off bs =
     (if bs = [] then (0, f)
      else case os_pwrite f off bs of
             (None, f1) \<Rightarrow> (-1, f1)
           | (Some n, f1) \<Rightarrow>
               if n = 0 then (-1, f1) else raw_pwrite_loop f1 (off + n) (drop n bs))"
  by pat_completeness auto
termination
  by (relation "measure (\<lambda>(f, off, bs). length bs)") (auto dest: os_pwrite_len)

declare raw_pread_loop.simps [simp del] raw_pwrite_loop.simps [simp del]

definition raw_pread :: "blkio \<Rightarrow> nat \<Rightarrow> nat \<Rightarrow> bytes option \<times> blkio" where
  "raw_pread io off len =
     (let io1 = io\<lparr>n_read := n_read io + 1, b_read := b_read io + len\<rparr>
      in if len = 0 then (Some [], io1)
         else if fd io < 0 then (None, io1)
         else let (r, f) = raw_pread_loop (os io1) off len in (r, io1\<lparr>os := f\<rparr>))"

definition raw_pwrite :: "blkio \<Rightarrow> nat \<Rightarrow> bytes \<Rightarrow> int \<times> blkio" where
  "raw_pwrite io off bs =
     (let io1 = io\<lparr>n_write := n_write io + 1, b_write := b_write io + length bs\<rparr>
      in if bs = [] then (0, io1)
         else if fd io < 0 then (-1, io1)
         else let (r, f) = raw_pwrite_loop (os io1) off bs in (r, io1\<lparr>os := f\<rparr>))"

section \<open>Byte-granular transfers over an aligned device\<close>

definition align_down :: "nat \<Rightarrow> nat" where
  "align_down x = x - x mod BLKIO_ALIGN"

definition align_up :: "nat \<Rightarrow> nat" where
  "align_up x = align_down (x + BLKIO_ALIGN - 1)"

text \<open>One turn of either loop moves \<open>chunk_want\<close> bytes.\<close>

definition chunk_want :: "nat \<Rightarrow> nat \<Rightarrow> nat" where
  "chunk_want off len = (let skip = off - align_down off
                         in if len > BLKIO_BOUNCE - skip then BLKIO_BOUNCE - skip else len)"

lemma align_down_le: "align_down x \<le> x"
  by (simp add: align_down_def)

lemma align_down_gap: "x - align_down x < BLKIO_ALIGN"
  by (simp add: align_down_def BLKIO_ALIGN_def)

lemma chunk_want_pos: "0 < len \<Longrightarrow> 0 < chunk_want off len"
  using align_down_gap [of off] by (auto simp: chunk_want_def Let_def BLKIO_ALIGN_def BLKIO_BOUNCE_def)

lemma chunk_want_le: "chunk_want off len \<le> len"
  by (auto simp: chunk_want_def Let_def)

definition dev_read_chunk :: "blkio \<Rightarrow> nat \<Rightarrow> nat \<Rightarrow> bytes option \<times> blkio" where
  "dev_read_chunk io off want =
     (let base = align_down off;
          skip = off - base;
          span = align_up (skip + want);
          short = base + span > cap io
      in if short \<and> (base \<ge> cap io \<or> cap io - base < skip + want) then (None, io)
         else case raw_pread io base (if short then cap io - base else span) of
                (None, io1) \<Rightarrow> (None, io1)
              | (Some bs, io1) \<Rightarrow>
                  let io2 = io1\<lparr>bounce := store_write (bounce io1) 0 bs\<rparr>
                  in (Some (store_read (bounce io2) skip want), io2))"

function dev_pread :: "blkio \<Rightarrow> nat \<Rightarrow> nat \<Rightarrow> bytes option \<times> blkio" where
  "dev_pread io off len =
     (if len = 0 then (Some [], io)
      else let want = chunk_want off len
           in case dev_read_chunk io off want of
                (None, io1) \<Rightarrow> (None, io1)
              | (Some out, io1) \<Rightarrow>
                  (case dev_pread io1 (off + want) (len - want) of
                     (None, io2) \<Rightarrow> (None, io2)
                   | (Some rest, io2) \<Rightarrow> (Some (out @ rest), io2)))"
  by pat_completeness auto
termination
  by (relation "measure (\<lambda>(io, off, len). len)") (auto dest: chunk_want_pos [of _ off] simp: chunk_want_pos)

text \<open>\<open>bounce_fill\<close> is one read-back of a block into the bounce buffer; \<open>dev_read_back\<close> decides
  which of the two end blocks of a span have to be read before they are patched.\<close>

definition bounce_fill :: "blkio \<Rightarrow> nat \<Rightarrow> nat \<Rightarrow> nat \<Rightarrow> int \<times> blkio" where
  "bounce_fill io off at len =
     (case raw_pread io off len of
        (None, io1) \<Rightarrow> (-1, io1)
      | (Some bs, io1) \<Rightarrow> (0, io1\<lparr>bounce := store_write (bounce io1) at bs\<rparr>))"

definition dev_read_back :: "blkio \<Rightarrow> nat \<Rightarrow> nat \<Rightarrow> nat \<Rightarrow> nat \<Rightarrow> int \<times> blkio" where
  "dev_read_back io base skip tail span =
     (if skip \<noteq> 0 \<and> tail \<noteq> 0 \<and> span = 2 * BLKIO_ALIGN then bounce_fill io base 0 span
      else let (r1, io1) = (if skip \<noteq> 0 then bounce_fill io base 0 BLKIO_ALIGN else (0, io))
           in if r1 \<noteq> 0 then (r1, io1)
              else let last = span - BLKIO_ALIGN
                   in if tail \<noteq> 0 \<and> \<not> (skip \<noteq> 0 \<and> last = 0)
                      then bounce_fill io1 (base + last) last BLKIO_ALIGN
                      else (0, io1))"

definition dev_write_chunk :: "blkio \<Rightarrow> nat \<Rightarrow> bytes \<Rightarrow> int \<times> blkio" where
  "dev_write_chunk io off bs =
     (let base = align_down off;
          skip = off - base;
          want = length bs;
          span = align_up (skip + want);
          tail = (skip + want) mod BLKIO_ALIGN
      in if base + span > cap io then (-1, io)
         else let (r, io1) = dev_read_back io base skip tail span
              in if r \<noteq> 0 then (r, io1)
                 else let io2 = io1\<lparr>bounce := store_write (bounce io1) skip bs\<rparr>
                      in raw_pwrite io2 base (store_read (bounce io2) 0 span))"

function dev_pwrite :: "blkio \<Rightarrow> nat \<Rightarrow> bytes \<Rightarrow> int \<times> blkio" where
  "dev_pwrite io off bs =
     (if bs = [] then (0, io)
      else let want = chunk_want off (length bs);
               (r, io1) = dev_write_chunk io off (take want bs)
           in if r \<noteq> 0 then (-1, io1) else dev_pwrite io1 (off + want) (drop want bs))"
  by pat_completeness auto
termination
  by (relation "measure (\<lambda>(io, off, bs). length bs)") (auto simp: chunk_want_pos)

declare dev_pread.simps [simp del] dev_pwrite.simps [simp del]

section \<open>The public calls\<close>

definition pf_now_ms :: "blkio \<Rightarrow> nat \<times> blkio" where
  "pf_now_ms io = (let (t, f) = os_clock (os io) in (t, io\<lparr>os := f\<rparr>))"

definition blkio_pread :: "blkio \<Rightarrow> nat \<Rightarrow> nat \<Rightarrow> bytes option \<times> blkio" where
  "blkio_pread io off len =
     (if len = 0 then (Some [], io)
      else if aligned io then dev_pread io off len
      else raw_pread io off len)"

definition gc_bump :: "blkio \<Rightarrow> blkio" where
  "gc_bump io = io\<lparr>write_gen := write_gen io + 1\<rparr>"

definition blkio_pwrite :: "blkio \<Rightarrow> nat \<Rightarrow> bytes \<Rightarrow> int \<times> blkio" where
  "blkio_pwrite io off bs =
     (let (t, io0) = pf_now_ms (io\<lparr>dirty_bytes := dirty_bytes io + length bs\<rparr>);
          io1 = io0\<lparr>last_write_ms := t\<rparr>
      in if bs = [] then (0, io1)
         else let (r, io2) = (if aligned io1 then dev_pwrite io1 off bs else raw_pwrite io1 off bs)
              in (r, gc_bump io2))"

definition blkio_seek :: "blkio \<Rightarrow> nat \<Rightarrow> int \<times> blkio" where
  "blkio_seek io off = (0, io\<lparr>io_pos := off\<rparr>)"

definition blkio_read :: "blkio \<Rightarrow> nat \<Rightarrow> bytes option \<times> blkio" where
  "blkio_read io len =
     (case blkio_pread io (io_pos io) len of
        (None, io1) \<Rightarrow> (None, io1)
      | (Some bs, io1) \<Rightarrow> (Some bs, io1\<lparr>io_pos := io_pos io1 + len\<rparr>))"

definition blkio_write :: "blkio \<Rightarrow> bytes \<Rightarrow> int \<times> blkio" where
  "blkio_write io bs =
     (let (r, io1) = blkio_pwrite io (io_pos io) bs
      in if r \<noteq> 0 then (-1, io1) else (0, io1\<lparr>io_pos := io_pos io1 + length bs\<rparr>))"

definition blkio_chsize :: "blkio \<Rightarrow> nat \<Rightarrow> int \<times> blkio" where
  "blkio_chsize io newlen =
     (if is_dev io then (if newlen \<le> cap io then 0 else - BLKIO_E_TOOSMALL, io)
      else if fd io < 0 then (-1, io)
      else let (r, f) = os_ftruncate (os io) newlen
           in if r \<noteq> 0 then (-1, io\<lparr>os := f\<rparr>)
              else (0, gc_bump (io\<lparr>os := f, cap := (if aligned io then newlen - newlen mod BLKIO_ALIGN else newlen)\<rparr>)))"

definition blkio_capacity :: "blkio \<Rightarrow> nat" where
  "blkio_capacity io = cap io"

section \<open>Commit policy and flush\<close>

definition INVFS_MIN_COMMIT_BYTES :: nat where "INVFS_MIN_COMMIT_BYTES = 4096"

fun unit_suffix :: "string \<Rightarrow> nat \<Rightarrow> nat" where
  "unit_suffix s bare =
     (case dropWhile (\<lambda>c. c = CHR '' '') s of
        [] \<Rightarrow> bare
      | c # _ \<Rightarrow> if c = CHR ''K'' \<or> c = CHR ''k'' then 1024
                else if c = CHR ''M'' \<or> c = CHR ''m'' then 1024 * 1024
                else if c = CHR ''G'' \<or> c = CHR ''g'' then 1024 * 1024 * 1024
                else bare)"

text \<open>The value of an environment variable is an option: \<open>getenv\<close> answers \<open>NULL\<close> when unset.\<close>

definition pf_parse_bytes :: "string option \<Rightarrow> nat" where
  "pf_parse_bytes v =
     (case v of None \<Rightarrow> 0
      | Some s \<Rightarrow>
          (case (if s = [] then None else strtoull s) of None \<Rightarrow> 0
           | Some (n, rest) \<Rightarrow>
               let m = sz (n * unit_suffix rest (1024 * 1024))
               in if m \<noteq> 0 \<and> m < INVFS_MIN_COMMIT_BYTES then 0 else m))"

definition pf_env_flag :: "string option \<Rightarrow> bool" where
  "pf_env_flag v = (case v of None \<Rightarrow> False | Some s \<Rightarrow> s \<noteq> [] \<and> s \<noteq> ''0'')"

definition blkio_set_commit :: "blkio \<Rightarrow> nat \<Rightarrow> nat \<Rightarrow> nat \<Rightarrow> blkio" where
  "blkio_set_commit io bytes ms idle =
     (let (t, io1) = pf_now_ms io
      in io1\<lparr>commit_bytes := bytes, commit_ms := ms, idle_ms := idle,
             dirty_bytes := 0, last_write_ms := t\<rparr>)"

definition blkio_force_flush :: "blkio \<Rightarrow> blkio" where
  "blkio_force_flush io = io\<lparr>force_flush := True\<rparr>"

definition env_ms :: "string option \<Rightarrow> nat" where
  "env_ms v = (case v of None \<Rightarrow> 0
               | Some s \<Rightarrow> if s = [] then 0 else case strtoull s of None \<Rightarrow> 0 | Some (n, _) \<Rightarrow> n)"

definition blkio_apply_env_policy :: "(string \<Rightarrow> string option) \<Rightarrow> blkio \<Rightarrow> blkio" where
  "blkio_apply_env_policy env io =
     (if pf_env_flag (env ''INVFS_COMMIT_STRICT'') then blkio_set_commit io 0 0 0
      else if pf_env_flag (env ''INVFS_COMMIT_NONE'')
           then blkio_set_commit io (2 ^ 64 - 1) (2 ^ 64 - 1) (2 ^ 64 - 1)
      else let b = pf_parse_bytes (env ''INVFS_COMMIT_BYTES'');
               t = env_ms (env ''INVFS_COMMIT_MS'');
               d = env_ms (env ''INVFS_COMMIT_IDLE_MS'')
           in if b \<noteq> 0 \<or> t \<noteq> 0 \<or> d \<noteq> 0 then blkio_set_commit io b t d else io)"

definition pf_should_flush :: "blkio \<Rightarrow> bool \<times> blkio" where
  "pf_should_flush io =
     (if force_flush io then (True, io)
      else if commit_bytes io = 0 \<and> commit_ms io = 0 \<and> idle_ms io = 0 then (True, io)
      else let (now, io1) = pf_now_ms io
           in (commit_bytes io \<noteq> 0 \<and> dirty_bytes io \<ge> commit_bytes io
               \<or> commit_ms io \<noteq> 0 \<and> sz_sub now (last_write_ms io) \<ge> commit_ms io
               \<or> idle_ms io \<noteq> 0 \<and> sz_sub now (last_write_ms io) \<ge> idle_ms io, io1))"

definition blkio_flush_raw :: "blkio \<Rightarrow> int \<times> blkio" where
  "blkio_flush_raw io =
     (if fd io < 0 then (-1, io)
      else let (r, f) = os_fsync (os io) in (r, io\<lparr>os := f\<rparr>))"

text \<open>\<open>blkio_flush\<close> without a concurrent flusher: the deferral gate, the watermark test, the
  physical flush and the reset of the accumulators.\<close>

definition blkio_flush :: "blkio \<Rightarrow> int \<times> blkio" where
  "blkio_flush io =
     (let my_gen = write_gen io;
          fd_ok = (fd io \<ge> 0);
          (go, io1) = pf_should_flush io
      in if \<not> go then (let (t, io2) = pf_now_ms io1 in (0, io2\<lparr>last_write_ms := t\<rparr>))
         else if fd_ok \<and> flushed_gen io1 \<ge> my_gen then (0, io1)
         else let cover = write_gen io1;
                  (rc, io2) = blkio_flush_raw io1;
                  io3 = (if rc = 0 \<and> cover > flushed_gen io2 then io2\<lparr>flushed_gen := cover\<rparr> else io2);
                  (t, io4) = pf_now_ms io3
              in (rc, io4\<lparr>dirty_bytes := 0, last_write_ms := t, force_flush := False\<rparr>))"

section \<open>What a transfer leaves alone\<close>

text \<open>\<open>io_same\<close> is the part of a handle no transfer touches; \<open>io_quiet\<close> adds the contents.\<close>

definition io_same :: "blkio \<Rightarrow> blkio \<Rightarrow> bool" where
  "io_same io io' \<longleftrightarrow>
     fd io' = fd io \<and> io_pos io' = io_pos io \<and> cap io' = cap io \<and> is_dev io' = is_dev io
     \<and> aligned io' = aligned io \<and> write_gen io' = write_gen io \<and> flushed_gen io' = flushed_gen io
     \<and> commit_bytes io' = commit_bytes io \<and> commit_ms io' = commit_ms io \<and> idle_ms io' = idle_ms io
     \<and> dirty_bytes io' = dirty_bytes io \<and> last_write_ms io' = last_write_ms io
     \<and> force_flush io' = force_flush io \<and> f_stable (os io') = f_stable (os io)
     \<and> f_now (os io') = f_now (os io) \<and> f_ticks (os io') = f_ticks (os io)"

definition os_quiet :: "os_file \<Rightarrow> os_file \<Rightarrow> bool" where
  "os_quiet f f' \<longleftrightarrow> f' = f\<lparr>f_script := f_script f'\<rparr> \<and> (f_script f = [] \<longrightarrow> f_script f' = [])"

definition io_quiet :: "blkio \<Rightarrow> blkio \<Rightarrow> bool" where
  "io_quiet io io' \<longleftrightarrow> io_same io io' \<and> os_quiet (os io) (os io')"

text \<open>An offset is settled when every power cut leaves its present byte there.\<close>

definition settled :: "os_file \<Rightarrow> nat \<Rightarrow> bool" where
  "settled f i \<longleftrightarrow> f_stable f i = f_data f i
     \<and> (\<forall>(off, bs) \<in> set (f_writes f). off \<le> i \<and> i < off + length bs \<longrightarrow> bs ! (i - off) = f_data f i)"

lemma crash_settled: "crash_image f c \<Longrightarrow> settled f i \<Longrightarrow> c i = f_data f i"
  by (drule crash_image_def [THEN iffD1, THEN spec, of _ _ i]) (auto simp: settled_def)

lemma os_quiet_refl [simp]: "os_quiet f f"
  by (simp add: os_quiet_def)

lemma os_quiet_trans: "os_quiet f g \<Longrightarrow> os_quiet g h \<Longrightarrow> os_quiet f h"
  by (cases f; cases g; cases h) (auto simp: os_quiet_def)

lemma os_quiet_fields:
  assumes "os_quiet f f'"
  shows "f_data f' = f_data f" "f_size f' = f_size f" "f_stable f' = f_stable f"
    "f_writes f' = f_writes f" "f_now f' = f_now f" "f_ticks f' = f_ticks f"
  using assms by (cases f; cases f'; simp add: os_quiet_def)+

lemma io_same_refl [simp]: "io_same io io"
  by (simp add: io_same_def)

lemma io_same_trans: "io_same a b \<Longrightarrow> io_same b c \<Longrightarrow> io_same a c"
  by (simp add: io_same_def)

lemma io_quiet_refl [simp]: "io_quiet io io"
  by (simp add: io_quiet_def)

lemma io_quiet_trans: "io_quiet a b \<Longrightarrow> io_quiet b c \<Longrightarrow> io_quiet a c"
  by (auto simp: io_quiet_def intro: io_same_trans os_quiet_trans)

lemma io_quiet_data: "io_quiet io io' \<Longrightarrow> io_data io' = io_data io"
  by (simp add: io_quiet_def os_quiet_fields)

lemma io_quiet_bounce [simp]: "io_quiet io (io'\<lparr>bounce := b\<rparr>) = io_quiet io io'"
  by (simp add: io_quiet_def io_same_def)

lemma io_same_bounce [simp]: "io_same (io\<lparr>bounce := b\<rparr>) io' = io_same io io'"
  by (simp add: io_same_def)

lemma os_next_quiet: "os_next f = (r, f') \<Longrightarrow> os_quiet f f'"
  by (auto simp: os_quiet_def split: list.splits)

lemma os_pread_spec:
  assumes "os_pread f off want = (r, f')"
  shows "os_quiet f f'"
    and "r = Some bs \<Longrightarrow> bs = store_read (f_data f) off (length bs)"
proof -
  obtain q g where n: "os_next f = (q, g)" by fastforce
  note quiet = os_next_quiet [OF n]
  show "os_quiet f f'"
    using assms quiet by (auto simp: os_pread_def n Let_def split: option.splits simp del: os_next.simps)
  show "r = Some bs \<Longrightarrow> bs = store_read (f_data f) off (length bs)"
    using assms os_quiet_fields [OF quiet]
    by (auto simp: os_pread_def n Let_def split: option.splits simp del: os_next.simps)
qed

lemma raw_pread_loop_spec:
  "raw_pread_loop f off len = (r, f') \<Longrightarrow>
     os_quiet f f' \<and> (\<forall>bs. r = Some bs \<longrightarrow> bs = store_read (f_data f) off len)"
proof (induction f off len arbitrary: r f' rule: raw_pread_loop.induct)
  case (1 f off len)
  show ?case
  proof (cases "len = 0")
    case True
    then show ?thesis using "1.prems" by (auto simp: raw_pread_loop.simps)
  next
    case False
    obtain q g where p: "os_pread f off len = (q, g)" by fastforce
    note quiet = os_pread_spec(1) [OF p]
    show ?thesis
    proof (cases "q = None \<or> q = Some []")
      case True
      then show ?thesis using "1.prems" False quiet
        by (subst (asm) raw_pread_loop.simps) (auto simp: p)
    next
      case more: False
      then obtain bs where bs: "q = Some bs" "bs \<noteq> []" by auto
      obtain r2 f2 where rec: "raw_pread_loop g (off + length bs) (len - length bs) = (r2, f2)"
        by fastforce
      have ih: "os_quiet g f2" "\<And>rest. r2 = Some rest \<Longrightarrow>
          rest = store_read (f_data g) (off + length bs) (len - length bs)"
        using "1.IH" [OF False p [symmetric] bs(1) bs(2) rec] by auto
      have out: "(r, f') = (case r2 of None \<Rightarrow> (None, f2) | Some rest \<Rightarrow> (Some (bs @ rest), f2))"
        using "1.prems" False bs rec by (subst (asm) raw_pread_loop.simps) (simp add: p)
      have "length bs \<le> len" using os_pread_len p bs by blast
      then have "store_read (f_data f) off len = bs @ store_read (f_data f) (off + length bs) (len - length bs)"
        using store_read_append [of "f_data f" off "length bs" "len - length bs"]
          os_pread_spec(2) [OF p bs(1)] by simp
      then show ?thesis
        using out ih quiet os_quiet_trans [OF quiet ih(1)] os_quiet_fields [OF quiet]
        by (auto split: option.splits)
    qed
  qed
qed

lemma raw_pread_spec:
  assumes "raw_pread io off len = (r, io')"
  shows "io_quiet io io'" and "bounce io' = bounce io"
    and "r = Some bs \<Longrightarrow> bs = store_read (io_data io) off len"
proof -
  obtain q f where l: "raw_pread_loop (os io) off len = (q, f)" by fastforce
  note spec = raw_pread_loop_spec [OF l]
  show "io_quiet io io'" "bounce io' = bounce io"
    and "r = Some bs \<Longrightarrow> bs = store_read (io_data io) off len"
    using assms spec by (auto simp: raw_pread_def l Let_def io_quiet_def io_same_def os_quiet_fields split: if_splits)
qed

text \<open>\<open>os_wrote f off bs k f'\<close>: the first \<open>k\<close> bytes of \<open>bs\<close> reached the file and nothing else
  changed; a settled offset that the transfer leaves at its value stays settled.\<close>

definition os_wrote :: "os_file \<Rightarrow> nat \<Rightarrow> bytes \<Rightarrow> nat \<Rightarrow> os_file \<Rightarrow> bool" where
  "os_wrote f off bs k f' \<longleftrightarrow>
     k \<le> length bs \<and> f_data f' = store_write (f_data f) off (take k bs)
     \<and> f_stable f' = f_stable f \<and> f_now f' = f_now f \<and> f_ticks f' = f_ticks f
     \<and> f_size f' = max (f_size f) (if k = 0 then 0 else off + k)
     \<and> (\<forall>i. settled f i \<longrightarrow> (off \<le> i \<and> i < off + k \<longrightarrow> bs ! (i - off) = f_data f i) \<longrightarrow> settled f' i)"

lemma os_wrote_0: "os_quiet f f' \<Longrightarrow> os_wrote f off bs 0 f'"
  by (simp add: os_wrote_def settled_def os_quiet_fields)

lemma os_wrote_step:
  assumes "os_wrote f off bs n g" and "os_wrote g (off + n) (drop n bs) k h"
  shows "os_wrote f off bs (n + k) h"
proof -
  have n: "n \<le> length bs" and k: "k \<le> length bs - n" using assms by (auto simp: os_wrote_def)
  have "f_data h = store_write (f_data f) off (take (n + k) bs)"
    using assms n by (simp add: os_wrote_def take_add store_write_append)
  moreover have "settled h i"
    if st: "settled f i" and same: "off \<le> i \<and> i < off + (n + k) \<longrightarrow> bs ! (i - off) = f_data f i" for i
  proof -
    have g: "settled g i" using assms(1) st same by (auto simp: os_wrote_def)
    have "f_data g i = f_data f i"
      using assms(1) same n by (auto simp: os_wrote_def store_write_def)
    then have "off + n \<le> i \<and> i < off + n + k \<longrightarrow> drop n bs ! (i - (off + n)) = f_data g i"
      using same n by auto
    then show ?thesis using assms(2) g by (simp add: os_wrote_def)
  qed
  moreover have "f_size h = max (max (f_size f) (if n = 0 then 0 else off + n)) (if k = 0 then 0 else off + n + k)"
    and same: "f_stable h = f_stable f" "f_now h = f_now f" "f_ticks h = f_ticks f"
    using assms by (simp_all add: os_wrote_def)
  then have "f_size h = max (f_size f) (if n + k = 0 then 0 else off + (n + k))" by (simp split: if_splits)
  ultimately show ?thesis
    unfolding os_wrote_def using n k same by simp
qed

lemma os_pwrite_spec:
  assumes "os_pwrite f off bs = (r, f')"
  shows "os_wrote f off bs (case r of None \<Rightarrow> 0 | Some n \<Rightarrow> n) f'"
    and "f_script f = [] \<Longrightarrow> r = Some (length bs) \<and> f_script f' = []"
proof -
  obtain q g where nx: "os_next f = (q, g)" by fastforce
  note quiet = os_next_quiet [OF nx]
  have len: "os_count q (length bs) = Some n \<Longrightarrow> n \<le> length bs" for n
    by (cases q) auto
  show "os_wrote f off bs (case r of None \<Rightarrow> 0 | Some n \<Rightarrow> n) f'"
  proof (cases "os_count q (length bs) = None \<or> os_count q (length bs) = Some 0")
    case True
    then have "f' = g" "r = None \<or> r = Some 0"
      using assms by (auto simp: os_pwrite_def nx Let_def simp del: os_next.simps)
    then show ?thesis using os_wrote_0 [OF quiet] by auto
  next
    case False
    then obtain n where n: "os_count q (length bs) = Some n" "n \<noteq> 0" by auto
    then have r: "r = Some n" and f': "f' = g\<lparr>f_data := store_write (f_data g) off (take n bs),
        f_size := max (f_size g) (off + n), f_writes := (off, take n bs) # f_writes g\<rparr>"
      using assms by (auto simp: os_pwrite_def nx Let_def simp del: os_next.simps)
    have "n \<le> length bs" using n(1) by (rule len)
    moreover have "store_write (f_data f) off (take n bs) i = f_data f i"
      if "off \<le> i \<and> i < off + n \<longrightarrow> bs ! (i - off) = f_data f i" for i
      using that \<open>n \<le> length bs\<close> by (auto simp: store_write_def)
    ultimately show ?thesis
      using n(2) os_quiet_fields [OF quiet] by (auto simp: r f' os_wrote_def settled_def)
  qed
  show "f_script f = [] \<Longrightarrow> r = Some (length bs) \<and> f_script f' = []"
    using assms by (auto simp: os_pwrite_def Let_def split: if_splits)
qed

lemma raw_pwrite_loop_spec:
  "raw_pwrite_loop f off bs = (r, f') \<Longrightarrow>
     (\<exists>k. os_wrote f off bs k f' \<and> (r = 0 \<longrightarrow> k = length bs)) \<and> (r = 0 \<or> r = -1)
     \<and> (f_script f = [] \<longrightarrow> r = 0 \<and> f_script f' = [])"
proof (induction f off bs arbitrary: r f' rule: raw_pwrite_loop.induct)
  case (1 f off bs)
  show ?case
  proof (cases "bs = []")
    case True
    then have "r = 0" "f' = f" using "1.prems" by (auto simp: raw_pwrite_loop.simps)
    then show ?thesis using True os_wrote_0 [of f f off bs] by auto
  next
    case False
    obtain q g where w: "os_pwrite f off bs = (q, g)" by fastforce
    note spec = os_pwrite_spec [OF w]
    show ?thesis
    proof (cases "q = None \<or> q = Some 0")
      case True
      then have "r = -1" "f' = g" "os_wrote f off bs 0 g" and "f_script f \<noteq> []"
        using "1.prems" False spec by (subst (asm) raw_pwrite_loop.simps; auto simp: w)+
      then show ?thesis by auto
    next
      case more: False
      then obtain n where n: "q = Some n" "n \<noteq> 0" by auto
      have rec: "raw_pwrite_loop g (off + n) (drop n bs) = (r, f')"
        using "1.prems" False n by (subst (asm) raw_pwrite_loop.simps) (simp add: w)
      have ih: "(\<exists>k. os_wrote g (off + n) (drop n bs) k f' \<and> (r = 0 \<longrightarrow> k = length (drop n bs)))
          \<and> (r = 0 \<or> r = -1) \<and> (f_script g = [] \<longrightarrow> r = 0 \<and> f_script f' = [])"
        by (rule "1.IH" [OF False w [symmetric] n rec])
      have "n \<le> length bs" using os_pwrite_len w n by blast
      moreover have "os_wrote f off bs n g" using spec(1) n by simp
      ultimately show ?thesis
        using ih spec(2) os_wrote_step [of f off bs n g] by fastforce
    qed
  qed
qed

lemma raw_pwrite_spec:
  assumes "raw_pwrite io off bs = (r, io')"
  obtains k where "os_wrote (os io) off bs k (os io')" "r = 0 \<Longrightarrow> k = length bs" "r = 0 \<or> r = -1"
    "io_same io io'" "bounce io' = bounce io"
    "fd io \<ge> 0 \<Longrightarrow> f_script (os io) = [] \<Longrightarrow> r = 0 \<and> f_script (os io') = []"
proof -
  obtain q f where l: "raw_pwrite_loop (os io) off bs = (q, f)" by fastforce
  from raw_pwrite_loop_spec [OF l] obtain k
    where k: "os_wrote (os io) off bs k f" "q = 0 \<longrightarrow> k = length bs" "q = 0 \<or> q = -1"
      "f_script (os io) = [] \<longrightarrow> q = 0 \<and> f_script f = []" by blast
  have same: "f_stable f = f_stable (os io)" "f_now f = f_now (os io)" "f_ticks f = f_ticks (os io)"
    using k(1) by (auto simp: os_wrote_def)
  show thesis
  proof (cases "bs = [] \<or> fd io < 0")
    case True
    show thesis
      by (rule that [of 0]) (use assms True in \<open>auto simp: raw_pwrite_def Let_def io_same_def os_wrote_0 split: if_splits\<close>)
  next
    case False
    show thesis
      by (rule that [of k]) (use assms False k same in \<open>auto simp: raw_pwrite_def Let_def l io_same_def\<close>)
  qed
qed

section \<open>The aligned path\<close>

lemma BLKIO_ALIGN_pos [simp]: "0 < BLKIO_ALIGN"
  by (simp add: BLKIO_ALIGN_def)

lemma align_down_qr: "r < BLKIO_ALIGN \<Longrightarrow> align_down (q * BLKIO_ALIGN + r) = q * BLKIO_ALIGN"
  by (simp add: align_down_def)

lemma align_up_qr:
  assumes "r < BLKIO_ALIGN"
  shows "align_up (q * BLKIO_ALIGN + r) = (if r = 0 then q * BLKIO_ALIGN else (q + 1) * BLKIO_ALIGN)"
proof (cases "r = 0")
  case True
  have "q * BLKIO_ALIGN + 0 + BLKIO_ALIGN - 1 = q * BLKIO_ALIGN + (BLKIO_ALIGN - 1)"
    using BLKIO_ALIGN_pos by linarith
  then show ?thesis
    using align_down_qr [of "BLKIO_ALIGN - 1" q] True unfolding align_up_def by simp
next
  case False
  then have "q * BLKIO_ALIGN + r + BLKIO_ALIGN - 1 = (q + 1) * BLKIO_ALIGN + (r - 1)" by simp
  then show ?thesis
    using align_down_qr [of "r - 1" "q + 1"] assms False by (simp add: align_up_def)
qed

lemma align_cases:
  obtains q r where "x = q * BLKIO_ALIGN + r" "r < BLKIO_ALIGN"
  using that [of "x div BLKIO_ALIGN" "x mod BLKIO_ALIGN"] by simp

lemma align_up_split:
  obtains q r where "x = q * BLKIO_ALIGN + r" "r < BLKIO_ALIGN" "x mod BLKIO_ALIGN = r"
    "align_up x = (if r = 0 then q * BLKIO_ALIGN else q * BLKIO_ALIGN + BLKIO_ALIGN)"
proof -
  obtain q r where q: "x = q * BLKIO_ALIGN + r" "r < BLKIO_ALIGN" by (rule align_cases)
  have "x mod BLKIO_ALIGN = r" using q by simp
  moreover have "align_up x = (if r = 0 then q * BLKIO_ALIGN else q * BLKIO_ALIGN + BLKIO_ALIGN)"
    unfolding q(1) using align_up_qr [OF q(2), of q] by simp
  ultimately show thesis using that q by blast
qed

lemma align_up_bounds: "x \<le> align_up x" "align_up x < x + BLKIO_ALIGN"
  by (rule align_up_split [of x]; simp split: if_splits)+

lemma align_up_tail:
  "x mod BLKIO_ALIGN = 0 \<Longrightarrow> align_up x = x"
  "x mod BLKIO_ALIGN \<noteq> 0 \<Longrightarrow> align_up x - BLKIO_ALIGN \<le> x"
  by (rule align_up_split [of x]; simp)+

lemma align_up_ge: "0 < x \<Longrightarrow> BLKIO_ALIGN \<le> align_up x"
  by (rule align_up_split [of x]) (cases "x < BLKIO_ALIGN"; auto split: if_splits)

lemma align_end_le:
  assumes "off + len \<le> c" and "c mod BLKIO_ALIGN = 0"
  shows "align_down off + align_up (off - align_down off + len) \<le> c"
proof -
  obtain q r where q: "off = q * BLKIO_ALIGN + r" "r < BLKIO_ALIGN" by (rule align_cases)
  obtain q2 r2 where q2: "r + len = q2 * BLKIO_ALIGN + r2" "r2 < BLKIO_ALIGN" by (rule align_cases)
  obtain k where k: "c = k * BLKIO_ALIGN" using assms(2) by (metis dvd_def mod_eq_0_iff_dvd mult.commute)
  have "(q + q2) * BLKIO_ALIGN + r2 \<le> k * BLKIO_ALIGN"
    using assms(1) q q2(1) k by (simp add: algebra_simps)
  then have "r2 = 0 \<and> q + q2 \<le> k \<or> q + q2 + 1 \<le> k"
    using q2(2) by (metis BLKIO_ALIGN_pos Suc_eq_plus1 add_cancel_left_right add_leE le_neq_implies_less
        less_eq_Suc_le linorder_not_less mult_le_cancel2 order_antisym_conv)
  then have "(q + q2) * BLKIO_ALIGN + (if r2 = 0 then 0 else BLKIO_ALIGN) \<le> k * BLKIO_ALIGN"
    using mult_le_mono1 [of "q + q2" k BLKIO_ALIGN] mult_le_mono1 [of "q + q2 + 1" k BLKIO_ALIGN]
    by (auto simp: add_mult_distrib)
  moreover have "align_down off = q * BLKIO_ALIGN" "off - q * BLKIO_ALIGN + len = r + len"
    using q by (simp_all add: align_down_qr)
  moreover have "align_up (r + len) = q2 * BLKIO_ALIGN + (if r2 = 0 then 0 else BLKIO_ALIGN)"
    using q2 by (simp add: align_up_qr)
  ultimately show ?thesis
    by (simp add: k add_mult_distrib)
qed

lemma raw_pread_ok:
  assumes "f_script (os io) = []" "fd io \<ge> 0" "off + len \<le> f_size (os io)"
  shows "\<exists>io'. raw_pread io off len = (Some (store_read (io_data io) off len), io')"
proof (cases "len = 0")
  case False
  have "os_pread (os io) off len = (Some (store_read (io_data io) off len), os io)"
    using assms by (simp add: os_pread_def Let_def min_absorb1)
  moreover have "store_read (io_data io) off len \<noteq> []"
    using False length_store_read [of "io_data io" off len] by (metis list.size(3))
  ultimately have "raw_pread_loop (os io) off len = (Some (store_read (io_data io) off len), os io)"
    using False by (subst raw_pread_loop.simps) (simp add: raw_pread_loop.simps)
  then show ?thesis using assms False by (simp add: raw_pread_def Let_def)
qed (simp add: raw_pread_def Let_def)

lemma dev_read_chunk_spec:
  assumes "dev_read_chunk io off want = (r, io')"
  shows "io_quiet io io'" and "r = Some bs \<Longrightarrow> bs = store_read (io_data io) off want"
proof -
  define base where "base = align_down off"
  define skip where "skip = off - base"
  define L where "L = (if base + align_up (skip + want) > cap io then cap io - base else align_up (skip + want))"
  have off: "off = base + skip" using align_down_le [of off] by (simp add: base_def skip_def)
  obtain q io1 where rp: "raw_pread io base L = (q, io1)" by fastforce
  note spec = raw_pread_spec [OF rp]
  show "io_quiet io io'"
    using assms spec(1) rp
    by (auto simp: dev_read_chunk_def Let_def L_def base_def skip_def split: if_splits option.splits)
  assume "r = Some bs"
  then have L: "skip + want \<le> L" and bs: "bs = store_read (store_write (bounce io1) 0 (the q)) skip want"
    and q: "q \<noteq> None"
    using assms rp align_up_bounds(1) [of "skip + want"]
    by (auto simp: dev_read_chunk_def Let_def L_def base_def skip_def split: if_splits option.splits)
  have "the q = store_read (io_data io) base L" using spec(3) q by auto
  then show "bs = store_read (io_data io) off want"
    using L by (simp add: bs off store_read_write_inside bslice_store_read)
qed

lemma dev_pread_spec:
  "dev_pread io off len = (r, io') \<Longrightarrow>
     io_quiet io io' \<and> (\<forall>bs. r = Some bs \<longrightarrow> bs = store_read (io_data io) off len)"
proof (induction io off len arbitrary: r io' rule: dev_pread.induct)
  case (1 io off len)
  show ?case
  proof (cases "len = 0")
    case True
    then show ?thesis using "1.prems" by (auto simp: dev_pread.simps)
  next
    case False
    define want where "want = chunk_want off len"
    obtain q io1 where c: "dev_read_chunk io off want = (q, io1)" by fastforce
    note spec = dev_read_chunk_spec [OF c]
    show ?thesis
    proof (cases q)
      case None
      then show ?thesis using "1.prems" False spec
        by (subst (asm) dev_pread.simps) (auto simp: want_def [symmetric] c)
    next
      case (Some out)
      obtain r2 io2 where rec: "dev_pread io1 (off + want) (len - want) = (r2, io2)" by fastforce
      have ih: "io_quiet io1 io2 \<and> (\<forall>bs. r2 = Some bs \<longrightarrow> bs = store_read (io_data io1) (off + want) (len - want))"
        by (rule "1.IH" [OF False want_def c [symmetric] Some rec])
      have "want \<le> len" by (simp add: want_def chunk_want_le)
      then have "store_read (io_data io) off len = out @ store_read (io_data io) (off + want) (len - want)"
        using store_read_append [of "io_data io" off want "len - want"] spec(2) [OF Some] by simp
      moreover have "(r, io') = (case r2 of None \<Rightarrow> (None, io2) | Some rest \<Rightarrow> (Some (out @ rest), io2))"
        using "1.prems" False Some rec by (subst (asm) dev_pread.simps) (simp add: want_def [symmetric] c)
      ultimately show ?thesis
        using ih io_quiet_trans [OF spec(1)] io_quiet_data [OF spec(1)] by (auto split: option.splits)
    qed
  qed
qed

lemma bounce_fill_spec:
  assumes "bounce_fill io off at len = (r, io')"
  shows "io_quiet io io'" and "r = 0 \<or> r = -1"
    and "r = 0 \<Longrightarrow> bounce io' = store_write (bounce io) at (store_read (io_data io) off len)"
  using assms raw_pread_spec [of io off len]
  by (auto simp: bounce_fill_def split: prod.splits option.splits)

lemma dev_read_back_spec:
  assumes rb: "dev_read_back io base skip tail span = (r, io')"
    and span: "span = align_up (skip + want)" and tail: "tail = (skip + want) mod BLKIO_ALIGN"
    and skip: "skip < BLKIO_ALIGN" and want: "0 < want"
  shows "io_quiet io io'" and "r = 0 \<or> r = -1"
    and "r = 0 \<Longrightarrow> j < span \<Longrightarrow> j < skip \<or> skip + want \<le> j \<Longrightarrow> bounce io' j = io_data io (base + j)"
proof -
  obtain r1 io1 where first:
    "(if skip \<noteq> 0 then bounce_fill io base 0 BLKIO_ALIGN else (0, io)) = (r1, io1)"
    by fastforce
  have body: "(if skip \<noteq> 0 \<and> tail \<noteq> 0 \<and> span = 2 * BLKIO_ALIGN then bounce_fill io base 0 span
      else if r1 \<noteq> 0 then (r1, io1)
      else if tail \<noteq> 0 \<and> \<not> (skip \<noteq> 0 \<and> span - BLKIO_ALIGN = 0)
           then bounce_fill io1 (base + (span - BLKIO_ALIGN)) (span - BLKIO_ALIGN) BLKIO_ALIGN
      else (0, io1)) = (r, io')"
    using rb unfolding dev_read_back_def first Let_def prod.case .
  have s1: "io_quiet io io1" "r1 = 0 \<or> r1 = -1"
    "r1 = 0 \<Longrightarrow> skip \<noteq> 0 \<Longrightarrow> bounce io1 = store_write (bounce io) 0 (store_read (io_data io) base BLKIO_ALIGN)"
    using first bounce_fill_spec [of io base 0 BLKIO_ALIGN r1 io1] by (auto split: if_splits)
  note d1 = io_quiet_data [OF s1(1)]
  have ge: "BLKIO_ALIGN \<le> span" using want by (simp add: span align_up_ge)
  have low: "skip + want \<le> span" by (simp add: span align_up_bounds)
  have last: "tail = 0 \<Longrightarrow> span = skip + want" "tail \<noteq> 0 \<Longrightarrow> span - BLKIO_ALIGN \<le> skip + want"
    by (auto simp: span tail align_up_tail)
  show "io_quiet io io'" "r = 0 \<or> r = -1"
    using body s1 bounce_fill_spec(1,2) io_quiet_trans [OF s1(1)] by (auto split: if_splits)
  assume r: "r = 0" and j: "j < span" "j < skip \<or> skip + want \<le> j"
  consider (both) "skip \<noteq> 0" "tail \<noteq> 0" "span = 2 * BLKIO_ALIGN"
    | (two) "\<not> (skip \<noteq> 0 \<and> tail \<noteq> 0 \<and> span = 2 * BLKIO_ALIGN)" "tail \<noteq> 0" "\<not> (skip \<noteq> 0 \<and> span - BLKIO_ALIGN = 0)"
    | (one) "\<not> (skip \<noteq> 0 \<and> tail \<noteq> 0 \<and> span = 2 * BLKIO_ALIGN)" "tail = 0 \<or> skip \<noteq> 0 \<and> span - BLKIO_ALIGN = 0"
    by argo
  then show "bounce io' j = io_data io (base + j)"
  proof cases
    case both
    then have "bounce_fill io base 0 span = (0, io')" using body r by simp
    then show ?thesis using bounce_fill_spec(3) j by (simp add: store_write_in)
  next
    case two
    then have "r1 = 0" "bounce_fill io1 (base + (span - BLKIO_ALIGN)) (span - BLKIO_ALIGN) BLKIO_ALIGN = (0, io')"
      using body r s1(2) by (auto split: if_splits)
    then have "bounce io' = store_write (bounce io1) (span - BLKIO_ALIGN)
        (store_read (io_data io) (base + (span - BLKIO_ALIGN)) BLKIO_ALIGN)"
      using bounce_fill_spec(3) d1 by simp
    then show ?thesis
      using j ge last(2) [OF two(2)] s1(3) [OF \<open>r1 = 0\<close>] skip
      by (auto simp: store_write_def)
  next
    case one
    then have "r1 = 0" "io' = io1"
      using body r s1(2) by (auto split: if_splits)
    then show ?thesis
      using one j ge last skip s1(3) by (auto simp: store_write_def)
  qed
qed

text \<open>\<open>io_wrote\<close> is \<open>os_wrote\<close> for a handle: what a read-modify-write of whole blocks amounts to.\<close>

definition io_wrote :: "blkio \<Rightarrow> nat \<Rightarrow> bytes \<Rightarrow> nat \<Rightarrow> blkio \<Rightarrow> bool" where
  "io_wrote io off bs k io' \<longleftrightarrow>
     k \<le> length bs \<and> io_data io' = store_write (io_data io) off (take k bs)
     \<and> io_same io io' \<and> f_size (os io) \<le> f_size (os io') \<and> (0 < k \<longrightarrow> off + k \<le> f_size (os io'))
     \<and> (\<forall>i. settled (os io) i \<longrightarrow> (off \<le> i \<and> i < off + k \<longrightarrow> bs ! (i - off) = io_data io i)
            \<longrightarrow> settled (os io') i)"

lemma settled_quiet: "os_quiet f f' \<Longrightarrow> settled f' i = settled f i"
  by (simp add: settled_def os_quiet_fields)

lemma io_wrote_0: "io_quiet io io' \<Longrightarrow> io_wrote io off bs 0 io'"
  using settled_quiet [of "os io" "os io'"] os_quiet_fields [of "os io" "os io'"]
  by (simp add: io_wrote_def io_quiet_def)

lemma os_wrote_io: "os_wrote (os io) off bs k (os io') \<Longrightarrow> io_same io io' \<Longrightarrow> io_wrote io off bs k io'"
  by (simp add: os_wrote_def io_wrote_def)

lemma io_wrote_step:
  assumes a: "io_wrote io off (take n bs) n io1" and b: "io_wrote io1 (off + n) (drop n bs) k io2"
    and n: "n \<le> length bs"
  shows "io_wrote io off bs (n + k) io2"
proof -
  have k: "k \<le> length bs - n" using b by (simp add: io_wrote_def)
  have "io_data io2 = store_write (io_data io) off (take (n + k) bs)"
    using a b n by (simp add: io_wrote_def take_add store_write_append)
  moreover have "settled (os io2) i"
    if st: "settled (os io) i" and same: "off \<le> i \<and> i < off + (n + k) \<longrightarrow> bs ! (i - off) = io_data io i" for i
  proof -
    have g: "settled (os io1) i" using a st same by (auto simp: io_wrote_def)
    have "io_data io1 i = io_data io i"
      using a same n by (auto simp: io_wrote_def store_write_def)
    then have "off + n \<le> i \<and> i < off + n + k \<longrightarrow> drop n bs ! (i - (off + n)) = io_data io1 i"
      using same n by auto
    then show ?thesis using b g by (simp add: io_wrote_def)
  qed
  moreover have "io_same io io2" using a b io_same_trans unfolding io_wrote_def by blast
  moreover have "f_size (os io) \<le> f_size (os io2)" "0 < n + k \<longrightarrow> off + (n + k) \<le> f_size (os io2)"
    using a b unfolding io_wrote_def by linarith+
  ultimately show ?thesis
    using n k unfolding io_wrote_def by simp
qed

text \<open>Writing a prefix of a patched image of whole blocks is writing a prefix of the patch.\<close>

lemma patched_block:
  assumes X: "length X = span" "kk \<le> span"
    "\<And>j. j < span \<Longrightarrow> X ! j = (if skip \<le> j \<and> j < skip + length bs then bs ! (j - skip) else f (base + j))"
  shows "store_write f base (take kk X) = store_write f (base + skip) (take (min (kk - skip) (length bs)) bs)"
proof
  fix i
  consider (out) "i < base \<or> base + kk \<le> i" | (pay) j where "i = base + skip + j" "skip + j < kk" "j < length bs"
    | (old) j where "i = base + j" "j < kk" "j < skip \<or> skip + length bs \<le> j"
    by (metis add.assoc leI le_Suc_ex less_diff_conv2 nat_add_left_cancel_less)
  then show "store_write f base (take kk X) i = store_write f (base + skip) (take (min (kk - skip) (length bs)) bs) i"
  proof cases
    case out
    then show ?thesis using X by (auto simp: store_write_def)
  next
    case (pay j)
    then have "j < kk - skip" by simp
    then show ?thesis using X pay by (simp add: store_write_def)
  next
    case (old j)
    then show ?thesis using X by (auto simp: store_write_def)
  qed
qed

lemma dev_write_chunk_spec:
  assumes wc: "dev_write_chunk io off bs = (r, io')" and ne: "bs \<noteq> []"
  obtains k where "io_wrote io off bs k io'" "r = 0 \<Longrightarrow> k = length bs" "r = 0 \<or> r = -1"
proof -
  define base where "base = align_down off"
  define skip where "skip = off - base"
  define span where "span = align_up (skip + length bs)"
  define tail where "tail = (skip + length bs) mod BLKIO_ALIGN"
  note defs = base_def skip_def span_def tail_def
  have off: "off = base + skip" using align_down_le [of off] by (simp add: defs)
  have le: "skip + length bs \<le> span" by (simp add: span_def align_up_bounds)
  obtain q io1 where rb: "dev_read_back io base skip tail span = (q, io1)" by fastforce
  have "skip < BLKIO_ALIGN" using align_down_gap by (simp add: defs)
  then have bk: "io_quiet io io1" "q = 0 \<or> q = -1"
    "\<And>j. q = 0 \<Longrightarrow> j < span \<Longrightarrow> j < skip \<or> skip + length bs \<le> j \<Longrightarrow> bounce io1 j = io_data io (base + j)"
    using dev_read_back_spec [OF rb span_def tail_def] ne by auto
  show thesis
  proof (cases "base + span > cap io \<or> q \<noteq> 0")
    case True
    then have "io' = io \<or> io' = io1" "r = -1" using wc rb bk(2)
      by (auto simp: dev_write_chunk_def Let_def defs split: if_splits)
    then have "io_quiet io io'" using bk(1) by auto
    then show thesis using that [of 0] io_wrote_0 \<open>r = -1\<close> by simp
  next
    case False
    define X where "X = store_read (store_write (bounce io1) skip bs) 0 span"
    have Xlen: "length X = span" by (simp add: X_def)
    have X: "X ! j = (if skip \<le> j \<and> j < skip + length bs then bs ! (j - skip) else io_data io (base + j))"
      if "j < span" for j
      using that bk(3) [of j] False by (auto simp: X_def store_write_def)
    have rw: "raw_pwrite (io1\<lparr>bounce := store_write (bounce io1) skip bs\<rparr>) base X = (r, io')"
      using wc False rb by (simp add: dev_write_chunk_def Let_def defs X_def split: if_splits)
    from raw_pwrite_spec [OF rw] obtain kk where kk:
      "os_wrote (os io1) base X kk (os io')" "r = 0 \<longrightarrow> kk = length X" "r = 0 \<or> r = -1" "io_same io1 io'"
      by (metis blkio.select_convs(19) blkio.surjective blkio.update_convs(6) io_same_bounce)
    note q1 = bk(1)
    define k where "k = min (kk - skip) (length bs)"
    have "k \<le> length bs" by (simp add: k_def)
    have "kk \<le> span" using kk(1) Xlen by (simp add: os_wrote_def)
    have written: "io_data io' = store_write (io_data io) base (take kk X)"
      using kk(1) io_quiet_data [OF q1] by (simp add: os_wrote_def)
    have data: "io_data io' = store_write (io_data io) off (take k bs)"
      unfolding written off k_def by (rule patched_block [OF Xlen \<open>kk \<le> span\<close> X])
    moreover have "settled (os io') i"
      if st: "settled (os io) i" and same: "off \<le> i \<and> i < off + k \<longrightarrow> bs ! (i - off) = io_data io i" for i
    proof -
      have "base \<le> i \<and> i < base + kk \<longrightarrow> X ! (i - base) = f_data (os io1) i"
        using same X [of "i - base"] \<open>kk \<le> span\<close> io_quiet_data [OF q1]
        by (auto simp: k_def off min_def split: if_splits)
      moreover have "settled (os io1) i" using st q1 settled_quiet [of "os io" "os io1"] by (simp add: io_quiet_def)
      ultimately show ?thesis using kk(1) by (simp add: os_wrote_def)
    qed
    moreover have "f_size (os io1) = f_size (os io)"
      using q1 os_quiet_fields [of "os io" "os io1"] by (simp add: io_quiet_def)
    moreover have "io_same io io'" using q1 kk(4) io_same_trans unfolding io_quiet_def by blast
    moreover have "f_size (os io1) \<le> f_size (os io')" "0 < kk \<Longrightarrow> base + kk \<le> f_size (os io')"
      using kk(1) by (simp_all add: os_wrote_def)
    moreover have "k \<le> length bs" "0 < k \<Longrightarrow> 0 < kk \<and> off + k \<le> base + kk" by (auto simp: k_def off)
    ultimately have "io_wrote io off bs k io'"
      unfolding io_wrote_def by (metis order_trans)
    then show thesis using that [of k] kk(2,3) Xlen le by (auto simp: k_def)
  qed
qed

lemma dev_pwrite_spec:
  "dev_pwrite io off bs = (r, io') \<Longrightarrow>
     (\<exists>k. io_wrote io off bs k io' \<and> (r = 0 \<longrightarrow> k = length bs)) \<and> (r = 0 \<or> r = -1)"
proof (induction io off bs arbitrary: r io' rule: dev_pwrite.induct)
  case (1 io off bs)
  show ?case
  proof (cases "bs = []")
    case True
    then have "r = 0" "io' = io" using "1.prems" by (auto simp: dev_pwrite.simps)
    then show ?thesis using True io_wrote_0 [of io io off bs] by auto
  next
    case False
    define want where "want = chunk_want off (length bs)"
    have want: "0 < want" "want \<le> length bs"
      using False by (simp_all add: want_def chunk_want_pos chunk_want_le)
    obtain q io1 where c: "dev_write_chunk io off (take want bs) = (q, io1)" by fastforce
    have ne: "take want bs \<noteq> []" using want False by simp
    obtain k where k: "io_wrote io off (take want bs) k io1" "q = 0 \<Longrightarrow> k = want" "q = 0 \<or> q = -1"
      using dev_write_chunk_spec [OF c ne] want by (metis length_take min.absorb2)
    show ?thesis
    proof (cases "q = 0")
      case True
      have rec: "dev_pwrite io1 (off + want) (drop want bs) = (r, io')"
        using "1.prems" False True by (subst (asm) dev_pwrite.simps) (simp add: want_def [symmetric] c)
      have "(\<exists>k. io_wrote io1 (off + want) (drop want bs) k io' \<and> (r = 0 \<longrightarrow> k = length (drop want bs)))
          \<and> (r = 0 \<or> r = -1)"
        using "1.IH" [OF False want_def c [symmetric] refl _ rec] True by simp
      then show ?thesis
        using io_wrote_step [OF _ _ want(2)] k(1) k(2) [OF True] want by fastforce
    next
      case fail: False
      have "r = -1" "io' = io1"
        using "1.prems" False fail by (subst (asm) dev_pwrite.simps; simp add: want_def [symmetric] c)+
      moreover have "io_wrote io off bs k io1"
        using k(1) want by (auto simp: io_wrote_def min_def nth_take split: if_splits)
      ultimately show ?thesis by auto
    qed
  qed
qed

text \<open>The handle-level outcome of the two public transfers.\<close>

lemma blkio_pread_spec:
  assumes "blkio_pread io off len = (r, io')"
  shows "io_quiet io io'" and "r = Some bs \<Longrightarrow> bs = store_read (io_data io) off len"
  using assms dev_pread_spec [of io off len] raw_pread_spec [of io off len]
  by (auto simp: blkio_pread_def split: if_splits)

definition stamp :: "nat \<Rightarrow> blkio \<Rightarrow> blkio" where
  "stamp n io = (let (t, io0) = pf_now_ms (io\<lparr>dirty_bytes := dirty_bytes io + n\<rparr>) in io0\<lparr>last_write_ms := t\<rparr>)"

lemma stamp_os:
  "f_data (os (stamp n io)) = io_data io" "f_size (os (stamp n io)) = f_size (os io)"
  "f_stable (os (stamp n io)) = f_stable (os io)" "f_writes (os (stamp n io)) = f_writes (os io)"
  "f_script (os (stamp n io)) = f_script (os io)"
  "settled (os (stamp n io)) i = settled (os io) i"
  "write_gen (stamp n io) = write_gen io" "flushed_gen (stamp n io) = flushed_gen io"
  "fd (stamp n io) = fd io" "aligned (stamp n io) = aligned io" "cap (stamp n io) = cap io"
  "commit_bytes (stamp n io) = commit_bytes io" "commit_ms (stamp n io) = commit_ms io"
  "idle_ms (stamp n io) = idle_ms io" "force_flush (stamp n io) = force_flush io"
  "is_dev (stamp n io) = is_dev io" "io_pos (stamp n io) = io_pos io"
  by (auto simp: stamp_def pf_now_ms_def os_clock_def settled_def split: list.splits)

lemma blkio_pwrite_stamp:
  "blkio_pwrite io off bs =
     (if bs = [] then (0, stamp 0 io)
      else let (r, io2) = (if aligned io then dev_pwrite (stamp (length bs) io) off bs
                           else raw_pwrite (stamp (length bs) io) off bs)
           in (r, gc_bump io2))"
  by (auto simp: blkio_pwrite_def stamp_def pf_now_ms_def Let_def split: prod.splits)

lemma blkio_pwrite_spec:
  assumes "blkio_pwrite io off bs = (r, io')"
  obtains k where "k \<le> length bs" "r = 0 \<Longrightarrow> k = length bs" "r = 0 \<or> r = -1"
    "io_data io' = store_write (io_data io) off (take k bs)"
    "\<And>i. settled (os io) i \<Longrightarrow> i < off \<or> off + length bs \<le> i \<Longrightarrow> settled (os io') i"
    "fd io' = fd io" "cap io' = cap io" "aligned io' = aligned io" "flushed_gen io' = flushed_gen io"
    "bs \<noteq> [] \<Longrightarrow> write_gen io' = write_gen io + 1" "bs = [] \<Longrightarrow> write_gen io' = write_gen io"
    "commit_bytes io' = commit_bytes io" "commit_ms io' = commit_ms io" "idle_ms io' = idle_ms io"
    "force_flush io' = force_flush io" "f_size (os io) \<le> f_size (os io')"
proof (cases "bs = []")
  case True
  then show thesis
    using that [of 0] assms by (auto simp: blkio_pwrite_stamp stamp_os)
next
  case False
  define io0 where "io0 = stamp (length bs) io"
  obtain io2 where io2: "(if aligned io then dev_pwrite io0 off bs else raw_pwrite io0 off bs) = (r, io2)"
    and io': "io' = gc_bump io2"
    using assms False by (auto simp: blkio_pwrite_stamp io0_def split: prod.splits if_splits)
  obtain k where k: "io_wrote io0 off bs k io2" "r = 0 \<Longrightarrow> k = length bs" "r = 0 \<or> r = -1"
  proof (cases "aligned io")
    case True
    then show thesis using dev_pwrite_spec [of io0 off bs r io2] io2 that by auto
  next
    case False
    then have "raw_pwrite io0 off bs = (r, io2)" using io2 by simp
    from raw_pwrite_spec [OF this] obtain k where "os_wrote (os io0) off bs k (os io2)"
      "r = 0 \<longrightarrow> k = length bs" "r = 0 \<or> r = -1" "io_same io0 io2" by metis
    then show thesis using that [of k] os_wrote_io [of io0 off bs k io2] by auto
  qed
  have w: "k \<le> length bs" "io_data io2 = store_write (io_data io) off (take k bs)"
    "f_size (os io) \<le> f_size (os io2)" and same: "io_same io0 io2"
    using k(1) by (simp_all add: io_wrote_def io0_def stamp_os)
  have "settled (os io2) i" if "settled (os io) i" "i < off \<or> off + length bs \<le> i" for i
    using k(1) that w(1) unfolding io_wrote_def io0_def stamp_os by (meson dual_order.trans linorder_not_le nat_add_left_cancel_le)
  then show thesis
    using that [of k] w k(2,3) same False by (simp add: io' gc_bump_def io_same_def io0_def stamp_os)
qed

section \<open>Transfers succeed on a healthy handle\<close>

definition io_ready :: "blkio \<Rightarrow> bool" where
  "io_ready io \<longleftrightarrow> fd io \<ge> 0 \<and> f_script (os io) = []
     \<and> (aligned io \<longrightarrow> cap io mod BLKIO_ALIGN = 0 \<and> cap io \<le> f_size (os io))"

lemma io_ready_quiet: "io_ready io \<Longrightarrow> io_quiet io io' \<Longrightarrow> io_ready io'"
  using os_quiet_fields [of "os io" "os io'"] by (auto simp: io_ready_def io_quiet_def io_same_def os_quiet_def)

lemma bounce_fill_ok:
  assumes "io_ready io" "off + len \<le> f_size (os io)"
  shows "\<exists>io'. bounce_fill io off at len = (0, io')"
  using raw_pread_ok [of io off len] assms by (auto simp: bounce_fill_def io_ready_def)

lemma dev_read_back_ok:
  assumes "io_ready io" "base + span \<le> f_size (os io)" "BLKIO_ALIGN \<le> span"
  shows "fst (dev_read_back io base skip tail span) = 0"
proof -
  have fill: "fst (bounce_fill io x at len) = 0" if "x + len \<le> f_size (os io)" for x at len
    using bounce_fill_ok [OF assms(1) that, of at] by fastforce
  obtain b where b: "bounce_fill io base 0 BLKIO_ALIGN = (0, b)"
    using bounce_fill_ok [of io base BLKIO_ALIGN] assms by fastforce
  have "io_ready b" "f_size (os b) = f_size (os io)"
    using bounce_fill_spec(1) [OF b] io_ready_quiet [OF assms(1)] os_quiet_fields(2)
    by (auto simp: io_quiet_def)
  then have fill_b: "fst (bounce_fill b x at len) = 0" if "x + len \<le> f_size (os io)" for x at len
    using bounce_fill_ok [of b x len at] that by fastforce
  show ?thesis using assms(2,3) by (auto simp: dev_read_back_def b Let_def fill fill_b)
qed

lemma dev_write_chunk_ok:
  assumes "io_ready io" "aligned io" "off + length bs \<le> cap io" "bs \<noteq> []"
    and wc: "dev_write_chunk io off bs = (r, io')"
  shows "r = 0" and "io_ready io'"
proof -
  define base where "base = align_down off"
  define skip where "skip = off - base"
  define span where "span = align_up (skip + length bs)"
  define tail where "tail = (skip + length bs) mod BLKIO_ALIGN"
  note defs = base_def skip_def span_def tail_def
  have fits: "base + span \<le> cap io"
    using assms align_end_le [of off "length bs" "cap io"] by (simp add: defs io_ready_def)
  have pos: "BLKIO_ALIGN \<le> span" using assms(4) by (simp add: span_def align_up_ge)
  obtain q io1 where rb: "dev_read_back io base skip tail span = (q, io1)" by fastforce
  have q: "q = 0"
    using dev_read_back_ok [of io base span skip tail] assms(1,2) fits pos rb by (simp add: io_ready_def)
  have "skip < BLKIO_ALIGN" using align_down_gap by (simp add: defs)
  from dev_read_back_spec(1) [OF rb span_def tail_def this]
  have quiet: "io_quiet io io1" using assms(4) by simp
  define io2 where "io2 = io1\<lparr>bounce := store_write (bounce io1) skip bs\<rparr>"
  have ready: "io_ready io2"
    using io_ready_quiet [OF assms(1), of io2] quiet by (simp add: io2_def)
  have rw: "raw_pwrite io2 base (store_read (bounce io2) 0 span) = (r, io')"
    using wc rb q fits by (simp add: dev_write_chunk_def Let_def defs io2_def)
  obtain k where k: "os_wrote (os io2) base (store_read (bounce io2) 0 span) k (os io')" "io_same io2 io'"
    "r = 0 \<and> f_script (os io') = []"
    by (rule raw_pwrite_spec [OF rw]) (use ready in \<open>auto simp: io_ready_def\<close>)
  then show "r = 0" by simp
  have "f_size (os io2) \<le> f_size (os io')" using k(1) by (simp add: os_wrote_def)
  then show "io_ready io'" using k(2,3) ready by (auto simp: io_ready_def io_same_def)
qed

lemma dev_pwrite_ok:
  "io_ready io \<Longrightarrow> aligned io \<Longrightarrow> off + length bs \<le> cap io \<Longrightarrow> fst (dev_pwrite io off bs) = 0"
proof (induction io off bs rule: dev_pwrite.induct)
  case (1 io off bs)
  show ?case
  proof (cases "bs = []")
    case True
    then show ?thesis by (simp add: dev_pwrite.simps)
  next
    case False
    define want where "want = chunk_want off (length bs)"
    have want: "0 < want" "want \<le> length bs"
      using False by (simp_all add: want_def chunk_want_pos chunk_want_le)
    then have ne: "take want bs \<noteq> []" using False by simp
    obtain q io1 where c: "dev_write_chunk io off (take want bs) = (q, io1)" by fastforce
    have ok: "q = 0" "io_ready io1"
      using dev_write_chunk_ok [OF "1.prems"(1,2) _ ne c] "1.prems"(3) want by auto
    obtain k where "io_wrote io off (take want bs) k io1" using dev_write_chunk_spec [OF c ne] by blast
    then have same: "aligned io1" "cap io1 = cap io"
      using "1.prems"(2) by (auto simp: io_wrote_def io_same_def)
    have "fst (dev_pwrite io1 (off + want) (drop want bs)) = 0"
      by (rule "1.IH" [OF False want_def c [symmetric] refl])
         (use ok same "1.prems"(3) want in auto)
    then show ?thesis
      using False ok by (subst dev_pwrite.simps) (simp add: want_def [symmetric] c)
  qed
qed

lemma io_ready_stamp: "io_ready io \<Longrightarrow> io_ready (stamp n io)"
  by (simp add: io_ready_def stamp_os)

lemma blkio_pwrite_ok:
  assumes "io_ready io" "aligned io \<longrightarrow> off + length bs \<le> cap io"
  shows "fst (blkio_pwrite io off bs) = 0"
proof (cases "aligned io")
  case True
  then show ?thesis
    using dev_pwrite_ok [OF io_ready_stamp [OF assms(1), of "length bs"], of off bs] assms(2)
    by (auto simp: blkio_pwrite_stamp stamp_os split: prod.splits)
next
  case False
  obtain r io2 where rw: "raw_pwrite (stamp (length bs) io) off bs = (r, io2)" by fastforce
  have "r = 0"
    by (rule raw_pwrite_spec [OF rw])
       (use io_ready_stamp [OF assms(1), of "length bs"] in \<open>auto simp: io_ready_def\<close>)
  then show ?thesis using False rw by (simp add: blkio_pwrite_stamp)
qed

section \<open>The contract of a byte device\<close>

text \<open>What every client of the storage layer relies on: a read changes nothing and returns the
  bytes in place, a write replaces a prefix of its range, and all of it when it succeeds.\<close>

locale byte_device =
  fixes data :: "'s \<Rightarrow> store"
    and rd :: "'s \<Rightarrow> nat \<Rightarrow> nat \<Rightarrow> bytes option \<times> 's"
    and wr :: "'s \<Rightarrow> nat \<Rightarrow> bytes \<Rightarrow> int \<times> 's"
  assumes rd_frame: "rd s off n = (r, s') \<Longrightarrow> data s' = data s"
    and rd_bytes: "rd s off n = (Some bs, s') \<Longrightarrow> bs = store_read (data s) off n"
    and wr_prefix: "wr s off bs = (rc, s') \<Longrightarrow>
      \<exists>k \<le> length bs. data s' = store_write (data s) off (take k bs) \<and> (rc = 0 \<longrightarrow> k = length bs)"
begin

lemma wr_ok: "wr s off bs = (0, s') \<Longrightarrow> data s' = store_write (data s) off bs"
  using wr_prefix by fastforce

lemma wr_outside:
  assumes "wr s off bs = (r, s')" "i < off \<or> off + length bs \<le> i"
  shows "data s' i = data s i"
proof -
  obtain k where "k \<le> length bs" "data s' = store_write (data s) off (take k bs)"
    using wr_prefix [OF assms(1)] by blast
  then show ?thesis using assms(2) by auto
qed

lemma wr_rd:
  "wr s off bs = (0, s') \<Longrightarrow> rd s' off (length bs) = (Some ys, s'') \<Longrightarrow> ys = bs"
  using wr_ok rd_bytes store_read_write_same by metis

lemma wr_rd_elsewhere:
  assumes "wr s off bs = (r, s')" "rd s' o1 n = (Some ys, s'')" "o1 + n \<le> off \<or> off + length bs \<le> o1"
  shows "ys = store_read (data s) o1 n"
  using rd_bytes [OF assms(2)] wr_outside [OF assms(1)] assms(3) by (auto intro: store_read_cong)

end

interpretation dev: byte_device io_data blkio_pread blkio_pwrite
proof
  fix s s' :: blkio and off n r bs
  show "blkio_pread s off n = (r, s') \<Longrightarrow> io_data s' = io_data s"
    using blkio_pread_spec(1) io_quiet_data by blast
next
  fix s s' :: blkio and off n bs
  show "blkio_pread s off n = (Some bs, s') \<Longrightarrow> bs = store_read (io_data s) off n"
    using blkio_pread_spec(2) by blast
next
  fix s s' :: blkio and off bs r
  assume "blkio_pwrite s off bs = (r, s')"
  then show "\<exists>k \<le> length bs. io_data s' = store_write (io_data s) off (take k bs) \<and> (r = 0 \<longrightarrow> k = length bs)"
    by (rule blkio_pwrite_spec) blast
qed

section \<open>The watermark\<close>

text \<open>\<open>gc_inv\<close>: a handle whose flushed generation has caught up owes no durability.\<close>

definition gc_inv :: "blkio \<Rightarrow> bool" where
  "gc_inv io \<longleftrightarrow> flushed_gen io \<le> write_gen io
     \<and> (flushed_gen io = write_gen io \<longrightarrow> (\<forall>i. settled (os io) i))"

definition strict_policy :: "blkio \<Rightarrow> bool" where
  "strict_policy io \<longleftrightarrow> force_flush io \<or> commit_bytes io = 0 \<and> commit_ms io = 0 \<and> idle_ms io = 0"

lemma pf_now_ms_fields:
  "pf_now_ms io = (t, io') \<Longrightarrow>
     io_data io' = io_data io \<and> (\<forall>i. settled (os io') i = settled (os io) i)
     \<and> write_gen io' = write_gen io \<and> flushed_gen io' = flushed_gen io \<and> fd io' = fd io
     \<and> f_writes (os io') = f_writes (os io) \<and> f_stable (os io') = f_stable (os io)"
  by (auto simp: pf_now_ms_def os_clock_def settled_def split: list.splits)

lemma pf_should_flush_strict: "strict_policy io \<Longrightarrow> pf_should_flush io = (True, io)"
  by (auto simp: strict_policy_def pf_should_flush_def)

lemma blkio_flush_raw_ok:
  assumes "blkio_flush_raw io = (0, io')"
  shows "io_data io' = io_data io" "settled (os io') i"
    "write_gen io' = write_gen io" "flushed_gen io' = flushed_gen io"
  using assms by (auto simp: blkio_flush_raw_def os_fsync_def settled_def Let_def split: if_splits list.splits)

lemma blkio_flush_strict:
  assumes "gc_inv io" "strict_policy io" "blkio_flush io = (0, io')"
  shows "io_data io' = io_data io" "settled (os io') i"
proof -
  have "io_data io' = io_data io \<and> settled (os io') i"
  proof (cases "fd io \<ge> 0 \<and> flushed_gen io \<ge> write_gen io")
    case True
    then have "io' = io" using assms(2,3) by (simp add: blkio_flush_def pf_should_flush_strict Let_def)
    then show ?thesis using True assms(1) by (auto simp: gc_inv_def)
  next
    case False
    obtain rc io2 where raw: "blkio_flush_raw io = (rc, io2)" by fastforce
    define io3 where "io3 = (if rc = 0 \<and> write_gen io > flushed_gen io2 then io2\<lparr>flushed_gen := write_gen io\<rparr> else io2)"
    obtain t io4 where now: "pf_now_ms io3 = (t, io4)" by fastforce
    have out: "(0, io') = (rc, io4\<lparr>dirty_bytes := 0, last_write_ms := t, force_flush := False\<rparr>)"
      using assms(2,3) False raw now
      by (simp add: blkio_flush_def pf_should_flush_strict Let_def io3_def [symmetric])
    then have "rc = 0" by simp
    note fl = blkio_flush_raw_ok [OF raw [unfolded this]]
    have "os io3 = os io2" by (simp add: io3_def)
    then show ?thesis using fl out pf_now_ms_fields [OF now] by simp
  qed
  then show "io_data io' = io_data io" "settled (os io') i" by auto
qed

lemma gc_inv_pwrite: "gc_inv io \<Longrightarrow> blkio_pwrite io off bs = (r, io') \<Longrightarrow> gc_inv io'"
  by (erule blkio_pwrite_spec, cases "bs = []") (simp_all add: gc_inv_def, meson linorder_not_le)

text \<open>Later transfers, whatever their outcome.\<close>

fun pwrites :: "blkio \<Rightarrow> (nat \<times> bytes) list \<Rightarrow> blkio" where
  "pwrites io [] = io"
| "pwrites io ((off, bs) # ws) = pwrites (snd (blkio_pwrite io off bs)) ws"

lemma pwrites_keep:
  assumes "\<And>i. i \<in> R \<Longrightarrow> settled (os io) i"
    and "\<And>off bs i. (off, bs) \<in> set ws \<Longrightarrow> i \<in> R \<Longrightarrow> i < off \<or> off + length bs \<le> i"
    and "i \<in> R"
  shows "settled (os (pwrites io ws)) i \<and> io_data (pwrites io ws) i = io_data io i"
  using assms
proof (induction io ws rule: pwrites.induct)
  case (2 io off bs ws)
  obtain r io1 where w: "blkio_pwrite io off bs = (r, io1)" by fastforce
  have out: "j < off \<or> off + length bs \<le> j" if "j \<in> R" for j using "2.prems"(2) that by auto
  have st: "settled (os io1) j" if "j \<in> R" for j
    using blkio_pwrite_spec [OF w] "2.prems"(1) [OF that] out [OF that] by metis
  have "settled (os (pwrites io1 ws)) i \<and> io_data (pwrites io1 ws) i = io_data io1 i"
    using "2.IH" st "2.prems"(2,3) w by auto
  then show ?case using dev.wr_outside [OF w out [OF "2.prems"(3)]] w by simp
qed simp

section \<open>Properties\<close>

text \<open>C13. A byte-granular write through either path, the plain loop of an image file or the
  aligned read-modify-write of a device, has the effect of writing a prefix of the given bytes at
  the given offset and of nothing else; it reports success only when the prefix is everything, and
  on a healthy handle with the range inside the capacity it does report success.\<close>
theorem blkio_pwrite_exact:
  assumes "blkio_pwrite io off bs = (r, io')"
  shows "(\<exists>k \<le> length bs. io_data io' = store_write (io_data io) off (take k bs) \<and> (r = 0 \<longrightarrow> k = length bs))
    \<and> (io_ready io \<and> (aligned io \<longrightarrow> off + length bs \<le> cap io) \<longrightarrow>
         r = 0 \<and> io_data io' = store_write (io_data io) off bs)"
  using dev.wr_prefix [OF assms] blkio_pwrite_ok [of io off bs] dev.wr_ok [of io off bs io'] assms
  by auto

text \<open>A handle on a two-block device of zeros, as \<open>blkio_open\<close> leaves it.\<close>

definition demo_file :: os_file where
  "demo_file = \<lparr>f_data = (\<lambda>_. 0), f_size = 8192, f_stable = (\<lambda>_. 0), f_writes = [], f_script = [],
                f_now = 0, f_ticks = []\<rparr>"

definition demo_io :: "bool \<Rightarrow> blkio" where
  "demo_io al = \<lparr>fd = 3, io_pos = 0, cap = 8192, is_dev = al, aligned = al, bounce = (\<lambda>_. 0),
     n_read = 0, n_write = 0, b_read = 0, b_write = 0, write_gen = 0, flushed_gen = 0,
     commit_bytes = 0, commit_ms = 0, idle_ms = 0, dirty_bytes = 0, last_write_ms = 0,
     force_flush = False, os = demo_file\<rparr>"

lemma demo_io_ready: "io_ready (demo_io al)" "gc_inv (demo_io al)" "strict_policy (demo_io al)"
  by (simp_all add: io_ready_def gc_inv_def strict_policy_def settled_def demo_io_def demo_file_def BLKIO_ALIGN_def)

theorem blkio_pwrite_exact_witness:
  "fst (blkio_pwrite (demo_io True) 4094 [1, 2, 3, 4]) = 0
   \<and> io_data (snd (blkio_pwrite (demo_io True) 4094 [1, 2, 3, 4])) 4096 = 3"
proof -
  obtain r io' where w: "blkio_pwrite (demo_io True) 4094 [1, 2, 3, 4] = (r, io')" by fastforce
  from blkio_pwrite_exact [OF w] demo_io_ready(1) have "r = 0"
    "io_data io' = store_write (io_data (demo_io True)) 4094 [1, 2, 3, 4]"
    by (simp_all add: demo_io_def)
  then show ?thesis by (simp add: w store_write_def)
qed



section \<open>The deferral gate\<close>

text \<open>The comment at the gate says a handle without a descriptor must never take the skip. The
  gate does not test the descriptor: under a deferring policy such a handle is told 0.\<close>

lemma blkio_flush_defers_dead_fd:
  "fd io < 0 \<Longrightarrow> \<not> fst (pf_should_flush io) \<Longrightarrow> fst (blkio_flush io) = 0"
  by (auto simp: blkio_flush_def Let_def split: prod.splits)

text \<open>A deferred flush restarts the window that \<open>commit_ms\<close> measures, so calls that come more
  often than the bound are all deferred, however much time passes in total.\<close>

definition late_flusher :: "blkio \<Rightarrow> nat \<Rightarrow> bool" where
  "late_flusher io n \<longleftrightarrow> \<not> force_flush io \<and> commit_bytes io = 0 \<and> idle_ms io = 0 \<and> commit_ms io = 1000
     \<and> last_write_ms io = f_now (os io) \<and> f_ticks (os io) = concat (replicate n [900, 0])
     \<and> f_now (os io) + 900 * n < 2 ^ 64"

lemma late_flusher_step:
  assumes "late_flusher io (Suc n)"
  shows "fst (blkio_flush io) = 0" "late_flusher (snd (blkio_flush io)) n"
    "f_writes (os (snd (blkio_flush io))) = f_writes (os io)"
    "f_now (os (snd (blkio_flush io))) = f_now (os io) + 900"
proof -
  have d: "sz_sub (f_now (os io) + 900) (f_now (os io)) = 900"
    by (simp add: sz_sub_def sz_def)
  show "fst (blkio_flush io) = 0" "late_flusher (snd (blkio_flush io)) n"
    "f_writes (os (snd (blkio_flush io))) = f_writes (os io)"
    "f_now (os (snd (blkio_flush io))) = f_now (os io) + 900"
    using assms d
    by (simp_all add: late_flusher_def blkio_flush_def pf_should_flush_def pf_now_ms_def os_clock_def Let_def)
qed

lemma commit_ms_does_not_bound_the_window:
  "late_flusher io n \<Longrightarrow>
     f_writes (os (((snd \<circ> blkio_flush) ^^ n) io)) = f_writes (os io)
     \<and> f_now (os (((snd \<circ> blkio_flush) ^^ n) io)) = f_now (os io) + 900 * n"
  by (induction n arbitrary: io) (simp_all add: funpow_swap1 late_flusher_step del: funpow.simps(2) add: funpow_Suc_right)

end
