(* ===== verification/GroupCommit.thy ===== *)
theory GroupCommit
  imports Prelude
begin

text \<open>
  Group commit under concurrency: the writers' side of \<open>blkio_pwrite\<close> and the whole of
  \<open>blkio_flush\<close> of \<^verbatim>\<open>src/core/blkio.c\<close> under the strict policy, as a step relation over any
  number of threads. The atomic steps are the critical sections of \<open>g_gc_lock\<close> and the
  sequentially consistent loads and stores between them. A write is a token: it is in the page
  cache once its \<open>pwrite\<close> has returned, it gets its generation when the counter is bumped, and
  an \<open>fsync\<close> that succeeds makes durable what was cached when it was called.
\<close>

section \<open>State\<close>

text \<open>\<open>Wrote w\<close>: between the transfer and the bump. \<open>Waiting my ws\<close>: in the loop, at the top,
  with the generation loaded at entry; \<open>ws\<close> are the writes counted at that moment, a history
  variable. \<open>Sleeping\<close>: in \<open>pthread_cond_wait\<close>. \<open>Flusher\<close>, \<open>Sampled\<close>, \<open>Syncing\<close> and
  \<open>Synced\<close> are the stages of the thread that set \<open>flush_busy\<close>.\<close>

datatype gc_pc =
    Idle
  | Wrote nat
  | Waiting nat "nat set"
  | Sleeping nat "nat set"
  | Flusher nat "nat set"
  | Sampled nat "nat set" nat
  | Syncing nat "nat set" nat "nat set"
  | Synced nat "nat set" nat int
  | Stored nat "nat set" int

record gc_state =
  gs_write_gen :: nat
  gs_flushed_gen :: nat
  gs_busy :: bool
  gs_cache :: "nat set"
  gs_gen :: "nat \<rightharpoonup> nat"
  gs_durable :: "nat set"
  gs_pc :: "nat \<Rightarrow> gc_pc"

definition gc_init :: gc_state where
  "gc_init = \<lparr>gs_write_gen = 0, gs_flushed_gen = 0, gs_busy = False, gs_cache = {}, gs_gen = Map.empty,
              gs_durable = {}, gs_pc = (\<lambda>_. Idle)\<rparr>"

definition goto :: "nat \<Rightarrow> gc_pc \<Rightarrow> gc_state \<Rightarrow> gc_state" where
  "goto t p s = s\<lparr>gs_pc := (gs_pc s)(t := p)\<rparr>"

fun wake :: "gc_pc \<Rightarrow> gc_pc" where
  "wake (Sleeping my ws) = Waiting my ws"
| "wake p = p"

section \<open>Steps\<close>

text \<open>The label of a step is the return of a flush, with the writes counted at its entry and the
  code it returns.\<close>

datatype gc_event = Tau | Ret "nat set" int

inductive gc_step :: "bool \<Rightarrow> gc_state \<Rightarrow> gc_event \<Rightarrow> gc_state \<Rightarrow> bool" for fd_ok where
  transfer: "gs_pc s t = Idle \<Longrightarrow> w \<notin> gs_cache s \<Longrightarrow>
    gc_step fd_ok s Tau (goto t (Wrote w) (s\<lparr>gs_cache := insert w (gs_cache s)\<rparr>))"
| bump: "gs_pc s t = Wrote w \<Longrightarrow>
    gc_step fd_ok s Tau (goto t Idle (s\<lparr>gs_write_gen := gs_write_gen s + 1,
                                        gs_gen := (gs_gen s)(w \<mapsto> gs_write_gen s + 1)\<rparr>))"
| enter: "gs_pc s t = Idle \<Longrightarrow>
    gc_step fd_ok s Tau (goto t (Waiting (gs_write_gen s) (dom (gs_gen s))) s)"
| covered: "gs_pc s t = Waiting my ws \<Longrightarrow> fd_ok \<Longrightarrow> gs_flushed_gen s \<ge> my \<Longrightarrow>
    gc_step fd_ok s (Ret ws 0) (goto t Idle s)"
| elect: "gs_pc s t = Waiting my ws \<Longrightarrow> \<not> (fd_ok \<and> gs_flushed_gen s \<ge> my) \<Longrightarrow> \<not> gs_busy s \<Longrightarrow>
    gc_step fd_ok s Tau (goto t (Flusher my ws) (s\<lparr>gs_busy := True\<rparr>))"
| sleep: "gs_pc s t = Waiting my ws \<Longrightarrow> \<not> (fd_ok \<and> gs_flushed_gen s \<ge> my) \<Longrightarrow> gs_busy s \<Longrightarrow>
    gc_step fd_ok s Tau (goto t (Sleeping my ws) s)"
| sample: "gs_pc s t = Flusher my ws \<Longrightarrow>
    gc_step fd_ok s Tau (goto t (Sampled my ws (gs_write_gen s)) s)"
| fsync_call: "gs_pc s t = Sampled my ws cover \<Longrightarrow>
    gc_step fd_ok s Tau (goto t (Syncing my ws cover (gs_cache s)) s)"
| fsync_ok: "gs_pc s t = Syncing my ws cover snap \<Longrightarrow> fd_ok \<Longrightarrow> snap \<subseteq> new \<Longrightarrow> new \<subseteq> gs_cache s \<Longrightarrow>
    gc_step fd_ok s Tau (goto t (Synced my ws cover 0) (s\<lparr>gs_durable := gs_durable s \<union> new\<rparr>))"
| fsync_fail: "gs_pc s t = Syncing my ws cover snap \<Longrightarrow>
    gc_step fd_ok s Tau (goto t (Synced my ws cover (-1)) s)"
| store: "gs_pc s t = Synced my ws cover rc \<Longrightarrow>
    gc_step fd_ok s Tau (goto t (Stored my ws rc)
      (if rc = 0 \<and> cover > gs_flushed_gen s then s\<lparr>gs_flushed_gen := cover\<rparr> else s))"
| finish: "gs_pc s t = Stored my ws rc \<Longrightarrow>
    gc_step fd_ok s (Ret ws rc)
      (goto t Idle (s\<lparr>gs_busy := False, gs_pc := (\<lambda>u. wake (gs_pc s u))\<rparr>))"

inductive gc_reach :: "bool \<Rightarrow> gc_state \<Rightarrow> bool" for fd_ok where
  start: "gc_reach fd_ok gc_init"
| step: "gc_reach fd_ok s \<Longrightarrow> gc_step fd_ok s ev s' \<Longrightarrow> gc_reach fd_ok s'"

inductive_cases gc_retE: "gc_step fd_ok s (Ret ws rc) s'"

section \<open>Invariant\<close>

definition counted :: "gc_state \<Rightarrow> nat \<Rightarrow> nat set \<Rightarrow> bool" where
  "counted s my ws \<longleftrightarrow> my \<le> gs_write_gen s \<and> (\<forall>w \<in> ws. \<exists>g \<le> my. gs_gen s w = Some g)"

definition upto :: "gc_state \<Rightarrow> nat \<Rightarrow> nat set" where
  "upto s n = {w. \<exists>g \<le> n. gs_gen s w = Some g}"

fun stage_ok :: "gc_state \<Rightarrow> gc_pc \<Rightarrow> bool" where
  "stage_ok s Idle = True"
| "stage_ok s (Wrote w) = (w \<in> gs_cache s \<and> gs_gen s w = None)"
| "stage_ok s (Waiting my ws) = counted s my ws"
| "stage_ok s (Sleeping my ws) = counted s my ws"
| "stage_ok s (Flusher my ws) = counted s my ws"
| "stage_ok s (Sampled my ws cover) = (counted s my ws \<and> my \<le> cover \<and> cover \<le> gs_write_gen s)"
| "stage_ok s (Syncing my ws cover snap) =
     (counted s my ws \<and> my \<le> cover \<and> cover \<le> gs_write_gen s \<and> upto s cover \<subseteq> snap)"
| "stage_ok s (Synced my ws cover rc) =
     (counted s my ws \<and> my \<le> cover \<and> cover \<le> gs_write_gen s \<and> (rc = 0 \<longrightarrow> upto s cover \<subseteq> gs_durable s))"
| "stage_ok s (Stored my ws rc) = (counted s my ws \<and> (rc = 0 \<longrightarrow> my \<le> gs_flushed_gen s))"

fun flushing :: "gc_pc \<Rightarrow> bool" where
  "flushing (Flusher _ _) = True"
| "flushing (Sampled _ _ _) = True"
| "flushing (Syncing _ _ _ _) = True"
| "flushing (Synced _ _ _ _) = True"
| "flushing (Stored _ _ _) = True"
| "flushing _ = False"

text \<open>The counters, one flusher at a time, and no thread asleep without a flusher to wake it.\<close>

definition gens_ok :: "gc_state \<Rightarrow> bool" where
  "gens_ok s \<longleftrightarrow> (\<forall>w g. gs_gen s w = Some g \<longrightarrow> w \<in> gs_cache s \<and> g \<le> gs_write_gen s)
     \<and> gs_flushed_gen s \<le> gs_write_gen s \<and> upto s (gs_flushed_gen s) \<subseteq> gs_durable s
     \<and> (\<forall>t u w. gs_pc s t = Wrote w \<and> gs_pc s u = Wrote w \<longrightarrow> t = u)"

definition busy_ok :: "gc_state \<Rightarrow> bool" where
  "busy_ok s \<longleftrightarrow> (\<forall>t u. flushing (gs_pc s t) \<and> flushing (gs_pc s u) \<longrightarrow> t = u)
     \<and> (gs_busy s \<longleftrightarrow> (\<exists>t. flushing (gs_pc s t)))
     \<and> (\<forall>t my ws. gs_pc s t = Sleeping my ws \<longrightarrow> gs_busy s)"

definition gc_ok :: "gc_state \<Rightarrow> bool" where
  "gc_ok s \<longleftrightarrow> gens_ok s \<and> busy_ok s \<and> (\<forall>t. stage_ok s (gs_pc s t))"

text \<open>A stage condition survives every step that only lets the history grow.\<close>

definition grows :: "gc_state \<Rightarrow> gc_state \<Rightarrow> bool" where
  "grows s s' \<longleftrightarrow> gs_cache s \<subseteq> gs_cache s' \<and> gs_durable s \<subseteq> gs_durable s'
     \<and> gs_flushed_gen s \<le> gs_flushed_gen s' \<and> gs_write_gen s \<le> gs_write_gen s'
     \<and> (\<forall>n \<le> gs_write_gen s. \<forall>w. gs_gen s' w = Some n \<longleftrightarrow> gs_gen s w = Some n)"

lemma grows_counted: "grows s s' \<Longrightarrow> counted s my ws \<Longrightarrow> counted s' my ws"
  unfolding grows_def counted_def by (meson order_trans)

lemma grows_upto: "grows s s' \<Longrightarrow> n \<le> gs_write_gen s \<Longrightarrow> upto s' n = upto s n"
  unfolding grows_def upto_def by (blast intro: order_trans)

lemma stage_grows:
  assumes "grows s s'" "stage_ok s p" "\<And>w. p = Wrote w \<Longrightarrow> gs_gen s' w = None"
  shows "stage_ok s' p"
  using assms grows_counted [OF assms(1)] grows_upto [OF assms(1)]
  by (cases p) (auto simp: grows_def)

lemma goto_fields [simp]:
  "gs_write_gen (goto t p s) = gs_write_gen s" "gs_flushed_gen (goto t p s) = gs_flushed_gen s"
  "gs_busy (goto t p s) = gs_busy s" "gs_cache (goto t p s) = gs_cache s" "gs_gen (goto t p s) = gs_gen s"
  "gs_durable (goto t p s) = gs_durable s" "gs_pc (goto t p s) = (gs_pc s)(t := p)"
  by (simp_all add: goto_def)

lemma goto_upto [simp]: "upto (goto t p s) n = upto s n" "counted (goto t p s) my ws = counted s my ws"
  by (simp_all add: upto_def counted_def)

lemma flushing_wake [simp]: "flushing (wake p) = flushing p" "wake p = Wrote w \<longleftrightarrow> p = Wrote w"
  "wake p \<noteq> Sleeping my ws" "stage_ok s (wake p) = stage_ok s p"
  by (cases p; simp)+

lemma step_grows: "gc_step fd_ok s ev s' \<Longrightarrow> gc_ok s \<Longrightarrow> grows s s'"
proof (induction rule: gc_step.induct)
  case (bump s t w)
  then have "stage_ok s (Wrote w)" by (metis gc_ok_def)
  then show ?case using bump by (auto simp: grows_def gc_ok_def gens_ok_def)
qed (auto simp: grows_def)

lemma step_gens: "gc_step fd_ok s ev s' \<Longrightarrow> gc_ok s \<Longrightarrow> gens_ok s'"
proof (induction rule: gc_step.induct)
  case (bump s t w)
  then have "stage_ok s (Wrote w)" by (metis gc_ok_def)
  then show ?case using bump by (fastforce simp: gens_ok_def gc_ok_def upto_def)
next
  case (store s t my ws cover rc)
  then have "stage_ok s (Synced my ws cover rc)" by (metis gc_ok_def)
  then show ?case using store by (auto simp: gens_ok_def gc_ok_def upto_def)
next
  case (transfer s t w)
  then have "gs_pc s u \<noteq> Wrote w" for u by (metis gc_ok_def stage_ok.simps(2))
  then show ?case using transfer by (auto simp: gens_ok_def gc_ok_def upto_def)
qed (auto simp: gens_ok_def gc_ok_def upto_def)

lemma busy_move:
  assumes "busy_ok s" "flushing (gs_pc s t) = flushing p" "\<And>my ws. p = Sleeping my ws \<Longrightarrow> gs_busy s"
    and "gs_pc s' = (gs_pc s)(t := p)" "gs_busy s' = gs_busy s"
  shows "busy_ok s'"
proof -
  have "flushing (gs_pc s' u) = flushing (gs_pc s u)" for u using assms(2,4) by simp
  then show ?thesis using assms unfolding busy_ok_def by (metis fun_upd_apply)
qed

lemma step_busy: "gc_step fd_ok s ev s' \<Longrightarrow> gc_ok s \<Longrightarrow> busy_ok s'"
proof (induction rule: gc_step.induct)
  case (elect s t my ws)
  then have "\<not> flushing (gs_pc s u)" for u by (simp add: gc_ok_def busy_ok_def)
  then show ?case by (auto simp: busy_ok_def)
next
  case (finish s t my ws rc)
  then have "flushing (gs_pc s u) \<Longrightarrow> u = t" for u by (auto simp: gc_ok_def busy_ok_def)
  then show ?case by (auto simp: busy_ok_def)
next
  case (store s t my ws cover rc)
  show ?case by (rule busy_move [of s t "Stored my ws rc"]) (use store in \<open>auto simp: gc_ok_def\<close>)
qed (rule busy_move; auto simp: gc_ok_def; fail)+

lemma step_stage:
  assumes st: "gc_step fd_ok s ev s'" and ok: "gc_ok s"
  shows "stage_ok s' (gs_pc s' t)"
proof -
  note gr = step_grows [OF st ok]
  have mine: "stage_ok s p" if "gs_pc s u = p" for u p using ok that by (auto simp: gc_ok_def)
  have wrote: "gs_gen s w = None" if "gs_pc s u = Wrote w" for u w using mine [OF that] by simp
  have other: "stage_ok s' (gs_pc s t)" if "\<And>w. gs_pc s t = Wrote w \<Longrightarrow> gs_gen s' w = gs_gen s w"
    by (rule stage_grows [OF gr mine [OF refl]]) (simp add: that wrote)
  show ?thesis
    using st
  proof cases
    case (transfer u w)
    then have "gs_gen s w = None" using ok by (cases "gs_gen s w") (auto simp: gc_ok_def gens_ok_def)
    then show ?thesis using transfer other mine by (cases "t = u") auto
  next
    case (bump u w)
    then have "t \<noteq> u \<Longrightarrow> gs_pc s t \<noteq> Wrote w" using ok by (auto simp: gc_ok_def gens_ok_def)
    then have "t \<noteq> u \<Longrightarrow> stage_ok s' (gs_pc s t)" by (intro other) (auto simp: bump)
    then show ?thesis using bump by (cases "t = u") auto
  next
    case (enter u)
    moreover have "counted s (gs_write_gen s) (dom (gs_gen s))"
      using ok by (fastforce simp: counted_def gc_ok_def gens_ok_def)
    ultimately show ?thesis using other mine by (cases "t = u") auto
  next
    case (fsync_call u my ws cover)
    moreover have "upto s cover \<subseteq> gs_cache s" using ok by (auto simp: upto_def gc_ok_def gens_ok_def)
    ultimately show ?thesis using other mine by (cases "t = u") auto
  next
    case (fsync_ok u my ws cover snap new)
    then have "counted s' my ws" "upto s' cover = upto s cover"
      using mine [of u] grows_counted [OF gr] grows_upto [OF gr] by auto
    then show ?thesis using fsync_ok other mine by (cases "t = u") auto
  next
    case (store u my ws cover rc)
    then have "counted s' my ws" "rc = 0 \<Longrightarrow> my \<le> gs_flushed_gen s'"
      using mine [of u] grows_counted [OF gr] by auto
    then show ?thesis using store other mine by (cases "t = u") auto
  next
    case (finish u my ws rc)
    then show ?thesis using other mine by (cases "t = u") auto
  qed (use other mine in \<open>cases "t = u"; auto simp: counted_def\<close>)+
qed

lemma gc_reach_ok: "gc_reach fd_ok s \<Longrightarrow> gc_ok s"
proof (induction rule: gc_reach.induct)
  case start
  show ?case by (simp add: gc_init_def gc_ok_def gens_ok_def busy_ok_def upto_def)
next
  case (step s ev s')
  then show ?case using step_gens step_busy step_stage unfolding gc_ok_def by blast
qed

section \<open>Properties\<close>


text \<open>One thread writes, counts the write and flushes.\<close>

definition demo_gc :: gc_state where
  "demo_gc = \<lparr>gs_write_gen = 1, gs_flushed_gen = 1, gs_busy = True, gs_cache = {7}, gs_gen = [7 \<mapsto> 1],
              gs_durable = {7}, gs_pc = (\<lambda>_. Idle)(0 := Stored 1 {7} 0)\<rparr>"

lemma demo_gc_reach: "gc_reach True demo_gc"
proof -
  let ?P = "\<lambda>p. (\<lambda>_. Idle)(0 := p)"
  let ?S = "\<lambda>n f b d p. \<lparr>gs_write_gen = n, gs_flushed_gen = f, gs_busy = b, gs_cache = {7},
    gs_gen = (if n = 0 then Map.empty else [7 \<mapsto> 1]), gs_durable = d, gs_pc = ?P p\<rparr> :: gc_state"
  have "gc_reach True (?S 0 0 False {} (Wrote 7))"
    using gc_reach.step [OF start gc_step.transfer [of gc_init 0 7]] by (simp add: gc_init_def goto_def)
  from gc_reach.step [OF this gc_step.bump [of _ 0 7]]
  have "gc_reach True (?S 1 0 False {} Idle)" by (simp add: goto_def)
  from gc_reach.step [OF this gc_step.enter [of _ 0]]
  have "gc_reach True (?S 1 0 False {} (Waiting 1 {7}))" by (simp add: goto_def)
  from gc_reach.step [OF this gc_step.elect [of _ 0]]
  have "gc_reach True (?S 1 0 True {} (Flusher 1 {7}))" by (simp add: goto_def)
  from gc_reach.step [OF this gc_step.sample [of _ 0]]
  have "gc_reach True (?S 1 0 True {} (Sampled 1 {7} 1))" by (simp add: goto_def)
  from gc_reach.step [OF this gc_step.fsync_call [of _ 0]]
  have "gc_reach True (?S 1 0 True {} (Syncing 1 {7} 1 {7}))" by (simp add: goto_def)
  from gc_reach.step [OF this gc_step.fsync_ok [of _ 0 _ _ _ _ _ "{7}"]]
  have "gc_reach True (?S 1 0 True {7} (Synced 1 {7} 1 0))" by (simp add: goto_def)
  from gc_reach.step [OF this gc_step.store [of _ 0]]
  show ?thesis by (simp add: goto_def demo_gc_def)
qed


definition gc_move :: "bool \<Rightarrow> gc_state \<Rightarrow> gc_state \<Rightarrow> bool" where
  "gc_move fd_ok s s' \<longleftrightarrow> (\<exists>ev. gc_step fd_ok s ev s')"

lemma flusher_finishes:
  assumes "flushing (gs_pc s u)" "gs_pc s t = Sleeping my ws"
  shows "\<exists>s'. (gc_move fd_ok)\<^sup>*\<^sup>* s s' \<and> gs_pc s' t = Waiting my ws"
proof -
  have tu: "t \<noteq> u" using assms by auto
  let ?R = "\<lambda>s. gs_pc s t = Sleeping my ws \<longrightarrow> (\<exists>s'. (gc_move fd_ok)\<^sup>*\<^sup>* s s' \<and> gs_pc s' t = Waiting my ws)"
  have next_step: "?R s" if "gc_step fd_ok s ev s1" "gs_pc s1 t = gs_pc s t" "?R s1" for s s1 ev
    using that unfolding gc_move_def by (metis (mono_tags, lifting) converse_rtranclp_into_rtranclp)
  have st: "?R s" if "gs_pc s u = Stored m v rc" for s m v rc
  proof (intro impI exI conjI)
    let ?s' = "goto u Idle (s\<lparr>gs_busy := False, gs_pc := \<lambda>u. wake (gs_pc s u)\<rparr>)"
    show "(gc_move fd_ok)\<^sup>*\<^sup>* s ?s'"
      using gc_step.finish [OF that, of fd_ok] unfolding gc_move_def by blast
    show "gs_pc s t = Sleeping my ws \<Longrightarrow> gs_pc ?s' t = Waiting my ws" using tu by simp
  qed
  have sy: "?R s" if "gs_pc s u = Synced m v c rc" for s m v c rc
    by (rule next_step [OF gc_step.store [OF that] _ st]) (use tu in auto)
  have sn: "?R s" if "gs_pc s u = Syncing m v c x" for s m v c x
    by (rule next_step [OF gc_step.fsync_fail [OF that] _ sy]) (use tu in auto)
  have sa: "?R s" if "gs_pc s u = Sampled m v c" for s m v c
    by (rule next_step [OF gc_step.fsync_call [OF that] _ sn]) (use tu in auto)
  have fl: "?R s" if "gs_pc s u = Flusher m v" for s m v
    by (rule next_step [OF gc_step.sample [OF that] _ sa]) (use tu in auto)
  show ?thesis
    using assms st sy sn sa fl by (cases "gs_pc s u") auto
qed



end
