(* ===== verification/DeltaRecord.thy ===== *)
theory DeltaRecord
  imports Crc32c
begin

text \<open>
  The wire format of the delta log (\<^verbatim>\<open>src/core/vol_delta.c\<close>, section 1, with the constants of
  \<^verbatim>\<open>src/core/invarifs.h\<close>): big-endian integers, records, tombstone pads, segment headers, the
  record parser and the scan for the valid prefix. A buffer with a cursor is the byte list and an
  offset; the caller of the parser always has a buffer, so its null test has no counterpart.
\<close>

unbundle bit_operations_syntax

section \<open>Constants and big-endian integers\<close>

definition INVFS_DELTA_FLAG_DELETE :: u16 where "INVFS_DELTA_FLAG_DELETE = 1"

definition INVFS_DELTA_FLAG_PAD :: u16 where "INVFS_DELTA_FLAG_PAD = 2"

definition INVFS_DELTA_REC_HDR_LEN :: nat where "INVFS_DELTA_REC_HDR_LEN = 10"

definition INVFS_BLOCK_SIZE :: nat where "INVFS_BLOCK_SIZE = 4096"

definition INVFS_DELTA_SEG_MAGIC :: bytes where "INVFS_DELTA_SEG_MAGIC = ascii ''DSG3''"

definition INVFS_DELTA_SEG_VERSION :: u32 where "INVFS_DELTA_SEG_VERSION = 1"

definition INVFS_DELTA_SEG_BLOCKS :: u32 where "INVFS_DELTA_SEG_BLOCKS = 32"

definition INVFS_DELTA_SEG_BYTES :: nat where "INVFS_DELTA_SEG_BYTES = 32 * 4096"

definition INVFS_DELTA_SEG_HDR_LEN :: nat where "INVFS_DELTA_SEG_HDR_LEN = 44"

named_theorems delta_consts

lemmas delta_const_defs [delta_consts] = INVFS_DELTA_FLAG_DELETE_def INVFS_DELTA_FLAG_PAD_def
  INVFS_DELTA_REC_HDR_LEN_def INVFS_BLOCK_SIZE_def INVFS_DELTA_SEG_VERSION_def INVFS_DELTA_SEG_BLOCKS_def
  INVFS_DELTA_SEG_BYTES_def INVFS_DELTA_SEG_HDR_LEN_def

definition dl_rd16be :: "bytes \<Rightarrow> u16" where
  "dl_rd16be p = push_bit 8 (ucast (p ! 0)) OR ucast (p ! 1)"

definition dl_wr16be :: "u16 \<Rightarrow> bytes" where
  "dl_wr16be x = [ucast (drop_bit 8 x), ucast (x AND 0xFF)]"

definition dl_rd32be :: "bytes \<Rightarrow> u32" where
  "dl_rd32be p = push_bit 24 (ucast (p ! 0)) OR push_bit 16 (ucast (p ! 1))
     OR push_bit 8 (ucast (p ! 2)) OR ucast (p ! 3)"

definition dl_wr32be :: "u32 \<Rightarrow> bytes" where
  "dl_wr32be x = [ucast (drop_bit 24 x), ucast (drop_bit 16 x), ucast (drop_bit 8 x), ucast x]"

definition dl_rd64be :: "bytes \<Rightarrow> u64" where
  "dl_rd64be p = push_bit 32 (ucast (dl_rd32be p)) OR ucast (dl_rd32be (drop 4 p))"

definition dl_wr64be :: "u64 \<Rightarrow> bytes" where
  "dl_wr64be x = dl_wr32be (ucast (drop_bit 32 x)) @ dl_wr32be (ucast x)"

text \<open>The checksum field keeps the byte order of the host.\<close>

definition dl_rd32 :: "bytes \<Rightarrow> u32" where
  "dl_rd32 p = le32_of_bytes (take 4 p)"

section \<open>Records\<close>

text \<open>The parser returns 0, \<open>-1\<close>, or 1 with the lengths, the flags and the record length.\<close>

datatype delta_parse = Parse_end | Parse_bad | Parse_rec (p_klen: u16) (p_vlen: u16) (p_flags: u16) (p_len: nat)

definition vol_delta_rec_parse :: "bytes \<Rightarrow> nat \<Rightarrow> nat \<Rightarrow> delta_parse" where
  "vol_delta_rec_parse buf len off =
    (if off > len \<or> off + INVFS_DELTA_REC_HDR_LEN > len then Parse_end
     else let p = drop off buf
     in if take INVFS_DELTA_REC_HDR_LEN p = replicate INVFS_DELTA_REC_HDR_LEN 0 then Parse_end
     else let kl = dl_rd16be p; vl = dl_rd16be (drop 2 p); fl = dl_rd16be (drop 4 p); crc = dl_rd32 (drop 6 p)
     in if kl = 0 then Parse_bad
     else if fl AND NOT (INVFS_DELTA_FLAG_DELETE OR INVFS_DELTA_FLAG_PAD) \<noteq> 0 then Parse_bad
     else if fl AND INVFS_DELTA_FLAG_DELETE \<noteq> 0 \<and> vl \<noteq> 0 then Parse_bad
     else if fl AND INVFS_DELTA_FLAG_PAD \<noteq> 0 \<and> (vl \<noteq> 0 \<or> fl AND INVFS_DELTA_FLAG_DELETE \<noteq> 0) then Parse_bad
     else let total = INVFS_DELTA_REC_HDR_LEN + unat kl + unat vl
     in if total > len - off then Parse_bad
     else if invfs_crc32c (take (unat kl + unat vl) (drop INVFS_DELTA_REC_HDR_LEN p)) \<noteq> crc then Parse_bad
     else Parse_rec kl vl fl total)"

text \<open>The encoder is the body of \<open>vol_delta_append\<close> between the segment roll-over and the write.\<close>

definition delta_rec_encode :: "bytes \<Rightarrow> bytes \<Rightarrow> u16 \<Rightarrow> bytes" where
  "delta_rec_encode key val flags =
    (let klen = of_nat (length key); vlen = of_nat (length val);
         crc = invfs_crc32c key;
         crc = (if vlen \<noteq> (0 :: u16) then crc32c_ref crc val else crc)
     in dl_wr16be klen @ dl_wr16be vlen @ dl_wr16be flags @ le32_bytes crc @ key
        @ (if vlen \<noteq> 0 then val else []))"

text \<open>The scan returns the offset past the last valid record, their number, and whether it stopped
  at a malformed record.\<close>

lemma rec_parse_len: "vol_delta_rec_parse buf len off = Parse_rec kl vl fl rl \<Longrightarrow> 11 \<le> rl \<and> off + rl \<le> len"
  by (auto simp: vol_delta_rec_parse_def Let_def delta_consts unat_gt_0 Suc_le_eq split: if_splits)

function scan_loop :: "bytes \<Rightarrow> nat \<Rightarrow> nat \<Rightarrow> nat \<Rightarrow> nat \<Rightarrow> nat \<times> nat \<times> bool" where
  "scan_loop buf len off lst n =
    (if off < len
     then case vol_delta_rec_parse buf len off of
            Parse_end \<Rightarrow> (lst, n, False)
          | Parse_bad \<Rightarrow> (lst, n, True)
          | Parse_rec kl vl fl rl \<Rightarrow> scan_loop buf len (off + rl) (off + rl) (n + 1)
     else (lst, n, False))"
  by auto
termination by (relation "measure (\<lambda>(buf, len, off, lst, n). len - off)") (auto dest: rec_parse_len)

declare scan_loop.simps [simp del]

definition vol_delta_scan_valid :: "bytes \<Rightarrow> nat \<Rightarrow> nat \<times> nat \<times> bool" where
  "vol_delta_scan_valid buf len = scan_loop buf len 0 0 0"

section \<open>Tombstone pads\<close>

definition pad_chunk :: "u16 \<Rightarrow> bytes" where
  "pad_chunk kl = (let filler = replicate (unat kl) 0
     in dl_wr16be kl @ dl_wr16be 0 @ dl_wr16be INVFS_DELTA_FLAG_PAD @ le32_bytes (invfs_crc32c filler) @ filler)"

function pad_loop :: "nat \<Rightarrow> bytes" where
  "pad_loop rem =
    (if rem = 0 then []
     else let kl = (if sz_sub rem INVFS_DELTA_REC_HDR_LEN \<le> 0xFFFF then of_nat (sz_sub rem INVFS_DELTA_REC_HDR_LEN)
                    else of_nat (0xFFFF - INVFS_DELTA_REC_HDR_LEN)) :: u16
     in pad_chunk kl @ pad_loop (rem - (INVFS_DELTA_REC_HDR_LEN + unat kl)))"
  by auto
termination by (relation "measure id") (auto simp: delta_consts)

declare pad_loop.simps [simp del]

text \<open>The bytes \<open>vol_delta_pad_build\<close> writes; its return value is their number.\<close>

definition vol_delta_pad_build :: "nat \<Rightarrow> bytes" where
  "vol_delta_pad_build len = (if len < INVFS_DELTA_REC_HDR_LEN + 1 then [] else pad_loop len)"

section \<open>Segment headers\<close>

record invfs_delta_seg_hdr =
  dsh_magic :: bytes
  dsh_version :: u32
  dsh_hdr_size :: u32
  dsh_seg_blocks :: u32
  dsh_seg_seq :: u64
  dsh_prev_pba :: u64
  dsh_next_pba :: u64
  dsh_crc32c :: u32

definition delta_hdr_decode :: "bytes \<Rightarrow> nat \<Rightarrow> invfs_delta_seg_hdr option" where
  "delta_hdr_decode raw len =
    (if len < INVFS_DELTA_SEG_HDR_LEN \<or> take 4 raw \<noteq> INVFS_DELTA_SEG_MAGIC then None
     else if dl_rd32be (drop 4 raw) \<noteq> INVFS_DELTA_SEG_VERSION then None
     else if dl_rd32be (drop 8 raw) \<noteq> of_nat INVFS_DELTA_SEG_HDR_LEN then None
     else if dl_rd32be (drop 12 raw) \<noteq> INVFS_DELTA_SEG_BLOCKS then None
     else let crc = dl_rd32 (drop 40 raw);
              tmp = take 40 raw @ replicate 4 0
     in if invfs_crc32c tmp \<noteq> crc then None
     else Some \<lparr>dsh_magic = INVFS_DELTA_SEG_MAGIC, dsh_version = INVFS_DELTA_SEG_VERSION,
                dsh_hdr_size = of_nat INVFS_DELTA_SEG_HDR_LEN, dsh_seg_blocks = INVFS_DELTA_SEG_BLOCKS,
                dsh_seg_seq = dl_rd64be (drop 16 raw), dsh_prev_pba = dl_rd64be (drop 24 raw),
                dsh_next_pba = dl_rd64be (drop 32 raw), dsh_crc32c = crc\<rparr>)"

definition delta_hdr_encode :: "u64 \<Rightarrow> u64 \<Rightarrow> bytes" where
  "delta_hdr_encode seg_seq prev_pba =
    (let raw = INVFS_DELTA_SEG_MAGIC @ dl_wr32be INVFS_DELTA_SEG_VERSION
               @ dl_wr32be (of_nat INVFS_DELTA_SEG_HDR_LEN) @ dl_wr32be INVFS_DELTA_SEG_BLOCKS
               @ dl_wr64be seg_seq @ dl_wr64be prev_pba @ dl_wr64be 0
     in raw @ le32_bytes (invfs_crc32c (raw @ replicate 4 0)))"

section \<open>Integer round trips\<close>

lemma length_dl_wr [simp]:
  "length (dl_wr16be x) = 2" "length (dl_wr32be y) = 4" "length (dl_wr64be z) = 8"
  by (simp_all add: dl_wr16be_def dl_wr32be_def dl_wr64be_def)

lemma u16_255: "(0xFF :: u16) = mask 8"
  by (simp add: mask_eq_exp_minus_1)

lemma dl_rd16be_wr [simp]: "dl_rd16be (dl_wr16be x @ r) = x"
proof (rule bit_word_eqI)
  fix n :: nat assume "n < LENGTH(16)"
  then show "bit (dl_rd16be (dl_wr16be x @ r)) n = bit x n"
    by (cases "n < 8") (auto simp: dl_rd16be_def dl_wr16be_def u16_255 bit_simps less_diff_conv2)
qed

lemma dl_rd32be_wr [simp]: "dl_rd32be (dl_wr32be x @ r) = x"
proof (rule bit_word_eqI)
  fix n :: nat assume n: "n < LENGTH(32)"
  consider "n < 8" | "8 \<le> n" "n < 16" | "16 \<le> n" "n < 24" | "24 \<le> n" by linarith
  then show "bit (dl_rd32be (dl_wr32be x @ r)) n = bit x n"
    using n by cases (simp_all add: dl_rd32be_def dl_wr32be_def bit_simps less_diff_conv2)
qed

lemma dl_rd64be_wr [simp]: "dl_rd64be (dl_wr64be x @ r) = x"
proof (rule bit_word_eqI)
  fix n :: nat assume "n < LENGTH(64)"
  then show "bit (dl_rd64be (dl_wr64be x @ r)) n = bit x n"
    by (cases "n < 32") (auto simp: dl_rd64be_def dl_wr64be_def bit_simps less_diff_conv2)
qed

lemma dl_wr16be_rd: "2 \<le> length p \<Longrightarrow> dl_wr16be (dl_rd16be p) = take 2 p"
proof -
  assume "2 \<le> length p"
  then obtain a b r where p: "p = a # b # r" by (auto simp: numeral_eq_Suc Suc_le_length_iff)
  have "ucast (drop_bit 8 (dl_rd16be p)) = a" "ucast (dl_rd16be p AND 0xFF) = b"
    by (rule bit_word_eqI; auto simp: p dl_rd16be_def u16_255 bit_simps)+
  then show ?thesis by (simp add: p dl_wr16be_def)
qed

lemma dl_rd32_le32 [simp]: "dl_rd32 (le32_bytes x @ r) = x"
  by (simp add: dl_rd32_def)

lemma dl_rd32_le32_whole [simp]: "dl_rd32 (le32_bytes x) = x"
  using dl_rd32_le32 [of x "[]"] by simp

lemma le32_rd32: "4 \<le> length p \<Longrightarrow> le32_bytes (dl_rd32 p) = take 4 p"
  by (simp add: dl_rd32_def le32_bytes_of_list)

section \<open>Records: the parser accepts exactly what the encoder writes\<close>

type_synonym delta_rec = "bytes \<times> bytes \<times> u16"

fun drec_encode :: "delta_rec \<Rightarrow> bytes" where
  "drec_encode (key, val, fl) = delta_rec_encode key val fl"

fun drec_ok :: "delta_rec \<Rightarrow> bool" where
  "drec_ok (key, val, fl) \<longleftrightarrow>
     0 < length key \<and> length key < 2 ^ 16 \<and> length val < 2 ^ 16
     \<and> fl AND NOT (INVFS_DELTA_FLAG_DELETE OR INVFS_DELTA_FLAG_PAD) = 0
     \<and> (fl AND INVFS_DELTA_FLAG_DELETE \<noteq> 0 \<longrightarrow> val = [])
     \<and> (fl AND INVFS_DELTA_FLAG_PAD \<noteq> 0 \<longrightarrow> val = [] \<and> fl AND INVFS_DELTA_FLAG_DELETE = 0)"

lemma unat_of_nat_u16: "n < 2 ^ 16 \<Longrightarrow> unat (of_nat n :: u16) = n"
  by (simp add: unat_of_nat)

lemma u16_of_nat_eq_0: "n < 2 ^ 16 \<Longrightarrow> (of_nat n :: u16) = 0 \<longleftrightarrow> n = 0"
  using unat_of_nat_u16 [of n] by force

lemma encode_expand:
  assumes "length val < 2 ^ 16"
  shows "delta_rec_encode key val fl =
    dl_wr16be (of_nat (length key)) @ dl_wr16be (of_nat (length val)) @ dl_wr16be fl
    @ le32_bytes (invfs_crc32c (key @ val)) @ key @ val"
proof (cases "val = []")
  case False
  then have "(of_nat (length val) :: u16) \<noteq> 0" using u16_of_nat_eq_0 [OF assms] by simp
  then show ?thesis by (simp add: delta_rec_encode_def Let_def crc32c_ref_append)
qed (simp add: delta_rec_encode_def)

lemma length_encode: "length val < 2 ^ 16 \<Longrightarrow> length (delta_rec_encode key val fl) = 10 + length key + length val"
  by (simp add: encode_expand)

lemma rec_parse_encode:
  assumes ok: "drec_ok (key, val, fl)"
    and p: "drop off buf = delta_rec_encode key val fl @ post"
    and len: "off + 10 + length key + length val \<le> len"
  shows "vol_delta_rec_parse buf len off
    = Parse_rec (of_nat (length key)) (of_nat (length val)) fl (10 + length key + length val)"
proof -
  let ?kl = "of_nat (length key) :: u16" and ?vl = "of_nat (length val) :: u16"
  have b: "length key < 2 ^ 16" "length val < 2 ^ 16" "0 < length key" using ok by auto
  have q: "drop off buf = dl_wr16be ?kl @ dl_wr16be ?vl @ dl_wr16be fl
      @ le32_bytes (invfs_crc32c (key @ val)) @ key @ val @ post"
    using p b by (simp add: encode_expand)
  have u: "unat ?kl = length key" "unat ?vl = length val" using b by (simp_all only: unat_of_nat_u16)
  have kl: "?kl \<noteq> 0" using u16_of_nat_eq_0 [OF b(1)] b(3) by simp
  have vl: "?vl = 0 \<longleftrightarrow> val = []" using u16_of_nat_eq_0 [OF b(2)] by simp
  have nz: "take 10 (drop off buf) \<noteq> replicate 10 0"
  proof
    assume z: "take 10 (drop off buf) = replicate 10 0"
    have "dl_rd16be (take 10 (drop off buf)) = dl_rd16be (drop off buf)"
      by (simp add: dl_rd16be_def)
    also have "\<dots> = ?kl" by (simp add: q)
    finally show False using kl by (simp add: z dl_rd16be_def)
  qed
  have rd: "dl_rd16be (drop off buf) = ?kl" "dl_rd16be (drop 2 (drop off buf)) = ?vl"
    "dl_rd16be (drop 4 (drop off buf)) = fl" "dl_rd32 (drop 6 (drop off buf)) = invfs_crc32c (key @ val)"
    "take (length key + length val) (drop 10 (drop off buf)) = key @ val"
    by (simp_all add: q del: drop_drop)
  have fit: "\<not> len < off" "\<not> len < off + 10" "\<not> len - off < 10 + length key + length val"
    using len by simp_all
  show ?thesis
    using ok fit kl vl nz rd(5)
    by (cases "val = []") (auto simp: vol_delta_rec_parse_def Let_def rd(1-4) u delta_consts simp del: drop_drop)
qed

lemma rec_parse_sound:
  assumes pr: "vol_delta_rec_parse buf len off = Parse_rec kl vl fl rl" and len: "len \<le> length buf"
  obtains key val where "drec_ok (key, val, fl)" "kl = of_nat (length key)" "vl = of_nat (length val)"
    "rl = 10 + length key + length val" "take rl (drop off buf) = delta_rec_encode key val fl"
proof -
  define p where "p = drop off buf"
  define key where "key = take (unat kl) (drop 10 p)"
  define val where "val = take (unat vl) (drop (10 + unat kl) p)"
  have f: "kl = dl_rd16be p" "vl = dl_rd16be (drop 2 p)" "fl = dl_rd16be (drop 4 p)"
    "invfs_crc32c (take (unat kl + unat vl) (drop 10 p)) = dl_rd32 (drop 6 p)"
    "rl = 10 + unat kl + unat vl" "rl \<le> len - off" "off \<le> len" "kl \<noteq> 0"
    "fl AND NOT (1 OR 2) = 0" "fl AND 1 \<noteq> 0 \<longrightarrow> vl = 0" "fl AND 2 \<noteq> 0 \<longrightarrow> vl = 0 \<and> fl AND 1 = 0"
    using pr by (auto simp: vol_delta_rec_parse_def Let_def delta_consts p_def [symmetric] split: if_splits)
  have pl: "rl \<le> length p" using f(6,7) len by (simp add: p_def)
  have l: "length key = unat kl" "length val = unat vl"
    using pl f(5) by (simp_all add: key_def val_def)
  have u: "unat kl < 2 ^ 16" "unat vl < 2 ^ 16"
    using unsigned_less [of kl, where 'a = nat] unsigned_less [of vl, where 'a = nat] by simp_all
  have kv: "key @ val = take (unat kl + unat vl) (drop 10 p)"
    by (simp add: key_def val_def take_add add.commute)
  have wr: "dl_wr16be kl = take 2 p" "dl_wr16be vl = take 2 (drop 2 p)" "dl_wr16be fl = take 2 (drop 4 p)"
    "le32_bytes (dl_rd32 (drop 6 p)) = take 4 (drop 6 p)"
    using pl f(5) unfolding f(1-3) by (simp_all add: dl_wr16be_rd le32_rd32)
  have enc: "delta_rec_encode key val fl = take 2 p @ take 2 (drop 2 p) @ take 2 (drop 4 p) @ take 4 (drop 6 p)
      @ take (unat kl + unat vl) (drop 10 p)"
    using u l by (simp add: encode_expand kv f(4) wr)
  have "take 10 p = take 2 p @ take 2 (drop 2 p) @ take 2 (drop 4 p) @ take 4 (drop 6 p)"
    using take_add [of 2 8 p] take_add [of 2 6 "drop 2 p"] take_add [of 2 4 "drop 4 p"] by simp
  then have "take rl p = delta_rec_encode key val fl"
    unfolding enc f(5) by (simp add: take_add add.assoc)
  then show ?thesis
    using that [of key val] f u l unfolding p_def
    by (auto simp: delta_consts unat_eq_zero unat_gt_0)
qed

text \<open>The stretch of a record decides how it parses, wherever the buffer ends behind it.\<close>

lemma rec_parse_iff:
  assumes "len \<le> length buf"
  shows "vol_delta_rec_parse buf len off = Parse_rec kl vl fl rl \<longleftrightarrow>
    (\<exists>key val. drec_ok (key, val, fl) \<and> kl = of_nat (length key) \<and> vl = of_nat (length val)
       \<and> rl = 10 + length key + length val \<and> off + rl \<le> len
       \<and> take rl (drop off buf) = delta_rec_encode key val fl)"
proof
  assume pr: "vol_delta_rec_parse buf len off = Parse_rec kl vl fl rl"
  from rec_parse_sound [OF this assms] rec_parse_len [OF this] show "\<exists>key val. drec_ok (key, val, fl)
      \<and> kl = of_nat (length key) \<and> vl = of_nat (length val) \<and> rl = 10 + length key + length val \<and> off + rl \<le> len
      \<and> take rl (drop off buf) = delta_rec_encode key val fl" by metis
next
  assume "\<exists>key val. drec_ok (key, val, fl) \<and> kl = of_nat (length key) \<and> vl = of_nat (length val)
       \<and> rl = 10 + length key + length val \<and> off + rl \<le> len \<and> take rl (drop off buf) = delta_rec_encode key val fl"
  then obtain key val where a: "drec_ok (key, val, fl)" "kl = of_nat (length key)" "vl = of_nat (length val)"
    "rl = 10 + length key + length val" "off + rl \<le> len" "take rl (drop off buf) = delta_rec_encode key val fl" by blast
  have "drop off buf = delta_rec_encode key val fl @ drop rl (drop off buf)"
    using a(6) append_take_drop_id by metis
  from rec_parse_encode [OF a(1) this] a show "vol_delta_rec_parse buf len off = Parse_rec kl vl fl rl" by simp
qed

lemma rec_parse_stable:
  assumes "vol_delta_rec_parse buf len off = Parse_rec kl vl fl rl" "len \<le> length buf"
    and "take (off + rl) buf' = take (off + rl) buf" "off + rl \<le> len'" "len' \<le> length buf'"
  shows "vol_delta_rec_parse buf' len' off = Parse_rec kl vl fl rl"
proof -
  have "take rl (drop off buf') = take rl (drop off buf)"
    using assms(3) by (metis add.commute drop_take take_drop)
  moreover obtain key val where "drec_ok (key, val, fl)" "kl = of_nat (length key)" "vl = of_nat (length val)"
    "rl = 10 + length key + length val" "take rl (drop off buf) = delta_rec_encode key val fl"
    using assms(1,2) by (rule rec_parse_sound)
  ultimately show ?thesis
    using assms(4) unfolding rec_parse_iff [OF assms(5)]
    by (intro exI [of _ key] exI [of _ val]) (simp del: drec_ok.simps)
qed

section \<open>The records of a buffer\<close>

text \<open>What a scan walks over, as data: the records in order.\<close>

function parse_all :: "bytes \<Rightarrow> nat \<Rightarrow> nat \<Rightarrow> delta_rec list" where
  "parse_all buf len off =
    (if off < len
     then case vol_delta_rec_parse buf len off of
            Parse_rec kl vl fl rl \<Rightarrow>
              (bslice (off + 10) (unat kl) buf, bslice (off + 10 + unat kl) (unat vl) buf, fl)
              # parse_all buf len (off + rl)
          | _ \<Rightarrow> []
     else [])"
  by auto
termination by (relation "measure (\<lambda>(buf, len, off). len - off)") (auto dest: rec_parse_len)

declare parse_all.simps [simp del]

definition delta_records :: "bytes \<Rightarrow> delta_rec list" where
  "delta_records buf = parse_all buf (length buf) 0"

lemma record_body:
  assumes "length val < 2 ^ 16" and d: "drop off buf = delta_rec_encode key val fl @ post"
  shows "bslice (off + 10) (length key) buf = key" "bslice (off + 10 + length key) (length val) buf = val"
proof -
  have kv: "drop 10 (drop off buf) = key @ val @ post"
    using assms(1) by (simp add: d encode_expand del: drop_drop)
  then show "bslice (off + 10) (length key) buf = key" by (simp add: bslice_def add.commute)
  from kv have "drop (length key) (drop 10 (drop off buf)) = val @ post"
    by (simp del: drop_drop)
  then show "bslice (off + 10 + length key) (length val) buf = val"
    by (simp add: bslice_def add.commute add.left_commute)
qed

text \<open>A run of whole records starting at an offset.\<close>

lemma parse_all_records:
  assumes "\<forall>r\<in>set rs. drec_ok r" "drop off buf = concat (map drec_encode rs) @ post" "off \<le> length buf"
    "e = off + length (concat (map drec_encode rs))"
  shows "parse_all buf (length buf) off = rs @ parse_all buf (length buf) e
    \<and> scan_loop buf (length buf) off l n = scan_loop buf (length buf) e (if rs = [] then l else e) (n + length rs)"
  using assms
proof (induction rs arbitrary: off l n e)
  case (Cons r rs)
  obtain key val fl where r: "r = (key, val, fl)" by (cases r)
  have ok: "drec_ok (key, val, fl)" using Cons.prems(1) r by simp
  then have lv: "length val < 2 ^ 16" "length key < 2 ^ 16" by simp_all
  let ?rl = "10 + length key + length val"
  have d: "drop off buf = delta_rec_encode key val fl @ concat (map drec_encode rs) @ post"
    using Cons.prems(2) r by simp
  have "length (drop off buf) = length buf - off" by simp
  then have len: "off + ?rl \<le> length buf" using Cons.prems(3) lv by (simp add: d length_encode)
  have pr: "vol_delta_rec_parse buf (length buf) off
      = Parse_rec (of_nat (length key)) (of_nat (length val)) fl ?rl"
    using rec_parse_encode [OF ok d] len by simp
  have u: "unat (of_nat (length key) :: u16) = length key" "unat (of_nat (length val) :: u16) = length val"
    using lv by (simp_all only: unat_of_nat_u16)
  note kv' = record_body [OF lv(1) d]
  have d': "drop (off + ?rl) buf = concat (map drec_encode rs) @ post"
    using arg_cong [OF d, of "drop ?rl"] lv by (simp add: length_encode add.commute)
  have e: "e = (off + ?rl) + length (concat (map drec_encode rs))"
    using Cons.prems(4) r lv by (simp add: length_encode)
  have lt: "off < length buf" using len by simp
  have pa: "parse_all buf (length buf) off = (key, val, fl) # parse_all buf (length buf) (off + ?rl)"
    unfolding parse_all.simps [of buf "length buf" off] pr using lt by (simp add: u kv')
  have sc: "scan_loop buf (length buf) off l n = scan_loop buf (length buf) (off + ?rl) (off + ?rl) (n + 1)"
    unfolding scan_loop.simps [of buf "length buf" off] pr using lt by simp
  have e0: "(if rs = [] then off + ?rl else e) = e" using e by simp
  have "\<forall>r\<in>set rs. drec_ok r" using Cons.prems(1) by simp
  from Cons.IH [OF this d' len e, of "off + ?rl" "n + 1", unfolded e0] show ?case
    unfolding pa sc r by simp
qed simp_all

lemma rec_parse_zeros:
  assumes "drop off buf = replicate n 0"
  shows "vol_delta_rec_parse buf (length buf) off = Parse_end"
proof (cases "off + 10 \<le> length buf")
  case True
  then have "10 \<le> n" using arg_cong [OF assms, of length] by simp
  then show ?thesis using True by (simp add: vol_delta_rec_parse_def delta_consts assms min_def)
qed (simp add: vol_delta_rec_parse_def delta_consts)

lemma records_then_zeros:
  assumes "\<forall>r\<in>set rs. drec_ok r"
  shows "delta_records (concat (map drec_encode rs) @ replicate n 0) = rs"
    and "vol_delta_scan_valid (concat (map drec_encode rs) @ replicate n 0)
           (length (concat (map drec_encode rs) @ replicate n 0))
         = (length (concat (map drec_encode rs)), length rs, False)"
proof -
  let ?b = "concat (map drec_encode rs) @ replicate n 0"
  let ?e = "length (concat (map drec_encode rs))"
  have z: "vol_delta_rec_parse ?b (length ?b) ?e = Parse_end"
    by (rule rec_parse_zeros [of _ _ n]) simp
  have "parse_all ?b (length ?b) 0 = rs @ parse_all ?b (length ?b) ?e
      \<and> scan_loop ?b (length ?b) 0 0 0 = scan_loop ?b (length ?b) ?e (if rs = [] then 0 else ?e) (0 + length rs)"
    by (rule parse_all_records [OF assms]) simp_all
  moreover have "parse_all ?b (length ?b) ?e = []"
    unfolding parse_all.simps [of ?b "length ?b" ?e] z by simp
  moreover have "scan_loop ?b (length ?b) ?e l k = (l, k, False)" for l k
    unfolding scan_loop.simps [of ?b "length ?b" ?e] z by simp
  ultimately show "delta_records ?b = rs" "vol_delta_scan_valid ?b (length ?b) = (?e, length rs, False)"
    unfolding delta_records_def vol_delta_scan_valid_def by (simp_all only: append_Nil2) auto
qed

text \<open>Conversely, the stretch the scan walks over is the encoding of the records it saw.\<close>

lemma parse_all_sound:
  defines "E \<equiv> \<lambda>rs. concat (map drec_encode rs)"
  assumes "len = length buf"
  shows "(\<forall>r\<in>set (parse_all buf len off). drec_ok r)
    \<and> take (length (E (parse_all buf len off))) (drop off buf) = E (parse_all buf len off)
    \<and> fst (scan_loop buf len off l n) = (if parse_all buf len off = [] then l else off + length (E (parse_all buf len off)))
    \<and> fst (snd (scan_loop buf len off l n)) = n + length (parse_all buf len off)"
  using assms(2)
proof (induction buf len off arbitrary: l n rule: parse_all.induct)
  case (1 buf len off)
  show ?case
  proof (cases "\<exists>kl vl fl rl. off < len \<and> vol_delta_rec_parse buf len off = Parse_rec kl vl fl rl")
    case True
    then obtain kl vl fl rl where lt: "off < len" and pr: "vol_delta_rec_parse buf len off = Parse_rec kl vl fl rl" by blast
    obtain key val where kv: "drec_ok (key, val, fl)" "kl = of_nat (length key)" "vl = of_nat (length val)"
      "rl = 10 + length key + length val" "take rl (drop off buf) = delta_rec_encode key val fl"
      using rec_parse_sound [OF pr] "1.prems" by auto
    have lv: "length val < 2 ^ 16" "length key < 2 ^ 16" using kv(1) by simp_all
    have u: "unat kl = length key" "unat vl = length val"
      using lv unfolding kv(2,3) by (simp_all only: unat_of_nat_u16)
    have "drop off buf = delta_rec_encode key val fl @ drop rl (drop off buf)"
      by (metis append_take_drop_id kv(5))
    note kb = record_body [OF lv(1) this]
    have pa: "parse_all buf len off = (key, val, fl) # parse_all buf len (off + rl)"
      unfolding parse_all.simps [of buf len off] pr using lt by (simp add: u kb)
    have sc: "scan_loop buf len off l n = scan_loop buf len (off + rl) (off + rl) (n + 1)"
      unfolding scan_loop.simps [of buf len off] pr using lt by simp
    have len_e: "length (delta_rec_encode key val fl) = rl" using lv kv(4) by (simp add: length_encode)
    note IH = "1.IH" [OF lt pr "1.prems", of "off + rl" "n + 1"]
    have t: "take (rl + m) (drop off buf) = delta_rec_encode key val fl @ take m (drop (off + rl) buf)" for m
      by (simp add: take_add kv(5) add.commute [of rl off])
    show ?thesis unfolding pa sc using IH kv(1) by (auto simp: E_def t len_e)
  next
    case False
    then have "parse_all buf len off = []" "fst (scan_loop buf len off l n) = l" "fst (snd (scan_loop buf len off l n)) = n"
      unfolding parse_all.simps [of buf len off] scan_loop.simps [of buf len off]
      by (auto split: delta_parse.splits)
    then show ?thesis by (simp add: E_def)
  qed
qed

lemma scan_valid_sound:
  assumes "vol_delta_scan_valid buf (length buf) = (m, k, bad)"
  shows "take m buf = concat (map drec_encode (delta_records buf))" "m \<le> length buf"
    "k = length (delta_records buf)" "\<forall>r\<in>set (delta_records buf). drec_ok r"
proof -
  let ?rs = "parse_all buf (length buf) 0"
  have f: "\<forall>r\<in>set ?rs. drec_ok r" "take (length (concat (map drec_encode ?rs))) buf = concat (map drec_encode ?rs)"
    "m = length (concat (map drec_encode ?rs))" "k = length ?rs"
    using parse_all_sound [of "length buf" buf 0 0 0] assms
    by (simp_all add: vol_delta_scan_valid_def split: if_splits)
  from f show "take m buf = concat (map drec_encode (delta_records buf))"
    "k = length (delta_records buf)" "\<forall>r\<in>set (delta_records buf). drec_ok r"
    by (simp_all add: delta_records_def)
  show "m \<le> length buf" using f(2,3) by (metis length_take min.cobounded1)
qed

lemma delta_records_extend:
  assumes "\<forall>r\<in>set rs. drec_ok r"
  shows "\<exists>more. delta_records (concat (map drec_encode rs) @ rest) = rs @ more"
  using parse_all_records [OF assms, of 0 "concat (map drec_encode rs) @ rest" rest] by (auto simp: delta_records_def)

section \<open>Pads\<close>

lemma pad_chunk_encode: "pad_chunk kl = drec_encode (replicate (unat kl) 0, [], INVFS_DELTA_FLAG_PAD)"
  by (simp add: pad_chunk_def encode_expand Let_def)

lemma pad_ok: "kl \<noteq> 0 \<Longrightarrow> drec_ok (replicate (unat (kl :: u16)) 0, [], INVFS_DELTA_FLAG_PAD)"
  using unsigned_less [of kl, where 'a = nat] by (simp add: delta_consts unat_gt_0)

lemma pad_loop_records:
  assumes "11 \<le> n" "n < 2 ^ 64"
  obtains ps where "pad_loop n = concat (map drec_encode ps)" "\<forall>r\<in>set ps. drec_ok r"
    "\<forall>r\<in>set ps. snd (snd r) = INVFS_DELTA_FLAG_PAD" "length (pad_loop n) = n"
  using assms
proof (induction n arbitrary: thesis rule: less_induct)
  case (less n)
  have sub: "sz_sub n 10 = n - 10" using less.prems by (simp add: sz_sub_le)
  define kl :: u16 where "kl = (if n - 10 \<le> 0xFFFF then of_nat (n - 10) else of_nat (0xFFFF - 10))"
  let ?p = "(replicate (unat kl) 0, [], INVFS_DELTA_FLAG_PAD) :: delta_rec"
  have u: "unat kl = (if n - 10 \<le> 0xFFFF then n - 10 else 65525)"
    by (simp add: kl_def unat_of_nat_u16 [simplified])
  then have "unat kl \<noteq> 0" using less.prems by (simp split: if_splits)
  then have "kl \<noteq> 0" by auto
  have nz: "n \<noteq> 0" using less.prems by simp
  have step: "pad_loop n = drec_encode ?p @ pad_loop (n - (10 + unat kl))"
    unfolding pad_chunk_encode [symmetric] kl_def
    by (subst pad_loop.simps) (simp only: nz sub Let_def INVFS_DELTA_REC_HDR_LEN_def if_False)
  have lp: "length (drec_encode ?p) = 10 + unat kl" by (simp add: length_encode)
  show ?case
  proof (cases "n - 10 \<le> 0xFFFF")
    case True
    then have "n - (10 + unat kl) = 0" using u by simp
    then have "pad_loop n = concat (map drec_encode [?p])" using step by (simp add: pad_loop.simps)
    moreover have "length (pad_loop n) = n" using lp step \<open>n - (10 + unat kl) = 0\<close> True u less.prems
      by (simp add: pad_loop.simps)
    ultimately show ?thesis using less.prems(1) [of "[?p]"] pad_ok [OF \<open>kl \<noteq> 0\<close>] by simp
  next
    case False
    then have m: "n - (10 + unat kl) < n" "11 \<le> n - (10 + unat kl)" "n - (10 + unat kl) < 2 ^ 64"
      using u less.prems(3) by simp_all
    obtain ps where ps: "pad_loop (n - (10 + unat kl)) = concat (map drec_encode ps)" "\<forall>r\<in>set ps. drec_ok r"
      "\<forall>r\<in>set ps. snd (snd r) = INVFS_DELTA_FLAG_PAD" "length (pad_loop (n - (10 + unat kl))) = n - (10 + unat kl)"
      using less.IH [OF m(1) _ m(2,3)] by blast
    show ?thesis
      by (rule less.prems(1) [of "?p # ps"]) (use step ps lp m pad_ok [OF \<open>kl \<noteq> 0\<close>] in simp_all)
  qed
qed

section \<open>Segment headers\<close>

lemma hdr_decode_encode:
  "delta_hdr_decode (delta_hdr_encode seq prev @ post) INVFS_DELTA_SEG_HDR_LEN =
     Some \<lparr>dsh_magic = INVFS_DELTA_SEG_MAGIC, dsh_version = 1, dsh_hdr_size = 44, dsh_seg_blocks = 32,
           dsh_seg_seq = seq, dsh_prev_pba = prev, dsh_next_pba = 0,
           dsh_crc32c = dl_rd32 (drop 40 (delta_hdr_encode seq prev))\<rparr>"
proof -
  have m: "length INVFS_DELTA_SEG_MAGIC = 4" by (simp add: INVFS_DELTA_SEG_MAGIC_def)
  show ?thesis
    by (simp add: delta_hdr_encode_def delta_hdr_decode_def Let_def delta_consts m)
qed

lemma hdr_decode_crc:
  "delta_hdr_decode raw len = Some h \<Longrightarrow> invfs_crc32c (take 40 raw @ replicate 4 0) = dl_rd32 (drop 40 raw)"
  by (auto simp: delta_hdr_decode_def Let_def split: if_splits)

lemma length_hdr_encode [simp]: "length (delta_hdr_encode seq prev) = 44"
  by (simp add: delta_hdr_encode_def Let_def INVFS_DELTA_SEG_MAGIC_def)

lemma hdr_burst_rejected:
  assumes raw: "delta_hdr_encode seq prev = pre @ xs @ post" and "length pre + length xs \<le> 40"
    and "length ys = length xs" "length xs \<le> 4" "ys \<noteq> xs"
  shows "delta_hdr_decode (pre @ ys @ post) INVFS_DELTA_SEG_HDR_LEN = None"
proof (rule ccontr)
  assume "delta_hdr_decode (pre @ ys @ post) INVFS_DELTA_SEG_HDR_LEN \<noteq> None"
  then obtain h where "delta_hdr_decode (pre @ ys @ post) INVFS_DELTA_SEG_HDR_LEN = Some h" by auto
  from hdr_decode_crc [OF this]
  have a: "invfs_crc32c (take 40 (pre @ ys @ post) @ replicate 4 0) = dl_rd32 (drop 40 (pre @ ys @ post))" .
  have b: "invfs_crc32c (take 40 (pre @ xs @ post) @ replicate 4 0) = dl_rd32 (drop 40 (pre @ xs @ post))"
    using hdr_decode_crc [OF hdr_decode_encode [of seq prev "[]"]] by (simp only: raw append_Nil2)
  let ?t = "take (40 - length pre - length xs) post @ replicate 4 0"
  have t: "take 40 (pre @ zs @ post) @ replicate 4 0 = pre @ zs @ ?t"
    "drop 40 (pre @ zs @ post) = drop (40 - length pre - length xs) post" if "length zs = length xs" for zs
    using assms(2) that by simp_all
  have "invfs_crc32c (pre @ xs @ ?t) = invfs_crc32c (pre @ ys @ ?t)"
    using a b t(1) [of xs] t(1) [of ys] t(2) [of xs] t(2) [of ys] assms(3) by simp
  with crc32c_ref_burst [of xs ys 0 pre ?t] assms show False by simp
qed

section \<open>Properties\<close>

text \<open>C19. The record parser accepts, at any offset, exactly the byte strings that the append path
  writes for a well-formed record that fits in the buffer, and returns that record's lengths, flags
  and size. Anything else, a torn record included, is never taken for a record.\<close>
theorem delta_parse_exact:
  assumes "len \<le> length buf"
  shows "vol_delta_rec_parse buf len off = Parse_rec kl vl fl rl \<longleftrightarrow>
    (\<exists>key val. drec_ok (key, val, fl) \<and> kl = of_nat (length key) \<and> vl = of_nat (length val)
       \<and> rl = 10 + length key + length val \<and> off + rl \<le> len
       \<and> take rl (drop off buf) = delta_rec_encode key val fl)"
  using assms by (rule rec_parse_iff)

theorem delta_parse_exact_witness:
  "\<exists>kl vl. vol_delta_rec_parse (0 # delta_rec_encode [7] [8, 9] 0) 14 1 = Parse_rec kl vl 0 13"
proof -
  have "drec_ok ([7], [8, 9], 0)" by (simp add: delta_consts)
  then show ?thesis
    using delta_parse_exact [of 14 "0 # delta_rec_encode [7] [8, 9] 0" 1 "of_nat 1" "of_nat 2" 0 13]
    by (intro exI [of _ "of_nat 1"] exI [of _ "of_nat 2"])
       (simp add: length_encode, rule exI [of _ "[7]"], simp, rule exI [of _ "[8, 9]"], simp add: length_encode delta_consts)
qed

text \<open>C18. Records written back to back are read back in order whatever follows them, a torn record
  or stale bytes included; when zeroed space follows, the scan reports exactly them, ends at their
  last byte and sees no damage.\<close>
theorem delta_log_roundtrip:
  assumes "\<forall>r\<in>set rs. drec_ok r"
  defines "log \<equiv> concat (map drec_encode rs)"
  shows "take (length rs) (delta_records (log @ tail)) = rs
    \<and> delta_records (log @ replicate n 0) = rs
    \<and> vol_delta_scan_valid (log @ replicate n 0) (length log + n) = (length log, length rs, False)"
proof -
  obtain more where "delta_records (log @ tail) = rs @ more"
    using delta_records_extend [OF assms(1), of tail] unfolding log_def by blast
  then show ?thesis using records_then_zeros [OF assms(1), of n] unfolding log_def by simp
qed

theorem delta_log_roundtrip_witness:
  "delta_records (delta_rec_encode [1] [2] 0 @ delta_rec_encode [1] [] 1 @ replicate 5 0) = [([1], [2], 0), ([1], [], 1)]"
  using delta_log_roundtrip [of "[([1], [2], 0), ([1], [], 1)]" "[]" 5] by (simp add: delta_consts)

text \<open>C17. The prefix that the scan declares valid is the back-to-back encoding of the well-formed
  records it counted, and lies inside the buffer; another buffer with the same prefix, such as the
  segment after a crash that damaged only what follows, yields the same records first.\<close>
theorem delta_scan_keeps_prefix:
  assumes "vol_delta_scan_valid buf (length buf) = (m, k, bad)"
  shows "take m buf = concat (map drec_encode (delta_records buf)) \<and> m \<le> length buf
    \<and> k = length (delta_records buf) \<and> (\<forall>r\<in>set (delta_records buf). drec_ok r)
    \<and> (take m buf' = take m buf \<longrightarrow> take k (delta_records buf') = delta_records buf)"
proof -
  note s = scan_valid_sound [OF assms]
  have "take k (delta_records buf') = delta_records buf" if "take m buf' = take m buf"
  proof -
    have "buf' = concat (map drec_encode (delta_records buf)) @ drop m buf'"
      using append_take_drop_id [of m buf'] that s(1) by simp
    then show ?thesis using delta_records_extend [OF s(4), of "drop m buf'"] s(3) by auto
  qed
  then show ?thesis using s by blast
qed

theorem delta_scan_keeps_prefix_witness:
  "\<exists>m k bad. vol_delta_scan_valid (delta_rec_encode [1] [2] 0 @ [9]) 13 = (m, k, bad)
     \<and> take k (delta_records (delta_rec_encode [1] [2] 0 @ [9, 9])) = delta_records (delta_rec_encode [1] [2] 0 @ [9])"
proof -
  let ?b = "delta_rec_encode [1] [2] 0 @ [9]"
  obtain m k bad where s: "vol_delta_scan_valid ?b (length ?b) = (m, k, bad)" by (metis prod_cases3)
  have l: "length ?b = 13" by (simp add: length_encode)
  have "take m (?b @ [9]) = take m ?b" using scan_valid_sound(2) [OF s] by (simp only: take_append) simp
  with delta_scan_keeps_prefix [OF s, of "?b @ [9]"] s l show ?thesis by auto
qed

text \<open>C20. A tombstone pad fills its span exactly and is inert: written over any span of at least one
  record, between whole records, it leaves every record before and after it readable and adds only
  records that carry the pad flag.\<close>
theorem vol_delta_pad_inert:
  assumes "11 \<le> n" "n < 2 ^ 64" "\<forall>r\<in>set (as @ bs). drec_ok r"
  shows "length (vol_delta_pad_build n) = n \<and>
    (\<exists>ps. (\<forall>r\<in>set ps. snd (snd r) = INVFS_DELTA_FLAG_PAD) \<and>
       delta_records (concat (map drec_encode as) @ vol_delta_pad_build n @ concat (map drec_encode bs) @ replicate z 0)
       = as @ ps @ bs)"
proof -
  obtain ps where ps: "pad_loop n = concat (map drec_encode ps)" "\<forall>r\<in>set ps. drec_ok r"
    "\<forall>r\<in>set ps. snd (snd r) = INVFS_DELTA_FLAG_PAD" "length (pad_loop n) = n"
    using assms(1,2) by (rule pad_loop_records)
  have b: "vol_delta_pad_build n = pad_loop n" using assms(1) by (simp add: vol_delta_pad_build_def delta_consts)
  have "\<forall>r\<in>set (as @ ps @ bs). drec_ok r" using assms(3) ps(2) by auto
  from records_then_zeros(1) [OF this, of z] ps show ?thesis unfolding b by auto
qed

theorem vol_delta_pad_inert_witness:
  "length (vol_delta_pad_build 70000) = 70000"
  using vol_delta_pad_inert [of 70000 "[]" "[]"] by simp

text \<open>C21. A segment header decodes to the sequence number and the link it was written with, whatever
  follows it in the segment, and a corruption of up to four adjacent bytes before its checksum makes
  it undecodable.\<close>
theorem delta_hdr_guarded:
  "(\<exists>h. delta_hdr_decode (delta_hdr_encode seq prev @ body) INVFS_DELTA_SEG_HDR_LEN = Some h
      \<and> dsh_seg_seq h = seq \<and> dsh_prev_pba h = prev \<and> dsh_next_pba h = 0)
   \<and> (delta_hdr_encode seq prev = pre @ xs @ post \<and> length pre + length xs \<le> 40
       \<and> length ys = length xs \<and> length xs \<le> 4 \<and> ys \<noteq> xs
      \<longrightarrow> delta_hdr_decode (pre @ ys @ post) INVFS_DELTA_SEG_HDR_LEN = None)"
  using hdr_decode_encode [of seq prev body] hdr_burst_rejected [of seq prev pre xs post ys] by auto

theorem delta_hdr_guarded_witness:
  "delta_hdr_decode ([0] @ drop 1 (delta_hdr_encode 5 6)) INVFS_DELTA_SEG_HDR_LEN = None"
proof -
  have "delta_hdr_encode 5 6 = [] @ [68] @ drop 1 (delta_hdr_encode 5 6)"
    by (simp add: delta_hdr_encode_def Let_def INVFS_DELTA_SEG_MAGIC_def ascii_def of_char_def)
  then show ?thesis
    using delta_hdr_guarded [of 5 6 "[]" "[]" "[68]" "drop 1 (delta_hdr_encode 5 6)" "[0]"] by simp
qed

end
