(* ===== verification/DeltaIndex.thy ===== *)
theory DeltaIndex
  imports DeltaRecord
begin

text \<open>
  The coalescing index of the delta log (\<^verbatim>\<open>src/core/vol_delta.c\<close>, section 2): an open-addressing
  table with linear probing, keyed by the FNV-1a hash. The table is a list of slots; a slot whose
  key pointer is null is empty. The probe loops only stop at a slot that satisfies their test, so
  \<open>probe\<close> may run for ever on a full table: it is a partial function and its result \<open>None\<close> means
  that it does not return. The invariant excludes that case, and every operation is shown to return.
  The null tests on the index pointer are at the places that read the pointer.
\<close>

unbundle bit_operations_syntax

section \<open>Data and operations\<close>

record delta_slot =
  ds_key :: "bytes option"
  ds_klen :: u16
  ds_flags :: u16
  ds_vlen :: u16
  ds_seg :: nat
  ds_off :: nat
  ds_seq :: nat

record delta_index =
  di_slot :: "delta_slot list"
  di_cap :: nat
  di_used :: nat
  di_inst :: nat
  di_epoch :: nat

definition empty_slot :: delta_slot where
  "empty_slot = \<lparr>ds_key = None, ds_klen = 0, ds_flags = 0, ds_vlen = 0, ds_seg = 0, ds_off = 0, ds_seq = 0\<rparr>"

definition dl_hash :: "bytes \<Rightarrow> u32" where
  "dl_hash p = (let h = fold (\<lambda>b h. (h XOR ucast b) * 16777619) p 2166136261 in if h \<noteq> 0 then h else 1)"

text \<open>The two allocations of \<open>di_new\<close> and the process-wide instance counter are arguments.\<close>

definition di_new :: "bool \<Rightarrow> bool \<Rightarrow> nat \<Rightarrow> delta_index option \<times> nat" where
  "di_new a1 a2 g_index_inst =
    (if \<not> a1 then (None, g_index_inst)
     else if \<not> a2 then (None, g_index_inst)
     else (Some \<lparr>di_slot = replicate 64 empty_slot, di_cap = 64, di_used = 0,
                 di_inst = sz (g_index_inst + 1), di_epoch = 0\<rparr>, sz (g_index_inst + 1)))"

partial_function (option) probe :: "(nat \<Rightarrow> bool) \<Rightarrow> nat \<Rightarrow> nat \<Rightarrow> nat option" where
  [code]: "probe stop msk i = (if stop i then Some i else probe stop msk ((i + 1) AND msk))"

definition slot_match :: "delta_slot \<Rightarrow> bytes \<Rightarrow> bool" where
  "slot_match s key \<longleftrightarrow> ds_klen s = of_nat (length key) \<and> take (length key) (the (ds_key s)) = key"

definition di_find :: "delta_index \<Rightarrow> bytes \<Rightarrow> nat option option" where
  "di_find di key =
    (if di_cap di = 0 then Some None
     else let msk = di_cap di - 1
     in case probe (\<lambda>i. ds_key (di_slot di ! i) = None \<or> slot_match (di_slot di ! i) key) msk
               (unat (dl_hash key) AND msk) of
          None \<Rightarrow> None
        | Some i \<Rightarrow> Some (if ds_key (di_slot di ! i) = None then None else Some i))"

text \<open>One turn of the rehash loop places a slot at the first free position of the new table.\<close>

definition slot_hash :: "delta_slot \<Rightarrow> nat" where
  "slot_hash s = unat (dl_hash (take (unat (ds_klen s)) (the (ds_key s))))"

definition place :: "delta_slot list \<Rightarrow> nat \<Rightarrow> delta_slot \<Rightarrow> delta_slot list option" where
  "place ns msk s =
    (case probe (\<lambda>j. ds_key (ns ! j) = None) msk (slot_hash s AND msk) of
       None \<Rightarrow> None | Some j \<Rightarrow> Some (ns[j := s]))"

fun rehash :: "delta_slot list \<Rightarrow> nat \<Rightarrow> delta_slot list \<Rightarrow> delta_slot list option" where
  "rehash ns msk [] = Some ns"
| "rehash ns msk (s # ss) =
    (if ds_key s = None then rehash ns msk ss
     else case place ns msk s of None \<Rightarrow> None | Some ns \<Rightarrow> rehash ns msk ss)"

definition di_grow :: "bool \<Rightarrow> delta_index \<Rightarrow> (int \<times> delta_index) option" where
  "di_grow alloc di =
    (let ncap = di_cap di * 2
     in if \<not> alloc then Some (-1, di)
     else case rehash (replicate ncap empty_slot) (ncap - 1) (di_slot di) of
            None \<Rightarrow> None
          | Some ns \<Rightarrow> Some (0, di\<lparr>di_slot := ns, di_cap := ncap, di_epoch := sz (di_epoch di + 1)\<rparr>))"

text \<open>A reference as \<^verbatim>\<open>vol_delta.h\<close> declares it.\<close>

record delta_ref =
  r_seg :: nat
  r_off :: nat
  r_seq :: nat
  r_flags :: u16
  r_vlen :: u16

definition slot_set :: "delta_ref \<Rightarrow> delta_slot \<Rightarrow> delta_slot" where
  "slot_set r s = s\<lparr>ds_flags := r_flags r, ds_vlen := r_vlen r, ds_seg := r_seg r, ds_off := r_off r, ds_seq := r_seq r\<rparr>"

text \<open>The end of \<open>di_put\<close>, at the slot where its search stopped: a free slot takes a copy of the key,
  which is an allocation. The triple is the code, the index and \<open>*inserted\<close>.\<close>

definition di_store :: "bool \<Rightarrow> delta_index \<Rightarrow> bytes \<Rightarrow> delta_ref \<Rightarrow> nat \<Rightarrow> int \<times> delta_index \<times> bool" where
  "di_store a_key di key r i =
    (let s = di_slot di ! i
     in if ds_key s = None
        then if \<not> a_key then (-1, di, False)
             else (0, di\<lparr>di_slot := (di_slot di)[i := slot_set r (s\<lparr>ds_key := Some key, ds_klen := of_nat (length key)\<rparr>)],
                         di_used := di_used di + 1, di_epoch := sz (di_epoch di + 1)\<rparr>, True)
        else (0, di\<lparr>di_slot := (di_slot di)[i := slot_set r s]\<rparr>, False))"

definition di_put :: "bool \<Rightarrow> bool \<Rightarrow> delta_index \<Rightarrow> bytes \<Rightarrow> delta_ref \<Rightarrow> (int \<times> delta_index \<times> bool) option" where
  "di_put a_grow a_key di key r =
    (case (if di_used di * 10 \<ge> di_cap di * 7 then di_grow a_grow di else Some (0, di)) of
       None \<Rightarrow> None
     | Some (rc, di) \<Rightarrow>
         if rc \<noteq> 0 then Some (-1, di, False)
         else let msk = di_cap di - 1
         in case probe (\<lambda>i. ds_key (di_slot di ! i) = None \<or> slot_match (di_slot di ! i) key) msk
                   (unat (dl_hash key) AND msk) of
              None \<Rightarrow> None
            | Some i \<Rightarrow> Some (di_store a_key di key r i))"

text \<open>The loop of the backward-shift delete takes every slot of the cluster out and places it
  again, until it meets an empty slot.\<close>

partial_function (option) shift_loop :: "delta_slot list \<Rightarrow> nat \<Rightarrow> nat \<Rightarrow> delta_slot list option" where
  [code]: "shift_loop ss msk i =
    (let i = (i + 1) AND msk
     in if ds_key (ss ! i) = None then Some ss
     else case place (ss[i := (ss ! i)\<lparr>ds_key := None\<rparr>]) msk (ss ! i) of
            None \<Rightarrow> None
          | Some ss \<Rightarrow> shift_loop ss msk i)"

definition di_delete_at :: "delta_index \<Rightarrow> nat \<Rightarrow> delta_index option" where
  "di_delete_at di idx =
    (if idx \<ge> di_cap di \<or> ds_key (di_slot di ! idx) = None then Some di
     else case shift_loop ((di_slot di)[idx := (di_slot di ! idx)\<lparr>ds_key := None\<rparr>]) (di_cap di - 1) idx of
            None \<Rightarrow> None
          | Some ss \<Rightarrow> Some (di\<lparr>di_slot := ss, di_used := di_used di - 1, di_epoch := sz (di_epoch di + 1)\<rparr>))"

section \<open>Positions on the ring\<close>

definition ring_dist :: "nat \<Rightarrow> nat \<Rightarrow> nat \<Rightarrow> nat" where
  "ring_dist N h x = (if h \<le> x then x - h else x + N - h)"

lemma ring_dist_less: "h < N \<Longrightarrow> x < N \<Longrightarrow> ring_dist N h x < N"
  by (auto simp: ring_dist_def)

lemma ring_dist_self [simp]: "ring_dist N h h = 0"
  by (simp add: ring_dist_def)

lemma ring_dist_inj: "h < N \<Longrightarrow> x < N \<Longrightarrow> y < N \<Longrightarrow> ring_dist N h x = ring_dist N h y \<Longrightarrow> x = y"
  by (auto simp: ring_dist_def split: if_splits)

lemma and_mask_mod: "N = 2 ^ k \<Longrightarrow> x AND (N - 1) = x mod (N :: nat)"
  by (simp only: mask_eq_exp_minus_1 [symmetric] take_bit_eq_mask [symmetric] take_bit_eq_mod)

lemma ring_dist_next:
  assumes "h < N" "x < N" "ring_dist N h x \<noteq> 0"
  shows "ring_dist N h x = Suc (ring_dist N (Suc h mod N) x)"
  using assms by (auto simp: ring_dist_def mod_Suc split: if_splits)

lemma probe_finds:
  assumes N: "N = 2 ^ k" and x: "x < N" "stop x" and h: "h < N"
  obtains p where "probe stop (N - 1) h = Some p" "p < N" "stop p"
    "\<And>y. y < N \<Longrightarrow> ring_dist N h y < ring_dist N h p \<Longrightarrow> \<not> stop y"
  using h x
proof (induction "ring_dist N h x" arbitrary: h thesis rule: less_induct)
  case less
  show ?case
  proof (cases "stop h")
    case True
    then show ?thesis using less.prems by (intro less.prems(1) [of h]) (simp_all add: probe.simps)
  next
    case False
    let ?h = "Suc h mod N"
    have "x \<noteq> h" using False less.prems by auto
    then have nz: "ring_dist N h x \<noteq> 0" using less.prems by (auto simp: ring_dist_def split: if_splits)
    have h': "?h < N" using less.prems by simp
    obtain p where p: "probe stop (N - 1) ?h = Some p" "p < N" "stop p"
      "\<And>y. y < N \<Longrightarrow> ring_dist N ?h y < ring_dist N ?h p \<Longrightarrow> \<not> stop y"
      using less.hyps [OF _ _ h' less.prems(3,4)] ring_dist_next [OF less.prems(2,3) nz] by auto
    have "probe stop (N - 1) h = Some p"
      using False p(1) and_mask_mod [OF N, of "h + 1"] by (subst probe.simps) simp
    moreover have "\<not> stop y" if y: "y < N" "ring_dist N h y < ring_dist N h p" for y
    proof (cases "ring_dist N h y = 0")
      case True
      then show ?thesis using False y less.prems(2) by (auto simp: ring_dist_def split: if_splits)
    next
      case False
      then have "ring_dist N ?h y < ring_dist N ?h p"
        using y ring_dist_next [OF less.prems(2) y(1)] ring_dist_next [OF less.prems(2) p(2)] by auto
      then show ?thesis using p(4) y(1) by blast
    qed
    ultimately show ?thesis using less.prems(1) p(2,3) by blast
  qed
qed

section \<open>Tables\<close>

abbreviation occ :: "delta_slot list \<Rightarrow> nat \<Rightarrow> bool" where
  "occ ss i \<equiv> ds_key (ss ! i) \<noteq> None"

definition slot_wf :: "delta_slot \<Rightarrow> bool" where
  "slot_wf s \<longleftrightarrow> (\<forall>k. ds_key s = Some k \<longrightarrow> ds_klen s = of_nat (length k) \<and> length k < 2 ^ 16)"

definition ref_of :: "delta_slot \<Rightarrow> delta_ref" where
  "ref_of s = \<lparr>r_seg = ds_seg s, r_off = ds_off s, r_seq = ds_seq s, r_flags = ds_flags s, r_vlen = ds_vlen s\<rparr>"

definition home :: "nat \<Rightarrow> bytes \<Rightarrow> nat" where
  "home N k = unat (dl_hash k) mod N"

definition uniq :: "delta_slot list \<Rightarrow> bool" where
  "uniq ss \<longleftrightarrow> (\<forall>i < length ss. \<forall>j < length ss. \<forall>k. ds_key (ss ! i) = Some k \<and> ds_key (ss ! j) = Some k \<longrightarrow> i = j)"

definition path :: "delta_slot list \<Rightarrow> nat \<Rightarrow> nat \<Rightarrow> bool" where
  "path ss h p \<longleftrightarrow> (\<forall>y < length ss. ring_dist (length ss) h y < ring_dist (length ss) h p \<longrightarrow> occ ss y)"

definition tab_ok :: "delta_slot list \<Rightarrow> bool" where
  "tab_ok ss \<longleftrightarrow> uniq ss \<and> list_all slot_wf ss
     \<and> (\<forall>i < length ss. \<forall>k. ds_key (ss ! i) = Some k \<longrightarrow> path ss (home (length ss) k) i)"

definition tab_refs :: "delta_slot list \<Rightarrow> bytes \<Rightarrow> delta_ref option" where
  "tab_refs ss key = map_option ref_of (find (\<lambda>s. ds_key s = Some key) ss)"

definition tab_count :: "delta_slot list \<Rightarrow> nat" where
  "tab_count ss = length (filter (\<lambda>s. ds_key s \<noteq> None) ss)"

lemma uniqD:
  "uniq ss \<Longrightarrow> i < length ss \<Longrightarrow> j < length ss \<Longrightarrow> ds_key (ss ! i) = Some k \<Longrightarrow> ds_key (ss ! j) = Some k \<Longrightarrow> i = j"
  unfolding uniq_def by blast

lemma tab_refs_SomeI:
  assumes "uniq ss" "i < length ss" "ds_key (ss ! i) = Some key"
  shows "tab_refs ss key = Some (ref_of (ss ! i))"
proof -
  have "\<not> ds_key (ss ! j) = Some key" if "j < i" for j
    using uniqD [OF assms(1) _ assms(2) _ assms(3), of j] assms(2) that by auto
  then have "find (\<lambda>s. ds_key s = Some key) ss = Some (ss ! i)"
    unfolding find_Some_iff using assms(2,3) by (intro exI [of _ i]) simp
  then show ?thesis by (simp add: tab_refs_def)
qed

lemma tab_refs_None: "tab_refs ss key = None \<longleftrightarrow> (\<forall>i < length ss. ds_key (ss ! i) \<noteq> Some key)"
  unfolding tab_refs_def option.map_disc_iff find_None_iff in_set_conv_nth by blast

lemma tab_count_update:
  "p < length ss \<Longrightarrow> tab_count (ss[p := s]) + (if occ ss p then 1 else 0) = tab_count ss + (if ds_key s \<noteq> None then 1 else 0)"
proof (induction ss arbitrary: p)
  case (Cons a ss)
  then show ?case by (cases p) (auto simp: tab_count_def)
qed simp

lemma tab_count_free: "tab_count ss < length ss \<Longrightarrow> \<exists>x < length ss. \<not> occ ss x"
  by (rule ccontr) (auto simp: tab_count_def filter_id_conv all_set_conv_all_nth)

text \<open>Filling a free slot with a new key, overwriting the reference of a slot, and clearing one.\<close>

lemma uniq_insert:
  assumes "uniq ss" "p < length ss" "ds_key (ss ! p) = None" "ds_key s = Some k" "tab_refs ss k = None"
  shows "uniq (ss[p := s])" "tab_refs (ss[p := s]) = (tab_refs ss)(k \<mapsto> ref_of s)"
proof -
  show u: "uniq (ss[p := s])"
    using assms unfolding uniq_def tab_refs_None by (auto simp: nth_list_update)
  show "tab_refs (ss[p := s]) = (tab_refs ss)(k \<mapsto> ref_of s)"
  proof
    fix k'
    show "tab_refs (ss[p := s]) k' = ((tab_refs ss)(k \<mapsto> ref_of s)) k'"
    proof (cases "\<exists>i < length ss. ds_key (ss[p := s] ! i) = Some k'")
      case True
      then obtain i where i: "i < length ss" "ds_key (ss[p := s] ! i) = Some k'" by blast
      then show ?thesis
        using tab_refs_SomeI [OF u, of i k'] tab_refs_SomeI [OF assms(1), of i k'] assms
        by (cases "i = p") (auto simp: tab_refs_None)
    next
      case False
      moreover from False assms(2,4) have "k' \<noteq> k" by (metis nth_list_update_eq)
      moreover have "tab_refs ss k' = None"
        unfolding tab_refs_None using False assms(3) by (metis nth_list_update_neq option.distinct(1))
      ultimately show ?thesis using tab_refs_None [of "ss[p := s]" k'] by simp
    qed
  qed
qed

lemma uniq_clear:
  assumes "uniq ss" "p < length ss" "ds_key (ss ! p) = Some k" "ds_key s = None"
  shows "uniq (ss[p := s])" "tab_refs (ss[p := s]) = (tab_refs ss)(k := None)"
proof -
  show u: "uniq (ss[p := s])"
    using assms unfolding uniq_def by (auto simp: nth_list_update)
  show "tab_refs (ss[p := s]) = (tab_refs ss)(k := None)"
  proof
    fix k'
    show "tab_refs (ss[p := s]) k' = ((tab_refs ss)(k := None)) k'"
    proof (cases "\<exists>i < length ss. ds_key (ss[p := s] ! i) = Some k'")
      case True
      then obtain i where i: "i < length ss" "ds_key (ss[p := s] ! i) = Some k'" by blast
      then have "i \<noteq> p" using assms by auto
      moreover from this i have "k' \<noteq> k" using uniqD [OF assms(1) i(1) assms(2) _ assms(3)] by auto
      ultimately show ?thesis
        using tab_refs_SomeI [OF u, of i k'] tab_refs_SomeI [OF assms(1), of i k'] i by simp
    next
      case False
      then have "k' \<noteq> k \<Longrightarrow> tab_refs ss k' = None"
        unfolding tab_refs_None using assms(3) by (metis nth_list_update_neq option.inject)
      then show ?thesis using False tab_refs_None [of "ss[p := s]" k'] by simp
    qed
  qed
qed

lemma path_grow:
  "path ss h i \<Longrightarrow> (\<And>y. y < length ss \<Longrightarrow> occ ss y \<Longrightarrow> occ ss' y) \<Longrightarrow> length ss' = length ss \<Longrightarrow> path ss' h i"
  by (auto simp: path_def)

lemma list_all_update: "list_all P xs \<Longrightarrow> P x \<Longrightarrow> list_all P (xs[i := x])"
  by (auto simp: list.pred_set dest!: set_update_subset_insert [THEN subsetD])

lemma tab_ok_insert:
  assumes ok: "tab_ok ss" and p: "p < length ss" "ds_key (ss ! p) = None" and s: "ds_key s = Some k" "slot_wf s"
    and "tab_refs ss k = None" "path ss (home (length ss) k) p"
  shows "tab_ok (ss[p := s])"
proof -
  have g: "path (ss[p := s]) h i" if "path ss h i" for h i
    using that by (rule path_grow) (use p s in \<open>auto simp: nth_list_update\<close>)
  show ?thesis
    using ok assms(6,7) s p uniq_insert(1) [of ss p s k] g
    by (auto simp: tab_ok_def list_all_update nth_list_update)
qed

lemma tab_ok_overwrite:
  assumes ok: "tab_ok ss" and p: "p < length ss" "ds_key (ss ! p) = Some k" and s: "ds_key s = Some k" "slot_wf s"
  shows "tab_ok (ss[p := s])" "tab_refs (ss[p := s]) = (tab_refs ss)(k \<mapsto> ref_of s)"
    "tab_count (ss[p := s]) = tab_count ss"
proof -
  have key: "ds_key (ss[p := s] ! i) = ds_key (ss ! i)" if "i < length ss" for i
    using that p s by (auto simp: nth_list_update)
  have u: "uniq (ss[p := s])" using ok key by (auto simp: tab_ok_def uniq_def)
  have g: "path (ss[p := s]) h i" if "path ss h i" for h i
    using that by (rule path_grow) (auto simp: key)
  show "tab_ok (ss[p := s])"
    using ok s u g by (auto simp: tab_ok_def list_all_update key)
  show "tab_count (ss[p := s]) = tab_count ss"
    using tab_count_update [OF p(1), of s] p s by simp
  have us: "uniq ss" using ok by (simp add: tab_ok_def)
  show "tab_refs (ss[p := s]) = (tab_refs ss)(k \<mapsto> ref_of s)"
  proof
    fix k'
    show "tab_refs (ss[p := s]) k' = ((tab_refs ss)(k \<mapsto> ref_of s)) k'"
    proof (cases "\<exists>i < length ss. ds_key (ss ! i) = Some k'")
      case True
      then obtain i where i: "i < length ss" "ds_key (ss ! i) = Some k'" by blast
      then have "k' = k \<longleftrightarrow> i = p" using uniqD [OF us i(1) p(1) _ p(2)] p(2) by auto
      then show ?thesis
        using tab_refs_SomeI [OF u, of i k'] tab_refs_SomeI [OF us i] i key by (auto simp: nth_list_update)
    next
      case False
      then show ?thesis using key p tab_refs_None [of ss k'] tab_refs_None [of "ss[p := s]" k'] by auto
    qed
  qed
qed

lemma slot_match_iff:
  assumes "slot_wf s" "ds_key s = Some k" "length key < 2 ^ 16"
  shows "slot_match s key \<longleftrightarrow> k = key"
proof -
  have k: "ds_klen s = of_nat (length k)" "length k < 2 ^ 16" using assms by (auto simp: slot_wf_def)
  then have "(of_nat (length k) :: u16) = of_nat (length key) \<longleftrightarrow> length k = length key"
    using unat_of_nat_u16 [of "length k"] unat_of_nat_u16 [of "length key"] assms(3) by metis
  then show ?thesis using k assms(2) by (auto simp: slot_match_def)
qed

lemma slot_hash_key: "slot_wf s \<Longrightarrow> ds_key s = Some k \<Longrightarrow> slot_hash s = unat (dl_hash k)"
  by (simp add: slot_wf_def slot_hash_def unat_of_nat_u16 [simplified])

lemma home_less: "0 < N \<Longrightarrow> home N k < N"
  by (simp add: home_def)

lemma place_spec:
  assumes N: "length ss = 2 ^ n" and s: "slot_wf s" "ds_key s = Some k" and x: "x < length ss" "ds_key (ss ! x) = None"
  obtains p where "place ss (length ss - 1) s = Some (ss[p := s])" "p < length ss" "ds_key (ss ! p) = None"
    "path ss (home (length ss) k) p"
proof -
  have h: "slot_hash s AND (length ss - 1) = home (length ss) k"
    using and_mask_mod [OF N] slot_hash_key [OF s] by (simp add: home_def)
  have "home (length ss) k < length ss" using x by (intro home_less) auto
  then obtain p where p: "probe (\<lambda>j. ds_key (ss ! j) = None) (length ss - 1) (home (length ss) k) = Some p"
    "p < length ss" "ds_key (ss ! p) = None"
    "\<And>y. y < length ss \<Longrightarrow> ring_dist (length ss) (home (length ss) k) y < ring_dist (length ss) (home (length ss) k) p
        \<Longrightarrow> ds_key (ss ! y) \<noteq> None"
    using probe_finds [OF N, of x "\<lambda>j. ds_key (ss ! j) = None" "home (length ss) k"] x by metis
  then have "place ss (length ss - 1) s = Some (ss[p := s])" unfolding place_def h by simp
  then show ?thesis using that [of p] p(2-4) by (simp add: path_def)
qed

text \<open>The search of a key stops at its slot, or at a free slot that its path reaches.\<close>

lemma probe_key:
  assumes N: "length ss = 2 ^ n" and ok: "tab_ok ss" and free: "tab_count ss < length ss" and key: "length key < 2 ^ 16"
  shows "\<exists>p. probe (\<lambda>i. ds_key (ss ! i) = None \<or> slot_match (ss ! i) key) (length ss - 1)
       (unat (dl_hash key) AND (length ss - 1)) = Some p \<and> p < length ss
    \<and> (ds_key (ss ! p) = None \<longrightarrow> tab_refs ss key = None \<and> path ss (home (length ss) key) p)
    \<and> (ds_key (ss ! p) \<noteq> None \<longrightarrow> ds_key (ss ! p) = Some key)"
proof -
  let ?N = "length ss" and ?h = "home (length ss) key"
  let ?stop = "\<lambda>i. ds_key (ss ! i) = None \<or> slot_match (ss ! i) key"
  have wf: "slot_wf (ss ! i)" if "i < ?N" for i using ok that by (simp add: tab_ok_def list_all_length)
  have match: "slot_match (ss ! i) key \<longleftrightarrow> ds_key (ss ! i) = Some key" if "i < ?N" "ds_key (ss ! i) \<noteq> None" for i
    using slot_match_iff [OF wf [OF that(1)] _ key] that(2) by auto
  obtain x where x: "x < ?N" "ds_key (ss ! x) = None" using tab_count_free [OF free] by auto
  have h: "unat (dl_hash key) AND (?N - 1) = ?h" using and_mask_mod [OF N] by (simp add: home_def)
  have hN: "?h < ?N" using x by (intro home_less) auto
  obtain p where p: "probe ?stop (?N - 1) ?h = Some p" "p < ?N" "?stop p"
    "\<And>y. y < ?N \<Longrightarrow> ring_dist ?N ?h y < ring_dist ?N ?h p \<Longrightarrow> \<not> ?stop y"
    using probe_finds [OF N, of x ?stop ?h] x hN by blast
  have free: "tab_refs ss key = None \<and> path ss ?h p" if e: "ds_key (ss ! p) = None"
  proof
    show "path ss ?h p" using p(4) by (auto simp: path_def)
    show "tab_refs ss key = None" unfolding tab_refs_None
    proof (intro allI impI notI)
      fix i assume i: "i < ?N" "ds_key (ss ! i) = Some key"
      then have "path ss ?h i" using ok by (simp add: tab_ok_def)
      then have "\<not> ring_dist ?N ?h p < ring_dist ?N ?h i" using p(2) e by (auto simp: path_def)
      moreover have "ring_dist ?N ?h i \<noteq> ring_dist ?N ?h p" using ring_dist_inj [OF hN i(1) p(2)] e i(2) by auto
      ultimately have "\<not> ?stop i" using p(4) [OF i(1)] by simp
      then show False using match [OF i(1)] i(2) by simp
    qed
  qed
  have hit: "ds_key (ss ! p) = Some key" if "ds_key (ss ! p) \<noteq> None"
    using p(3) match [OF p(2)] that by simp
  show ?thesis unfolding h by (intro exI [of _ p] conjI impI p(1,2) free hit)
qed

section \<open>The index\<close>

definition di_ok :: "delta_index \<Rightarrow> bool" where
  "di_ok di \<longleftrightarrow> (\<exists>n. di_cap di = 2 ^ n) \<and> 64 \<le> di_cap di \<and> length (di_slot di) = di_cap di
     \<and> di_used di = tab_count (di_slot di) \<and> di_used di < di_cap di \<and> tab_ok (di_slot di)"

definition di_refs :: "delta_index \<Rightarrow> bytes \<Rightarrow> delta_ref option" where
  "di_refs di = tab_refs (di_slot di)"

lemma tab_empty: "tab_ok (replicate n empty_slot)" "tab_refs (replicate n empty_slot) = Map.empty"
  "tab_count (replicate n empty_slot) = 0"
  by (auto simp: tab_ok_def uniq_def empty_slot_def slot_wf_def list.pred_set tab_count_def
      tab_refs_None [THEN iffD2] fun_eq_iff)

lemma di_new_ok: "di_new a1 a2 g = (Some di, g') \<Longrightarrow> di_ok di \<and> di_refs di = Map.empty"
  using tab_empty [of 64] by (auto simp: di_new_def di_ok_def di_refs_def split: if_splits intro!: exI [of _ 6])

lemma di_find_spec:
  assumes "di_ok di" "length key < 2 ^ 16"
  shows "\<exists>r. di_find di key = Some r
    \<and> (case r of None \<Rightarrow> di_refs di key = None
       | Some i \<Rightarrow> i < di_cap di \<and> ds_key (di_slot di ! i) = Some key \<and> di_refs di key = Some (ref_of (di_slot di ! i)))"
proof -
  obtain n where n: "length (di_slot di) = 2 ^ n" and cap: "length (di_slot di) = di_cap di"
    and t: "tab_ok (di_slot di)" "tab_count (di_slot di) < length (di_slot di)"
    using assms(1) by (auto simp: di_ok_def)
  obtain p where p: "probe (\<lambda>i. ds_key (di_slot di ! i) = None \<or> slot_match (di_slot di ! i) key) (di_cap di - 1)
       (unat (dl_hash key) AND (di_cap di - 1)) = Some p" "p < di_cap di"
    "ds_key (di_slot di ! p) = None \<longrightarrow> tab_refs (di_slot di) key = None"
    "ds_key (di_slot di ! p) \<noteq> None \<longrightarrow> ds_key (di_slot di ! p) = Some key"
    using probe_key [OF n t assms(2)] unfolding cap by (elim exE conjE) (rule that; simp)
  have "di_cap di \<noteq> 0" using t cap by auto
  then have f: "di_find di key = Some (if ds_key (di_slot di ! p) = None then None else Some p)"
    unfolding di_find_def Let_def p(1) by simp
  show ?thesis
  proof (cases "ds_key (di_slot di ! p) = None")
    case True
    then show ?thesis using f p(3) by (simp add: di_refs_def)
  next
    case False
    then have key: "ds_key (di_slot di ! p) = Some key" using p(4) by blast
    have "uniq (di_slot di)" using t(1) by (simp add: tab_ok_def)
    then have "tab_refs (di_slot di) key = Some (ref_of (di_slot di ! p))"
      using tab_refs_SomeI key p(2) cap by simp
    then show ?thesis using f p(2) key by (simp add: di_refs_def)
  qed
qed

lemma tab_place_ok:
  assumes N: "length ss = 2 ^ n" and ok: "tab_ok ss" and free: "tab_count ss < length ss"
    and s: "slot_wf s" "ds_key s = Some k" and new: "tab_refs ss k = None"
  obtains ss' where "place ss (length ss - 1) s = Some ss'" "length ss' = length ss" "tab_ok ss'"
    "tab_refs ss' = (tab_refs ss)(k \<mapsto> ref_of s)" "tab_count ss' = tab_count ss + 1"
proof -
  obtain x where x: "x < length ss" "ds_key (ss ! x) = None" using tab_count_free [OF free] by auto
  obtain p where p: "place ss (length ss - 1) s = Some (ss[p := s])" "p < length ss" "ds_key (ss ! p) = None"
    "path ss (home (length ss) k) p" by (rule place_spec [OF N s x])
  have u: "uniq ss" using ok by (simp add: tab_ok_def)
  show ?thesis
    using that [OF p(1)] tab_ok_insert [OF ok p(2,3) s(2,1) new p(4)] uniq_insert(2) [OF u p(2,3) s(2) new]
      tab_count_update [OF p(2), of s] p(3) s(2) by simp
qed

lemma tab_count_le: "tab_count ss \<le> length ss"
  by (simp add: tab_count_def)

lemma rehash_ok:
  assumes "length ns = 2 ^ n" "tab_ok ns" "tab_count ns + tab_count ss < length ns"
    and "list_all slot_wf ss" "uniq ss" "\<forall>k. tab_refs ss k \<noteq> None \<longrightarrow> tab_refs ns k = None"
  shows "\<exists>ns'. rehash ns (length ns - 1) ss = Some ns' \<and> length ns' = length ns \<and> tab_ok ns'
    \<and> tab_refs ns' = tab_refs ns ++ tab_refs ss \<and> tab_count ns' = tab_count ns + tab_count ss"
  using assms
proof (induction ss arbitrary: ns)
  case Nil
  have "tab_refs [] = Map.empty" by (simp add: tab_refs_def fun_eq_iff)
  then show ?case using Nil by (simp add: tab_count_def)
next
  case (Cons s ss)
  have us: "uniq ss"
    unfolding uniq_def
  proof (intro allI impI)
    fix i j k assume "i < length ss" "j < length ss" "ds_key (ss ! i) = Some k \<and> ds_key (ss ! j) = Some k"
    then show "i = j" using uniqD [OF Cons.prems(5), of "Suc i" "Suc j" k] by simp
  qed
  show ?case
  proof (cases "ds_key s")
    case None
    have r: "tab_refs (s # ss) = tab_refs ss" using None by (simp add: tab_refs_def fun_eq_iff)
    have c: "tab_count (s # ss) = tab_count ss" using None by (simp add: tab_count_def)
    show ?thesis using Cons.IH [of ns] Cons.prems us None by (simp add: r c)
  next
    case (Some k)
    have absent: "tab_refs ss k = None"
      unfolding tab_refs_None
    proof (intro allI impI notI)
      fix i assume "i < length ss" "ds_key (ss ! i) = Some k"
      then show False using uniqD [OF Cons.prems(5), of 0 "Suc i" k] Some by simp
    qed
    have r: "tab_refs (s # ss) = (tab_refs ss)(k \<mapsto> ref_of s)" using Some by (auto simp: tab_refs_def fun_eq_iff)
    have c: "tab_count (s # ss) = Suc (tab_count ss)" using Some by (simp add: tab_count_def)
    have new: "tab_refs ns k = None" using Cons.prems(6) r by simp
    obtain ns1 where n1: "place ns (length ns - 1) s = Some ns1" "length ns1 = length ns" "tab_ok ns1"
      "tab_refs ns1 = (tab_refs ns)(k \<mapsto> ref_of s)" "tab_count ns1 = tab_count ns + 1"
      using tab_place_ok [OF Cons.prems(1,2) _ _ Some new] Cons.prems(3,4) by (auto simp: c)
    have dis: "\<forall>k'. tab_refs ss k' \<noteq> None \<longrightarrow> tab_refs ns1 k' = None"
      using Cons.prems(6) absent unfolding r n1(4) by (metis fun_upd_apply option.distinct(1))
    obtain ns' where n2: "rehash ns1 (length ns1 - 1) ss = Some ns'" "length ns' = length ns1" "tab_ok ns'"
      "tab_refs ns' = tab_refs ns1 ++ tab_refs ss" "tab_count ns' = tab_count ns1 + tab_count ss"
      using Cons.IH [OF _ n1(3) _ _ us dis] Cons.prems(1,3,4) n1(2,5) by (auto simp: c)
    have "tab_refs ns' = tab_refs ns ++ tab_refs (s # ss)"
      unfolding n2(4) n1(4) r using absent by (auto simp: fun_eq_iff map_add_def split: option.split)
    then show ?thesis using n1 n2 Some by (simp add: c)
  qed
qed

lemma di_grow_ok:
  assumes ok: "di_ok di"
  shows "\<exists>rc di'. di_grow a di = Some (rc, di') \<and> di_ok di' \<and> di_refs di' = di_refs di
    \<and> (a \<longrightarrow> rc = 0 \<and> di_cap di' = 2 * di_cap di) \<and> (\<not> a \<longrightarrow> rc = -1 \<and> di' = di) \<and> di_used di' = di_used di"
proof (cases a)
  case False
  then show ?thesis using ok by (simp add: di_grow_def)
next
  case True
  obtain n where n: "di_cap di = 2 ^ n" using ok by (auto simp: di_ok_def)
  let ?ns = "replicate (di_cap di * 2) empty_slot"
  have t: "uniq (di_slot di)" "list_all slot_wf (di_slot di)" "tab_count (di_slot di) < di_cap di * 2"
    using ok by (auto simp: di_ok_def tab_ok_def)
  have "\<exists>ns'. rehash ?ns (length ?ns - 1) (di_slot di) = Some ns' \<and> length ns' = length ?ns \<and> tab_ok ns'
      \<and> tab_refs ns' = tab_refs ?ns ++ tab_refs (di_slot di) \<and> tab_count ns' = tab_count ?ns + tab_count (di_slot di)"
    by (rule rehash_ok [of _ "Suc n"]) (use t n in \<open>simp_all add: tab_empty\<close>)
  then obtain ns' where ns: "rehash ?ns (di_cap di * 2 - 1) (di_slot di) = Some ns'" "length ns' = di_cap di * 2"
    "tab_ok ns'" "tab_refs ns' = tab_refs (di_slot di)" "tab_count ns' = tab_count (di_slot di)"
    by (auto simp: tab_empty)
  have cap: "\<exists>m. di_cap di * 2 = 2 ^ m" using n by (intro exI [of _ "Suc n"]) simp
  have g: "di_grow a di = Some (0, di\<lparr>di_slot := ns', di_cap := di_cap di * 2, di_epoch := sz (di_epoch di + 1)\<rparr>)"
    unfolding di_grow_def Let_def ns(1) using True by simp
  show ?thesis unfolding g using ok ns cap True by (auto simp: di_ok_def di_refs_def)
qed

lemma slot_set_simps [simp]:
  "ds_key (slot_set r s) = ds_key s" "ds_klen (slot_set r s) = ds_klen s" "ref_of (slot_set r s) = r"
  "slot_wf (slot_set r s) = slot_wf s"
  by (simp_all add: slot_set_def ref_of_def slot_wf_def)

lemma di_ok_shape:
  assumes "di_ok di"
  obtains n where "length (di_slot di) = 2 ^ n" "length (di_slot di) = di_cap di" "tab_ok (di_slot di)"
    "tab_count (di_slot di) < length (di_slot di)" "di_used di = tab_count (di_slot di)" "64 \<le> di_cap di"
  using assms by (auto simp: di_ok_def)

lemma di_store_ok:
  assumes ok: "di_ok di" and room: "di_used di + 1 < di_cap di" and key: "length key < 2 ^ 16"
  shows "\<exists>i. probe (\<lambda>i. ds_key (di_slot di ! i) = None \<or> slot_match (di_slot di ! i) key) (di_cap di - 1)
              (unat (dl_hash key) AND (di_cap di - 1)) = Some i
    \<and> (case di_store a di key r i of (rc, di', ins) \<Rightarrow> di_ok di' \<and>
        (rc = 0 \<and> di_refs di' = (di_refs di)(key \<mapsto> r) \<and> ins = (di_refs di key = None)
         \<or> rc = -1 \<and> \<not> a \<and> di_refs di' = di_refs di \<and> \<not> ins))"
proof -
  obtain n where n: "length (di_slot di) = 2 ^ n" and cap: "length (di_slot di) = di_cap di" and t: "tab_ok (di_slot di)"
    "tab_count (di_slot di) < length (di_slot di)" and used: "di_used di = tab_count (di_slot di)" "64 \<le> di_cap di"
    by (rule di_ok_shape [OF ok])
  obtain p where pp: "probe (\<lambda>i. ds_key (di_slot di ! i) = None \<or> slot_match (di_slot di ! i) key) (di_cap di - 1)
       (unat (dl_hash key) AND (di_cap di - 1)) = Some p \<and> p < length (di_slot di)
    \<and> (ds_key (di_slot di ! p) = None \<longrightarrow>
        tab_refs (di_slot di) key = None \<and> path (di_slot di) (home (length (di_slot di)) key) p)
    \<and> (ds_key (di_slot di ! p) \<noteq> None \<longrightarrow> ds_key (di_slot di ! p) = Some key)"
    using probe_key [OF n t key] unfolding cap by (rule exE)
  note p = pp [THEN conjunct1] pp [THEN conjunct2, THEN conjunct1]
  note miss = pp [THEN conjunct2, THEN conjunct2, THEN conjunct1, rule_format]
  note hit = pp [THEN conjunct2, THEN conjunct2, THEN conjunct2, rule_format]
  have u: "uniq (di_slot di)" and wf: "slot_wf (di_slot di ! p)"
    using t(1) p(2) by (simp_all add: tab_ok_def list_all_length)
  have two: "\<exists>n. di_cap di = 2 ^ n" using n cap by auto
  show ?thesis
  proof (intro exI [of _ p] conjI p(1), cases "ds_key (di_slot di ! p) = None")
    case True
    let ?s = "slot_set r ((di_slot di ! p)\<lparr>ds_key := Some key, ds_klen := of_nat (length key)\<rparr>)"
    have s: "ds_key ?s = Some key" "slot_wf ?s" using key by (simp_all add: slot_wf_def)
    note m = miss [OF True, THEN conjunct1] miss [OF True, THEN conjunct2]
    show "case di_store a di key r p of (rc, di', ins) \<Rightarrow> di_ok di' \<and>
        (rc = 0 \<and> di_refs di' = (di_refs di)(key \<mapsto> r) \<and> ins = (di_refs di key = None)
         \<or> rc = -1 \<and> \<not> a \<and> di_refs di' = di_refs di \<and> \<not> ins)"
      using tab_ok_insert [OF t(1) p(2) True s m] uniq_insert(2) [OF u p(2) True s(1) m(1)]
        tab_count_update [OF p(2), of ?s] True ok room two cap used m(1)
      by (cases a) (simp_all add: di_store_def di_ok_def di_refs_def)
  next
    case False
    note key' = hit [OF False]
    let ?s = "slot_set r (di_slot di ! p)"
    have s: "ds_key ?s = Some key" "slot_wf ?s" using key' wf by simp_all
    have eq: "di_store a di key r p = (0, di\<lparr>di_slot := (di_slot di)[p := ?s]\<rparr>, False)"
      using key' by (simp add: di_store_def Let_def)
    have "tab_refs (di_slot di) key = Some (ref_of (di_slot di ! p))" using tab_refs_SomeI [OF u p(2) key'] .
    then show "case di_store a di key r p of (rc, di', ins) \<Rightarrow> di_ok di' \<and>
        (rc = 0 \<and> di_refs di' = (di_refs di)(key \<mapsto> r) \<and> ins = (di_refs di key = None)
         \<or> rc = -1 \<and> \<not> a \<and> di_refs di' = di_refs di \<and> \<not> ins)"
      using tab_ok_overwrite [OF t(1) p(2) key' s] ok two cap used
      unfolding eq by (simp add: di_ok_def di_refs_def)
  qed
qed

lemma di_put_ok:
  assumes ok: "di_ok di" and key: "length key < 2 ^ 16"
  shows "\<exists>rc di' ins. di_put a1 a2 di key r = Some (rc, di', ins) \<and> di_ok di' \<and>
    (rc = 0 \<and> di_refs di' = (di_refs di)(key \<mapsto> r) \<and> ins = (di_refs di key = None)
     \<or> rc = -1 \<and> \<not> (a1 \<and> a2) \<and> di_refs di' = di_refs di \<and> \<not> ins)"
proof -
  obtain rc1 di1 where g: "(if di_used di * 10 \<ge> di_cap di * 7 then di_grow a1 di else Some (0, di)) = Some (rc1, di1)"
    and ok1: "di_ok di1" and r1: "di_refs di1 = di_refs di" and u1: "di_used di1 = di_used di"
    and grown: "rc1 = 0 \<Longrightarrow> di_used di1 + 1 < di_cap di1" and oom: "rc1 \<noteq> 0 \<Longrightarrow> \<not> a1"
  proof (cases "di_used di * 10 \<ge> di_cap di * 7")
    case True
    have "di_used di < di_cap di" "64 \<le> di_cap di" using ok by (simp_all add: di_ok_def)
    with di_grow_ok [OF ok, of a1] True that show ?thesis by (cases a1) auto
  next
    case False
    then have "di_used di + 1 < di_cap di" using ok by (simp add: di_ok_def)
    then show ?thesis using that [of 0 di] ok False by simp
  qed
  show ?thesis
  proof (cases "rc1 = 0")
    case False
    then have "di_put a1 a2 di key r = Some (-1, di1, False)" unfolding di_put_def g by simp
    then show ?thesis using False ok1 r1 oom by auto
  next
    case True
    obtain i where i: "probe (\<lambda>i. ds_key (di_slot di1 ! i) = None \<or> slot_match (di_slot di1 ! i) key) (di_cap di1 - 1)
              (unat (dl_hash key) AND (di_cap di1 - 1)) = Some i"
      "case di_store a2 di1 key r i of (rc, di', ins) \<Rightarrow> di_ok di' \<and>
        (rc = 0 \<and> di_refs di' = (di_refs di1)(key \<mapsto> r) \<and> ins = (di_refs di1 key = None)
         \<or> rc = -1 \<and> \<not> a2 \<and> di_refs di' = di_refs di1 \<and> \<not> ins)"
      using di_store_ok [OF ok1 grown [OF True] key, where a = a2 and r = r] by (elim exE conjE)
    have "di_put a1 a2 di key r = Some (di_store a2 di1 key r i)"
      unfolding di_put_def g using i(1) True by (simp add: Let_def)
    then show ?thesis using i(2) r1 by (cases "di_store a2 di1 key r i") auto
  qed
qed

section \<open>Deletion\<close>

text \<open>With \<open>e\<close> a free slot, positions are numbered from the slot behind \<open>e\<close> upwards: no path leads
  across \<open>e\<close>, so every path is an interval.\<close>

abbreviation pos :: "delta_slot list \<Rightarrow> nat \<Rightarrow> nat \<Rightarrow> nat" where
  "pos ss e x \<equiv> ring_dist (length ss) (Suc e mod length ss) x"

lemma pos_bounds:
  assumes "e < N"
  shows "ring_dist N (Suc e mod N) e = N - 1"
    and "x < N \<Longrightarrow> x \<noteq> e \<Longrightarrow> ring_dist N (Suc e mod N) x < N - 1"
    and "x < N \<Longrightarrow> x \<noteq> e \<Longrightarrow> ring_dist N (Suc e mod N) (Suc x mod N) = Suc (ring_dist N (Suc e mod N) x)"
  using assms by (auto simp: ring_dist_def mod_Suc split: if_splits)

lemma ring_dist_pos:
  assumes "e < N" "h < N" "x < N"
  shows "ring_dist N h x = (if ring_dist N (Suc e mod N) h \<le> ring_dist N (Suc e mod N) x
           then ring_dist N (Suc e mod N) x - ring_dist N (Suc e mod N) h
           else ring_dist N (Suc e mod N) x + N - ring_dist N (Suc e mod N) h)"
  using assms by (auto simp: ring_dist_def mod_Suc split: if_splits)

lemma path_interval:
  assumes e: "e < length ss" "\<not> occ ss e" and h: "h < length ss" and i: "i < length ss" "i \<noteq> e"
  shows "path ss h i \<longleftrightarrow> pos ss e h \<le> pos ss e i
     \<and> (\<forall>y < length ss. pos ss e h \<le> pos ss e y \<and> pos ss e y < pos ss e i \<longrightarrow> occ ss y)"
proof -
  have "Suc e mod length ss < length ss" using e by (intro mod_less_divisor) auto
  then have hp: "pos ss e h < length ss" and ip: "pos ss e i < length ss" using h i by (simp_all add: ring_dist_less)
  show ?thesis
  proof
  assume p: "path ss h i"
  have "\<not> ring_dist (length ss) h e < ring_dist (length ss) h i" using p e by (auto simp: path_def)
  then have le: "pos ss e h \<le> pos ss e i"
    using ring_dist_pos [OF e(1) h i(1)] ring_dist_pos [OF e(1) h e(1)] pos_bounds(1) [OF e(1)]
      pos_bounds(2) [OF e(1) i] hp
    by (simp split: if_splits)
  moreover have "occ ss y" if "y < length ss" "pos ss e h \<le> pos ss e y" "pos ss e y < pos ss e i" for y
    using p that le ring_dist_pos [OF e(1) h i(1)] ring_dist_pos [OF e(1) h that(1)] by (auto simp: path_def)
  ultimately show "pos ss e h \<le> pos ss e i
     \<and> (\<forall>y < length ss. pos ss e h \<le> pos ss e y \<and> pos ss e y < pos ss e i \<longrightarrow> occ ss y)" by blast
next
  assume r: "pos ss e h \<le> pos ss e i
     \<and> (\<forall>y < length ss. pos ss e h \<le> pos ss e y \<and> pos ss e y < pos ss e i \<longrightarrow> occ ss y)"
  have "pos ss e h \<le> pos ss e y \<and> pos ss e y < pos ss e i"
    if "y < length ss" "ring_dist (length ss) h y < ring_dist (length ss) h i" for y
    using that r ring_dist_pos [OF e(1) h i(1)] ring_dist_pos [OF e(1) h that(1)]
      ip hp by (simp split: if_splits)
  then show "path ss h i" using r unfolding path_def by blast
  qed
qed

text \<open>Between two turns of the shift loop the slots up to \<open>i\<close> have whole paths, and the slots from
  there to the end of the cluster are still filled.\<close>

definition shift_inv :: "delta_slot list \<Rightarrow> nat \<Rightarrow> nat \<Rightarrow> bool" where
  "shift_inv ss e i \<longleftrightarrow> uniq ss \<and> list_all slot_wf ss \<and> e < length ss \<and> \<not> occ ss e \<and> i < length ss \<and> i \<noteq> e
     \<and> (\<forall>x < length ss. pos ss e i < pos ss e x \<and> x \<noteq> e \<longrightarrow> occ ss x)
     \<and> (\<forall>x < length ss. \<forall>k. ds_key (ss ! x) = Some k \<longrightarrow> pos ss e (home (length ss) k) \<le> pos ss e x
          \<and> (pos ss e x \<le> pos ss e i \<longrightarrow>
              (\<forall>y < length ss. pos ss e (home (length ss) k) \<le> pos ss e y \<and> pos ss e y < pos ss e x \<longrightarrow> occ ss y)))"

lemma shift_inv_end:
  assumes inv: "shift_inv ss e i" and last: "Suc i mod length ss = e"
  shows "tab_ok ss"
proof -
  have b: "e < length ss" "\<not> occ ss e" "i < length ss" "i \<noteq> e" using inv by (simp_all add: shift_inv_def)
  have pi: "pos ss e i = length ss - 2"
    using pos_bounds(1) [OF b(1)] pos_bounds(3) [OF b(1) b(3,4)] last by simp
  have "path ss (home (length ss) k) x" if x: "x < length ss" "ds_key (ss ! x) = Some k" for x k
  proof -
    have xe: "x \<noteq> e" using x b(2) by auto
    have "pos ss e x \<le> pos ss e i" using pos_bounds(2) [OF b(1) x(1) xe] pi by simp
    moreover have "home (length ss) k < length ss" using x by (intro home_less) auto
    ultimately show ?thesis
      using path_interval [OF b(1,2) _ x(1) xe, of "home (length ss) k"] inv x unfolding shift_inv_def by blast
  qed
  then show ?thesis using inv by (simp add: tab_ok_def shift_inv_def)
qed

lemma shift_inv_step:
  assumes inv: "shift_inv ss e i" and N: "length ss = 2 ^ n" and i': "i' = Suc i mod length ss" "i' \<noteq> e"
  obtains ss' where "place (ss[i' := (ss ! i')\<lparr>ds_key := None\<rparr>]) (length ss - 1) (ss ! i') = Some ss'"
    "shift_inv ss' e i'" "length ss' = length ss" "tab_refs ss' = tab_refs ss" "tab_count ss' = tab_count ss"
    "occ ss i'" "pos ss e i' = Suc (pos ss e i)"
proof -
  have b: "e < length ss" "\<not> occ ss e" "i < length ss" "i \<noteq> e" and u: "uniq ss" and wf: "list_all slot_wf ss"
    and full: "\<And>x. x < length ss \<Longrightarrow> pos ss e i < pos ss e x \<Longrightarrow> x \<noteq> e \<Longrightarrow> occ ss x"
    and low: "\<And>x k. x < length ss \<Longrightarrow> ds_key (ss ! x) = Some k \<Longrightarrow> pos ss e (home (length ss) k) \<le> pos ss e x"
    and whole: "\<And>x k y. x < length ss \<Longrightarrow> ds_key (ss ! x) = Some k \<Longrightarrow> pos ss e x \<le> pos ss e i \<Longrightarrow> y < length ss
        \<Longrightarrow> pos ss e (home (length ss) k) \<le> pos ss e y \<Longrightarrow> pos ss e y < pos ss e x \<Longrightarrow> occ ss y"
    using inv unfolding shift_inv_def by blast+
  have li: "i' < length ss" using i' b by (auto intro: mod_less_divisor)
  have pi: "pos ss e i' = Suc (pos ss e i)" using pos_bounds(3) [OF b(1) b(3,4)] i' by simp
  have e0: "Suc e mod length ss < length ss" using b by (intro mod_less_divisor) auto
  have inj: "x = y" if "x < length ss" "y < length ss" "pos ss e x = pos ss e y" for x y
    using ring_dist_inj [OF e0] that by blast
  have oi: "occ ss i'" using full [OF li] pi i'(2) by simp
  then obtain k where k: "ds_key (ss ! i') = Some k" by auto
  define s where "s = ss ! i'"
  define ss1 where "ss1 = ss[i' := s\<lparr>ds_key := None\<rparr>]"
  have s: "slot_wf s" "ds_key s = Some k" using wf li k by (simp_all add: s_def list_all_length)
  have l1: "length ss1 = length ss" by (simp add: ss1_def)
  have k1: "ds_key (ss1 ! x) = (if x = i' then None else ds_key (ss ! x))" if "x < length ss" for x
    using that li by (simp add: ss1_def nth_list_update)
  let ?h = "home (length ss) k"
  have h: "?h < length ss" using li by (intro home_less) auto
  have hle: "pos ss e ?h \<le> pos ss e i'" using low [OF li k] .
  obtain p where p: "place ss1 (length ss1 - 1) s = Some (ss1[p := s])" "p < length ss" "ds_key (ss1 ! p) = None"
    "path ss1 ?h p"
    using place_spec [of ss1 n s k i'] N l1 s k1 [OF li] li by auto
  have "\<not> ring_dist (length ss) ?h i' < ring_dist (length ss) ?h p"
    using p(4) k1 [OF li] li by (auto simp: path_def l1)
  moreover have "pos ss e i' < pos ss e e" using pos_bounds(1) [OF b(1)] pos_bounds(2) [OF b(1) li i'(2)] by simp
  ultimately have pe: "p \<noteq> e"
    using ring_dist_pos [OF b(1) h li] ring_dist_pos [OF b(1) h b(1)] hle by (auto split: if_splits)
  have pint: "pos ss e ?h \<le> pos ss e p"
    "\<And>y. y < length ss \<Longrightarrow> pos ss e ?h \<le> pos ss e y \<Longrightarrow> pos ss e y < pos ss e p \<Longrightarrow> occ ss1 y"
    using path_interval [of e ss1 ?h p] p(2,4) pe b(1,2) h k1 [OF b(1)] i'(2) unfolding l1 by auto
  have ple: "pos ss e p \<le> pos ss e i'"
    using pint(2) [OF li hle] k1 [OF li] by (meson not_le)
  define ss2 where "ss2 = ss1[p := s]"
  have l2: "length ss2 = length ss" by (simp add: ss2_def l1)
  have k2: "ds_key (ss2 ! x) = (if x = p then Some k else ds_key (ss1 ! x))" if "x < length ss" for x
    using that p(2) l1 s by (simp add: ss2_def nth_list_update)
  have up: "occ ss2 x" if "x < length ss" "occ ss x" "pos ss e x \<noteq> pos ss e i'" for x
    using that k1 k2 by (cases "x = i'") simp_all
  have cl: "uniq ss1" "tab_refs ss1 = (tab_refs ss)(k := None)"
    unfolding ss1_def by (rule uniq_clear [OF u li k]; simp)+
  have ins: "uniq ss2" "tab_refs ss2 = (tab_refs ss1)(k \<mapsto> ref_of s)"
    unfolding ss2_def by (rule uniq_insert [OF cl(1) _ p(3) s(2)]; simp add: l1 p(2) cl(2))+
  have "tab_refs ss k = Some (ref_of s)" using tab_refs_SomeI [OF u li k] by (simp add: s_def)
  then have r: "tab_refs ss2 = tab_refs ss" unfolding ins(2) cl(2) by (simp add: fun_upd_idem)
  have "tab_count ss1 + 1 = tab_count ss" using tab_count_update [OF li, of "s\<lparr>ds_key := None\<rparr>"] k by (simp add: ss1_def)
  then have c: "tab_count ss2 = tab_count ss"
    using tab_count_update [of p ss1 s] p(2,3) l1 s(2) by (simp add: ss2_def)
  have "shift_inv ss2 e i'"
    unfolding shift_inv_def l2
  proof (intro conjI allI impI)
    show "uniq ss2" by fact
    show "list_all slot_wf ss2" using wf s(1) by (simp add: ss2_def ss1_def list_all_update slot_wf_def)
    show "\<not> occ ss2 e" using k2 [OF b(1)] k1 [OF b(1)] b(2) pe by simp
    show "occ ss2 x" if "x < length ss" "pos ss e i' < pos ss e x \<and> x \<noteq> e" for x
      using up [OF that(1)] full [OF that(1)] that(2) pi by simp
    fix x k' assume x: "x < length ss" "ds_key (ss2 ! x) = Some k'"
    show "pos ss e (home (length ss) k') \<le> pos ss e x"
      using x k2 [OF x(1)] k1 [OF x(1)] pint(1) low [OF x(1)] by (auto split: if_splits)
    fix y assume xi: "pos ss e x \<le> pos ss e i'" and y: "y < length ss"
      "pos ss e (home (length ss) k') \<le> pos ss e y \<and> pos ss e y < pos ss e x"
    show "occ ss2 y"
    proof (cases "x = p")
      case True
      then show ?thesis using x k2 [OF x(1)] pint(2) [OF y(1)] y k2 [OF y(1)] by simp
    next
      case False
      then have xk: "ds_key (ss ! x) = Some k'" "x \<noteq> i'" using x k2 [OF x(1)] k1 [OF x(1)] by (auto split: if_splits)
      then have "pos ss e x \<le> pos ss e i" using xi pi inj [OF x(1) li] by fastforce
      then show ?thesis using whole [OF x(1) xk(1) _ y(1)] up [OF y(1)] y pi by simp
    qed
  qed (use b li i'(2) in simp_all)
  then show ?thesis using that [of ss2] p(1) r c l2 oi pi by (simp add: ss2_def ss1_def s_def)
qed

lemma shift_loop_ok:
  assumes "shift_inv ss e i" "length ss = 2 ^ n"
  shows "\<exists>ss'. shift_loop ss (length ss - 1) i = Some ss' \<and> tab_ok ss' \<and> length ss' = length ss
    \<and> tab_refs ss' = tab_refs ss \<and> tab_count ss' = tab_count ss"
  using assms
proof (induction "length ss - pos ss e i" arbitrary: ss i rule: less_induct)
  case less
  let ?i = "Suc i mod length ss"
  have m: "(i + 1) AND (length ss - 1) = ?i" using and_mask_mod [OF less.prems(2)] by simp
  have b: "e < length ss" "\<not> occ ss e" using less.prems(1) by (simp_all add: shift_inv_def)
  show ?case
  proof (cases "?i = e")
    case True
    have "shift_loop ss (length ss - 1) i = Some ss"
      using b(2) by (subst shift_loop.simps) (simp add: m [simplified] True)
    then show ?thesis using shift_inv_end [OF less.prems(1) True] by simp
  next
    case False
    obtain ss' where st: "place (ss[?i := (ss ! ?i)\<lparr>ds_key := None\<rparr>]) (length ss - 1) (ss ! ?i) = Some ss'"
      "shift_inv ss' e ?i" "length ss' = length ss" "tab_refs ss' = tab_refs ss" "tab_count ss' = tab_count ss"
      "occ ss ?i" "pos ss e ?i = Suc (pos ss e i)"
      by (rule shift_inv_step [OF less.prems refl False])
    have "?i < length ss" "Suc e mod length ss < length ss" using b by (auto intro!: mod_less_divisor)
    then have "pos ss e ?i < length ss" by (intro ring_dist_less)
    then have "length ss' - pos ss' e ?i < length ss - pos ss e i" using st(3,7) by simp
    moreover have "shift_loop ss (length ss - 1) i = shift_loop ss' (length ss - 1) ?i"
      using st(1,6) unfolding shift_loop.simps [of ss _ i] Let_def m by auto
    ultimately show ?thesis using less.hyps [of ss' ?i] st less.prems(2) by simp
  qed
qed

lemma shift_inv_start:
  assumes ok: "tab_ok ss" and free: "tab_count ss < length ss" and idx: "idx < length ss" "occ ss idx"
  obtains e where "shift_inv (ss[idx := (ss ! idx)\<lparr>ds_key := None\<rparr>]) e idx"
proof -
  define e where "e = (ARG_MIN (ring_dist (length ss) idx) x. x < length ss \<and> \<not> occ ss x)"
  obtain x where x: "x < length ss \<and> \<not> occ ss x" using tab_count_free [OF free] by auto
  have e: "e < length ss" "\<not> occ ss e"
    using arg_min_natI [of "\<lambda>x. x < length ss \<and> \<not> occ ss x", OF x] unfolding e_def by simp_all
  have least: "occ ss y" if "y < length ss" "ring_dist (length ss) idx y < ring_dist (length ss) idx e" for y
    using arg_min_nat_le [of "\<lambda>x. x < length ss \<and> \<not> occ ss x" y "ring_dist (length ss) idx"] that unfolding e_def by force
  have ne: "idx \<noteq> e" using idx e by auto
  define ss0 where "ss0 = ss[idx := (ss ! idx)\<lparr>ds_key := None\<rparr>]"
  have l0: "length ss0 = length ss" by (simp add: ss0_def)
  have k0: "ds_key (ss0 ! y) = (if y = idx then None else ds_key (ss ! y))" if "y < length ss" for y
    using that idx by (simp add: ss0_def nth_list_update)
  have pth: "pos ss e (home (length ss) k) \<le> pos ss e y"
    "\<And>z. z < length ss \<Longrightarrow> pos ss e (home (length ss) k) \<le> pos ss e z \<Longrightarrow> pos ss e z < pos ss e y \<Longrightarrow> occ ss z"
    if y: "y < length ss" "ds_key (ss ! y) = Some k" for y k
  proof -
    have "home (length ss) k < length ss" "y \<noteq> e" using y e by (auto intro: home_less)
    then show "pos ss e (home (length ss) k) \<le> pos ss e y"
      "\<And>z. z < length ss \<Longrightarrow> pos ss e (home (length ss) k) \<le> pos ss e z \<Longrightarrow> pos ss e z < pos ss e y \<Longrightarrow> occ ss z"
      using path_interval [OF e _ y(1), of "home (length ss) k"] ok y by (auto simp: tab_ok_def)
  qed
  have "shift_inv ss0 e idx"
    unfolding shift_inv_def l0
  proof (intro conjI allI impI)
    obtain k where k: "ds_key (ss ! idx) = Some k" using idx(2) by auto
    show "uniq ss0" unfolding ss0_def using ok idx(1) k by (intro uniq_clear(1)) (auto simp: tab_ok_def)
    show "list_all slot_wf ss0" using ok by (simp add: ss0_def tab_ok_def list_all_update slot_wf_def)
    show "\<not> occ ss0 e" using e k0 by simp
    show "occ ss0 x" if "x < length ss" "pos ss e idx < pos ss e x \<and> x \<noteq> e" for x
      using least [OF that(1)] k0 [OF that(1)] that(2) ring_dist_pos [OF e(1) idx(1) that(1)]
        ring_dist_pos [OF e(1) idx(1) e(1)] pos_bounds(1) [OF e(1)] pos_bounds(2) [OF e(1) that(1)]
      by (auto split: if_splits)
    fix x k assume x: "x < length ss" "ds_key (ss0 ! x) = Some k"
    then have xk: "ds_key (ss ! x) = Some k" using k0 by (simp split: if_splits)
    then show "pos ss e (home (length ss) k) \<le> pos ss e x" using pth(1) x by blast
    show "occ ss0 y" if "pos ss e x \<le> pos ss e idx" "y < length ss"
      "pos ss e (home (length ss) k) \<le> pos ss e y \<and> pos ss e y < pos ss e x" for y
      using pth(2) [OF x(1) xk that(2)] k0 [OF that(2)] that by auto
  qed (use e idx ne in simp_all)
  then show ?thesis using that by (simp add: ss0_def)
qed

lemma di_delete_ok:
  assumes ok: "di_ok di" and idx: "idx < di_cap di" "ds_key (di_slot di ! idx) = Some key"
  shows "\<exists>di'. di_delete_at di idx = Some di' \<and> di_ok di' \<and> di_refs di' = (di_refs di)(key := None)"
proof -
  obtain n where n: "length (di_slot di) = 2 ^ n" and cap: "length (di_slot di) = di_cap di" and t: "tab_ok (di_slot di)"
    "tab_count (di_slot di) < length (di_slot di)" and used: "di_used di = tab_count (di_slot di)" "64 \<le> di_cap di"
    by (rule di_ok_shape [OF ok])
  let ?s0 = "(di_slot di)[idx := (di_slot di ! idx)\<lparr>ds_key := None\<rparr>]"
  have i: "idx < length (di_slot di)" "occ (di_slot di) idx" using idx cap by simp_all
  obtain e where "shift_inv ?s0 e idx" by (rule shift_inv_start [OF t i])
  from shift_loop_ok [OF this, of n] obtain ss' where ss: "shift_loop ?s0 (di_cap di - 1) idx = Some ss'" "tab_ok ss'"
    "length ss' = di_cap di" "tab_refs ss' = tab_refs ?s0" "tab_count ss' = tab_count ?s0"
    using n cap by auto
  have "uniq (di_slot di)" using t(1) by (simp add: tab_ok_def)
  then have r: "tab_refs ?s0 = (tab_refs (di_slot di))(key := None)" by (rule uniq_clear(2) [OF _ i(1) idx(2)]) simp
  have c: "tab_count ?s0 + 1 = tab_count (di_slot di)"
    using tab_count_update [OF i(1), of "(di_slot di ! idx)\<lparr>ds_key := None\<rparr>"] idx(2) by simp
  have d: "di_delete_at di idx = Some (di\<lparr>di_slot := ss', di_used := di_used di - 1, di_epoch := sz (di_epoch di + 1)\<rparr>)"
    unfolding di_delete_at_def ss(1) using idx by simp
  have "\<exists>n. di_cap di = 2 ^ n" using n cap by auto
  then show ?thesis unfolding d using ss r c used t(2) cap by (auto simp: di_ok_def di_refs_def)
qed

section \<open>The contract of an index\<close>

text \<open>What the log relies on: an invariant, the map from keys to references, a put that returns and
  either updates the map or reports an error and leaves it, and a find that returns the slot whose
  reference the map gives.\<close>

fun put_all :: "('i \<Rightarrow> bytes \<Rightarrow> delta_ref \<Rightarrow> (int \<times> 'i \<times> bool) option) \<Rightarrow> 'i \<Rightarrow> (bytes \<times> delta_ref) list \<Rightarrow> (int \<times> 'i) option" where
  "put_all put d [] = Some (0, d)"
| "put_all put d ((k, r) # rs) =
    (case put d k r of None \<Rightarrow> None | Some (rc, d', ins) \<Rightarrow> if rc \<noteq> 0 then Some (rc, d') else put_all put d' rs)"

locale key_index =
  fixes inv :: "'i \<Rightarrow> bool" and refs :: "'i \<Rightarrow> bytes \<Rightarrow> delta_ref option"
    and put :: "'i \<Rightarrow> bytes \<Rightarrow> delta_ref \<Rightarrow> (int \<times> 'i \<times> bool) option"
    and lookup :: "'i \<Rightarrow> bytes \<Rightarrow> nat option option" and at :: "'i \<Rightarrow> nat \<Rightarrow> delta_ref"
  assumes put_law: "inv d \<Longrightarrow> length k < 2 ^ 16 \<Longrightarrow> \<exists>rc d' ins. put d k r = Some (rc, d', ins) \<and> inv d'
      \<and> (rc = 0 \<and> refs d' = (refs d)(k \<mapsto> r) \<or> rc \<noteq> 0 \<and> refs d' = refs d)"
    and lookup_law: "inv d \<Longrightarrow> length k < 2 ^ 16 \<Longrightarrow> \<exists>i. lookup d k = Some i \<and> map_option (at d) i = refs d k"
begin

lemma put_all_returns:
  "inv d \<Longrightarrow> \<forall>(k, r)\<in>set rs. length k < 2 ^ 16 \<Longrightarrow>
     \<exists>rc d'. put_all put d rs = Some (rc, d') \<and> inv d' \<and> (rc = 0 \<longrightarrow> refs d' = refs d ++ map_of (rev rs))"
proof (induction rs arbitrary: d)
  case (Cons kr rs)
  obtain k r where kr: "kr = (k, r)" by (cases kr)
  obtain rc d1 ins where p: "put d k r = Some (rc, d1, ins)" "inv d1"
    "rc = 0 \<and> refs d1 = (refs d)(k \<mapsto> r) \<or> rc \<noteq> 0 \<and> refs d1 = refs d"
    using put_law [OF Cons.prems(1), of k r] Cons.prems(2) kr by auto
  show ?case
  proof (cases "rc = 0")
    case True
    obtain rc' d' where "put_all put d1 rs = Some (rc', d')" "inv d'" "rc' = 0 \<longrightarrow> refs d' = refs d1 ++ map_of (rev rs)"
      using Cons.IH [OF p(2)] Cons.prems(2) by auto
    then show ?thesis using p True kr by (auto simp: map_add_def fun_eq_iff split: option.split)
  qed (use p kr in auto)
qed simp

lemma latest_wins:
  assumes "inv d" "\<forall>(k, r)\<in>set rs. length k < 2 ^ 16" "put_all put d rs = Some (0, d')" "length k < 2 ^ 16"
  shows "\<exists>i. lookup d' k = Some i \<and> map_option (at d') i = (refs d ++ map_of (rev rs)) k"
  using put_all_returns [OF assms(1,2)] assms(3) lookup_law [OF _ assms(4), of d'] by auto

end

definition slot_ref_at :: "delta_index \<Rightarrow> nat \<Rightarrow> delta_ref" where
  "slot_ref_at di i = ref_of (di_slot di ! i)"

interpretation dix: key_index di_ok di_refs "di_put a1 a2" di_find slot_ref_at for a1 a2
proof
  fix d :: delta_index and k :: bytes and r assume a: "di_ok d" "length k < 2 ^ 16"
  show "\<exists>rc d' ins. di_put a1 a2 d k r = Some (rc, d', ins) \<and> di_ok d'
      \<and> (rc = 0 \<and> di_refs d' = (di_refs d)(k \<mapsto> r) \<or> rc \<noteq> 0 \<and> di_refs d' = di_refs d)"
    using di_put_ok [OF a, of a1 a2 r] by (elim exE conjE disjE) auto
  show "\<exists>i. di_find d k = Some i \<and> map_option (slot_ref_at d) i = di_refs d k"
    using di_find_spec [OF a] by (elim exE conjE) (auto simp: slot_ref_at_def split: option.splits)
qed

section \<open>Properties\<close>

text \<open>C25. The search of a key returns on every well-formed index, with the slot that holds the key
  when the index maps it and with \<open>-1\<close> exactly when it does not.\<close>
theorem di_find_decides:
  assumes "di_ok di" "length key < 2 ^ 16"
  shows "\<exists>r. di_find di key = Some r
    \<and> (case r of None \<Rightarrow> di_refs di key = None
       | Some i \<Rightarrow> i < di_cap di \<and> ds_key (di_slot di ! i) = Some key \<and> di_refs di key = Some (ref_of (di_slot di ! i)))"
  using assms by (rule di_find_spec)

definition demo_ref :: "nat \<Rightarrow> delta_ref" where
  "demo_ref n = \<lparr>r_seg = 9, r_off = n, r_seq = 1, r_flags = 0, r_vlen = 2\<rparr>"

lemma new_index: obtains di where "di_new True True 0 = (Some di, 1)" "di_ok di" "di_refs di = Map.empty"
  using di_new_ok [of True True 0] by (auto simp: di_new_def sz_def)

theorem di_find_decides_witness:
  "\<exists>di. di_new True True 0 = (Some di, 1) \<and> (\<exists>r. di_find di [1, 2] = Some r)"
proof -
  obtain di where "di_new True True 0 = (Some di, 1)" "di_ok di" by (rule new_index)
  then show ?thesis using di_find_decides [of di "[1, 2]"] by auto
qed

text \<open>C23. A put returns on every well-formed index and keeps it well-formed, growing it if need be.
  It refines the update of the map from keys to references and reports whether the key was new; when
  it reports an error, memory was short and the map is what it was.\<close>
theorem di_put_refines_update:
  assumes "di_ok di" "length key < 2 ^ 16"
  shows "\<exists>rc di' ins. di_put a1 a2 di key r = Some (rc, di', ins) \<and> di_ok di' \<and>
    (rc = 0 \<and> di_refs di' = (di_refs di)(key \<mapsto> r) \<and> ins = (di_refs di key = None)
     \<or> rc = -1 \<and> \<not> (a1 \<and> a2) \<and> di_refs di' = di_refs di \<and> \<not> ins)"
  using assms by (rule di_put_ok)

theorem di_put_refines_update_witness:
  "\<exists>di di' ins. di_new True True 0 = (Some di, 1) \<and> di_put True True di [7] (demo_ref 44) = Some (0, di', ins)
     \<and> di_refs di' = [[7] \<mapsto> demo_ref 44] \<and> ins"
proof -
  obtain di where "di_new True True 0 = (Some di, 1)" "di_ok di" "di_refs di = Map.empty" by (rule new_index)
  then show ?thesis using di_put_refines_update [of di "[7]" True True "demo_ref 44"] by auto
qed

text \<open>C24. The backward-shift delete returns, keeps the index well-formed, so that every later search
  still ends and still finds its key, and removes exactly the key of the slot from the map.\<close>
theorem di_delete_at_refines_removal:
  assumes "di_ok di" "idx < di_cap di" "ds_key (di_slot di ! idx) = Some key"
  shows "\<exists>di'. di_delete_at di idx = Some di' \<and> di_ok di' \<and> di_refs di' = (di_refs di)(key := None)"
  using assms by (rule di_delete_ok)

theorem di_delete_at_refines_removal_witness:
  "\<exists>di idx di'. di_refs di [7] = Some (demo_ref 44) \<and> di_delete_at di idx = Some di' \<and> di_refs di' = Map.empty"
proof -
  obtain di0 where d0: "di_ok di0" "di_refs di0 = Map.empty" by (rule new_index)
  obtain di ins where d: "di_ok di" "di_refs di = [[7] \<mapsto> demo_ref 44]"
    using di_put_ok [OF d0(1), of "[7]" True True "demo_ref 44"] d0(2) by auto
  then obtain i where i: "i < di_cap di" "ds_key (di_slot di ! i) = Some [7]"
    using di_find_spec [OF d(1), of "[7]"] by (auto split: option.splits)
  from di_delete_at_refines_removal [OF d(1) i] obtain di' where
    "di_delete_at di i = Some di'" "di_refs di' = (di_refs di)([7] := None)" by auto
  then show ?thesis using d(2) by (intro exI [of _ di] exI [of _ i] exI [of _ di']) auto
qed

lemma put_all_memory:
  "di_ok di \<Longrightarrow> \<forall>(k, r)\<in>set rs. length k < 2 ^ 16 \<Longrightarrow> \<exists>di'. put_all (di_put True True) di rs = Some (0, di')"
proof (induction rs arbitrary: di)
  case (Cons kr rs)
  obtain k r where kr: "kr = (k, r)" by (cases kr)
  obtain di1 ins where "di_put True True di k r = Some (0, di1, ins)" "di_ok di1"
    using di_put_ok [OF Cons.prems(1), of k True True r] Cons.prems(2) kr by auto
  then show ?case using Cons.IH [of di1] Cons.prems(2) kr by auto
qed simp

text \<open>C22. With memory, indexing the records of a log one after the other succeeds and makes the newest
  record of a key win: a search then finds the reference of the last record put for that key, or what
  the index held before.\<close>
theorem di_latest_record_wins:
  assumes "di_ok di" "\<forall>(k, r)\<in>set rs. length k < 2 ^ 16"
  shows "\<exists>di'. put_all (di_put True True) di rs = Some (0, di') \<and>
    (\<forall>k. length k < 2 ^ 16 \<longrightarrow>
       (\<exists>i. di_find di' k = Some i \<and> map_option (slot_ref_at di') i = (di_refs di ++ map_of (rev rs)) k))"
  using put_all_memory [OF assms] dix.latest_wins [OF assms, of True True] by metis

theorem di_latest_record_wins_witness:
  "\<exists>di i. di_find di [7] = Some i \<and> map_option (slot_ref_at di) i = Some (demo_ref 80)"
proof -
  obtain di where d: "di_ok di" "di_refs di = Map.empty" by (rule new_index)
  have "\<forall>(k, r)\<in>set [([7], demo_ref 44), ([8], demo_ref 44), ([7], demo_ref 80)]. length k < 2 ^ 16" by simp
  from di_latest_record_wins [OF d(1) this] obtain di' where
    "\<forall>k. length k < 2 ^ 16 \<longrightarrow> (\<exists>i. di_find di' k = Some i \<and> map_option (slot_ref_at di') i
        = (di_refs di ++ map_of (rev [([7], demo_ref 44), ([8], demo_ref 44), ([7], demo_ref 80)])) k)" by blast
  from spec [OF this, of "[7]"] show ?thesis by auto
qed

end
