(* ===== verification/Layout.thy ===== *)
theory Layout
  imports Crc32c
begin

text \<open>
  The packed structures of \<^verbatim>\<open>src/core/invarifs.h\<close> that the volume layer writes: the superblock, the
  device table DEVT, the root descriptor RT30, the save point SPT0 and the tail anchor ANC0. A
  structure is a record whose integer fields are natural numbers below their width (\<open>_wf\<close>); checksum
  and flag fields are words. \<open>_bytes\<close> is the memory image of the packed structure on a little-endian
  host and \<open>_of\<close> reads one back, as \<open>memcpy\<close> and the pointer casts of the code do.
\<close>

definition fld :: "nat \<Rightarrow> nat \<Rightarrow> bytes \<Rightarrow> nat" where
  "fld off n bs = le_get (bslice off n bs)"

definition fld32 :: "nat \<Rightarrow> bytes \<Rightarrow> u32" where
  "fld32 off bs = of_nat (fld off 4 bs)"

abbreviation put32 :: "nat \<Rightarrow> bytes" where "put32 \<equiv> le_put 4"

abbreviation put64 :: "nat \<Rightarrow> bytes" where "put64 \<equiv> le_put 8"

abbreviation putw :: "u32 \<Rightarrow> bytes" where "putw w \<equiv> le_put 4 (unat w)"

section \<open>The superblock\<close>

definition VOLF_READONLY :: u32 where "VOLF_READONLY = 1"

definition VOLF_RO_SPACE :: u32 where "VOLF_RO_SPACE = 4"

record invfs_superblock =
  sb_magic :: bytes
  sb_uuid :: bytes
  sb_state :: nat
  sb_block_size :: nat
  sb_total_blocks :: nat
  sb_metadata_zone_start :: nat
  sb_metadata_zone_blocks :: nat
  sb_raw_zone_start :: nat
  sb_raw_zone_blocks :: nat
  sb_shadow_zone_start :: nat
  sb_shadow_zone_blocks :: nat
  sb_root_ast_hash :: bytes
  sb_sweep_cursor :: nat
  sb_checksum :: u32
  sb_reserved_blocks :: nat
  sb_hard_min_blocks :: nat
  sb_vol_flags :: u32
  sb_pad2 :: nat
  sb_format_version :: nat
  sb_pad3 :: bytes
  sb_meta_reserved_pct :: nat
  sb_meta_mapper_pba :: nat
  sb_meta_mapper_blocks :: nat
  sb_meta_extent_min :: nat

definition sb_bytes :: "invfs_superblock \<Rightarrow> bytes" where
  "sb_bytes sb =
     sb_magic sb @ sb_uuid sb @ put32 (sb_state sb) @ put32 (sb_block_size sb) @ put64 (sb_total_blocks sb)
     @ put64 (sb_metadata_zone_start sb) @ put64 (sb_metadata_zone_blocks sb) @ put64 (sb_raw_zone_start sb)
     @ put64 (sb_raw_zone_blocks sb) @ put64 (sb_shadow_zone_start sb) @ put64 (sb_shadow_zone_blocks sb)
     @ sb_root_ast_hash sb @ put32 (sb_sweep_cursor sb) @ putw (sb_checksum sb) @ put32 (sb_reserved_blocks sb)
     @ put32 (sb_hard_min_blocks sb) @ putw (sb_vol_flags sb) @ put32 (sb_pad2 sb) @ le_put 1 (sb_format_version sb)
     @ sb_pad3 sb @ put32 (sb_meta_reserved_pct sb) @ put64 (sb_meta_mapper_pba sb) @ put32 (sb_meta_mapper_blocks sb)
     @ put32 (sb_meta_extent_min sb)"

definition sb_of :: "bytes \<Rightarrow> invfs_superblock" where
  "sb_of bs =
     \<lparr>sb_magic = bslice 0 8 bs, sb_uuid = bslice 8 16 bs, sb_state = fld 0x18 4 bs, sb_block_size = fld 0x1C 4 bs,
      sb_total_blocks = fld 0x20 8 bs, sb_metadata_zone_start = fld 0x28 8 bs, sb_metadata_zone_blocks = fld 0x30 8 bs,
      sb_raw_zone_start = fld 0x38 8 bs, sb_raw_zone_blocks = fld 0x40 8 bs, sb_shadow_zone_start = fld 0x48 8 bs,
      sb_shadow_zone_blocks = fld 0x50 8 bs, sb_root_ast_hash = bslice 0x58 32 bs, sb_sweep_cursor = fld 0x78 4 bs,
      sb_checksum = fld32 0x7C bs, sb_reserved_blocks = fld 0x80 4 bs, sb_hard_min_blocks = fld 0x84 4 bs,
      sb_vol_flags = fld32 0x88 bs, sb_pad2 = fld 0x8C 4 bs, sb_format_version = fld 0x90 1 bs, sb_pad3 = bslice 0x91 3 bs,
      sb_meta_reserved_pct = fld 0x94 4 bs, sb_meta_mapper_pba = fld 0x98 8 bs, sb_meta_mapper_blocks = fld 0xA0 4 bs,
      sb_meta_extent_min = fld 0xA4 4 bs\<rparr>"

definition sb_wf :: "invfs_superblock \<Rightarrow> bool" where
  "sb_wf sb \<longleftrightarrow> length (sb_magic sb) = 8 \<and> length (sb_uuid sb) = 16 \<and> length (sb_root_ast_hash sb) = 32
     \<and> length (sb_pad3 sb) = 3 \<and> sb_format_version sb < 2 ^ 8
     \<and> list_all (\<lambda>n. n < 2 ^ 32) [sb_state sb, sb_block_size sb, sb_sweep_cursor sb, sb_reserved_blocks sb,
          sb_hard_min_blocks sb, sb_pad2 sb, sb_meta_reserved_pct sb, sb_meta_mapper_blocks sb, sb_meta_extent_min sb]
     \<and> list_all (\<lambda>n. n < 2 ^ 64) [sb_total_blocks sb, sb_metadata_zone_start sb, sb_metadata_zone_blocks sb,
          sb_raw_zone_start sb, sb_raw_zone_blocks sb, sb_shadow_zone_start sb, sb_shadow_zone_blocks sb, sb_meta_mapper_pba sb]"

section \<open>Descriptors of block 0\<close>

definition INVFS_DEVT_OFF :: nat where "INVFS_DEVT_OFF = 0x2A0"

definition INVFS_RT_OFF :: nat where "INVFS_RT_OFF = 0x9D0"

definition INVFS_SPT0_OFF :: nat where "INVFS_SPT0_OFF = 0xA00"

record invfs_devt =
  dt_magic :: bytes
  dt_version :: nat
  dt_dev_count :: nat
  dt_flags :: u32
  dt_dev_blocks0 :: nat
  dt_dev_blocks1 :: nat
  dt_sync_seq :: nat
  dt_vol_uuid :: bytes
  dt_dev1_hint :: bytes
  dt_crc32c :: u32

record invfs_rt =
  rt_magic :: bytes
  rt_version :: nat
  rt_page_size :: nat
  rt_root_slot0 :: nat
  rt_root_slot1 :: nat
  rt_delta_pba :: nat
  rt_seq :: nat
  rt_crc32c :: u32

record invfs_spt0 =
  sp_magic :: bytes
  sp_version :: nat
  sp_flags :: u32
  sp_base_root :: nat
  sp_delta_end :: nat
  sp_crc32c :: u32

record invfs_anc0 =
  an_magic :: bytes
  an_version :: nat
  an_total_blocks :: nat
  an_block_size :: nat
  an_format_version :: nat
  an_vol_uuid :: bytes
  an_rt :: invfs_rt
  an_spt0 :: invfs_spt0
  an_crc32c :: u32

definition devt_bytes :: "invfs_devt \<Rightarrow> bytes" where
  "devt_bytes d = dt_magic d @ put32 (dt_version d) @ put32 (dt_dev_count d) @ putw (dt_flags d)
     @ put64 (dt_dev_blocks0 d) @ put64 (dt_dev_blocks1 d) @ put64 (dt_sync_seq d) @ dt_vol_uuid d @ dt_dev1_hint d
     @ putw (dt_crc32c d)"

definition devt_of :: "bytes \<Rightarrow> invfs_devt" where
  "devt_of bs = \<lparr>dt_magic = bslice 0 4 bs, dt_version = fld 4 4 bs, dt_dev_count = fld 8 4 bs, dt_flags = fld32 12 bs,
     dt_dev_blocks0 = fld 16 8 bs, dt_dev_blocks1 = fld 24 8 bs, dt_sync_seq = fld 32 8 bs, dt_vol_uuid = bslice 40 16 bs,
     dt_dev1_hint = bslice 56 128 bs, dt_crc32c = fld32 184 bs\<rparr>"

definition devt_wf :: "invfs_devt \<Rightarrow> bool" where
  "devt_wf d \<longleftrightarrow> length (dt_magic d) = 4 \<and> length (dt_vol_uuid d) = 16 \<and> length (dt_dev1_hint d) = 128
     \<and> dt_version d < 2 ^ 32 \<and> dt_dev_count d < 2 ^ 32
     \<and> dt_dev_blocks0 d < 2 ^ 64 \<and> dt_dev_blocks1 d < 2 ^ 64 \<and> dt_sync_seq d < 2 ^ 64"

definition rt_bytes :: "invfs_rt \<Rightarrow> bytes" where
  "rt_bytes r = rt_magic r @ put32 (rt_version r) @ put32 (rt_page_size r) @ put64 (rt_root_slot0 r)
     @ put64 (rt_root_slot1 r) @ put64 (rt_delta_pba r) @ put64 (rt_seq r) @ putw (rt_crc32c r)"

definition rt_of :: "bytes \<Rightarrow> invfs_rt" where
  "rt_of bs = \<lparr>rt_magic = bslice 0 4 bs, rt_version = fld 4 4 bs, rt_page_size = fld 8 4 bs, rt_root_slot0 = fld 12 8 bs,
     rt_root_slot1 = fld 20 8 bs, rt_delta_pba = fld 28 8 bs, rt_seq = fld 36 8 bs, rt_crc32c = fld32 44 bs\<rparr>"

definition rt_wf :: "invfs_rt \<Rightarrow> bool" where
  "rt_wf r \<longleftrightarrow> length (rt_magic r) = 4 \<and> rt_version r < 2 ^ 32 \<and> rt_page_size r < 2 ^ 32 \<and> rt_root_slot0 r < 2 ^ 64
     \<and> rt_root_slot1 r < 2 ^ 64 \<and> rt_delta_pba r < 2 ^ 64 \<and> rt_seq r < 2 ^ 64"

definition spt0_bytes :: "invfs_spt0 \<Rightarrow> bytes" where
  "spt0_bytes p = sp_magic p @ put32 (sp_version p) @ putw (sp_flags p) @ put64 (sp_base_root p) @ put64 (sp_delta_end p)
     @ putw (sp_crc32c p)"

definition spt0_of :: "bytes \<Rightarrow> invfs_spt0" where
  "spt0_of bs = \<lparr>sp_magic = bslice 0 4 bs, sp_version = fld 4 4 bs, sp_flags = fld32 8 bs, sp_base_root = fld 12 8 bs,
     sp_delta_end = fld 20 8 bs, sp_crc32c = fld32 28 bs\<rparr>"

definition spt0_wf :: "invfs_spt0 \<Rightarrow> bool" where
  "spt0_wf p \<longleftrightarrow> length (sp_magic p) = 4 \<and> sp_version p < 2 ^ 32 \<and> sp_base_root p < 2 ^ 64 \<and> sp_delta_end p < 2 ^ 64"

definition anc0_bytes :: "invfs_anc0 \<Rightarrow> bytes" where
  "anc0_bytes a = an_magic a @ put32 (an_version a) @ put64 (an_total_blocks a) @ put32 (an_block_size a)
     @ put32 (an_format_version a) @ an_vol_uuid a @ rt_bytes (an_rt a) @ spt0_bytes (an_spt0 a) @ putw (an_crc32c a)"

definition anc0_of :: "bytes \<Rightarrow> invfs_anc0" where
  "anc0_of bs = \<lparr>an_magic = bslice 0 4 bs, an_version = fld 4 4 bs, an_total_blocks = fld 8 8 bs, an_block_size = fld 16 4 bs,
     an_format_version = fld 20 4 bs, an_vol_uuid = bslice 24 16 bs, an_rt = rt_of (bslice 40 48 bs),
     an_spt0 = spt0_of (bslice 88 32 bs), an_crc32c = fld32 120 bs\<rparr>"

definition anc0_wf :: "invfs_anc0 \<Rightarrow> bool" where
  "anc0_wf a \<longleftrightarrow> length (an_magic a) = 4 \<and> an_version a < 2 ^ 32 \<and> an_total_blocks a < 2 ^ 64 \<and> an_block_size a < 2 ^ 32
     \<and> an_format_version a < 2 ^ 32 \<and> length (an_vol_uuid a) = 16 \<and> rt_wf (an_rt a) \<and> spt0_wf (an_spt0 a)"

section \<open>Round trips\<close>

text \<open>Skipping the fields before an offset, one at a time.\<close>

lemma bslice_skip: "length x \<le> off \<Longrightarrow> bslice off n (x @ rest) = bslice (off - length x) n rest"
  by (simp add: bslice_def)

lemma bslice_here: "length x = n \<Longrightarrow> bslice 0 n (x @ rest) = x"
  by (simp add: bslice_def)

lemma bslice_whole: "length x = n \<Longrightarrow> bslice 0 n x = x"
  by (simp add: bslice_def)

lemmas skip_simps = bslice_skip bslice_here bslice_whole fld_def fld32_def le_get_put

lemma le_get_zeros: "le_get (replicate n 0) = 0"
  by (induction n) simp_all

lemma length_sb_bytes: "sb_wf sb \<Longrightarrow> length (sb_bytes sb) = 168"
  by (simp add: sb_wf_def sb_bytes_def)

lemma length_devt_bytes: "devt_wf d \<Longrightarrow> length (devt_bytes d) = 188"
  by (simp add: devt_wf_def devt_bytes_def)

lemma length_rt_bytes: "rt_wf r \<Longrightarrow> length (rt_bytes r) = 48"
  by (simp add: rt_wf_def rt_bytes_def)

lemma length_spt0_bytes: "spt0_wf p \<Longrightarrow> length (spt0_bytes p) = 32"
  by (simp add: spt0_wf_def spt0_bytes_def)

lemma length_anc0_bytes: "anc0_wf a \<Longrightarrow> length (anc0_bytes a) = 124"
  by (simp add: anc0_wf_def anc0_bytes_def length_rt_bytes length_spt0_bytes)

lemma devt_of_bytes: "devt_wf d \<Longrightarrow> devt_of (devt_bytes d) = d"
  by (simp add: devt_wf_def devt_of_def devt_bytes_def skip_simps)

lemma rt_of_bytes: "rt_wf r \<Longrightarrow> rt_of (rt_bytes r) = r"
  by (simp add: rt_wf_def rt_of_def rt_bytes_def skip_simps)

lemma spt0_of_bytes: "spt0_wf p \<Longrightarrow> spt0_of (spt0_bytes p) = p"
  by (simp add: spt0_wf_def spt0_of_def spt0_bytes_def skip_simps)

lemma anc0_of_bytes: "anc0_wf a \<Longrightarrow> anc0_of (anc0_bytes a) = a"
  by (simp add: anc0_wf_def anc0_of_def anc0_bytes_def skip_simps rt_of_bytes spt0_of_bytes length_rt_bytes length_spt0_bytes)

lemma sb_of_bytes: "sb_wf sb \<Longrightarrow> sb_of (sb_bytes sb) = sb"
  by (simp add: sb_wf_def sb_of_def sb_bytes_def skip_simps del: le_put.simps One_nat_def)

section \<open>Properties\<close>


definition demo_rt :: invfs_rt where
  "demo_rt = \<lparr>rt_magic = ascii ''RT30'', rt_version = 1, rt_page_size = 4096, rt_root_slot0 = 77, rt_root_slot1 = 0,
     rt_delta_pba = 300, rt_seq = 1, rt_crc32c = 0xDEADBEEF\<rparr>"

definition demo_spt0 :: invfs_spt0 where
  "demo_spt0 = \<lparr>sp_magic = ascii ''SPT0'', sp_version = 1, sp_flags = 3, sp_base_root = 77, sp_delta_end = 99, sp_crc32c = 5\<rparr>"

lemma demo_wf: "rt_wf demo_rt" "spt0_wf demo_spt0"
  by (simp_all add: rt_wf_def spt0_wf_def demo_rt_def demo_spt0_def)




end
