(* ===== verification/Vmux.thy ===== *)
theory Vmux
  imports Blkio Layout
begin

text \<open>
  The device multiplexer (\<^verbatim>\<open>src/core/volume.c\<close>, the functions \<open>vmux_*\<close>, with the error latch of
  \<^verbatim>\<open>src/core/vol_crash.c\<close>): one address space over one or two backing stores. Bytes below
  \<open>meta_end_bytes\<close> are mirrored on both devices at the same offset, bytes up to the end of device 0
  live there, and the rest on device 1. The record holds the fields of \<open>invfs_volume\<close> that these
  functions touch; messages to standard error are left out.
\<close>

record vol_storage =
  v_io :: blkio
  v_io2 :: blkio
  io_open0 :: bool
  io_open1 :: bool
  ndev :: nat
  mux_pos :: nat
  dev0_blocks :: nat
  meta_end_bytes :: nat
  degraded :: bool
  dev_skip0 :: bool
  dev_skip1 :: bool
  metaread_logged :: bool
  v_devt :: invfs_devt
  needs_recovery :: bool
  io_latched :: bool
  inode_area_pos :: nat
  inode_area_durable :: nat

section \<open>Operations\<close>

definition mux_dev0_bytes :: "vol_storage \<Rightarrow> nat" where
  "mux_dev0_bytes v = dev0_blocks v * 4096"

definition vmux_seek :: "vol_storage \<Rightarrow> nat \<Rightarrow> int \<times> vol_storage" where
  "vmux_seek v off = (0, v\<lparr>mux_pos := off\<rparr>)"

definition vol_io_error_latch :: "vol_storage \<Rightarrow> vol_storage" where
  "vol_io_error_latch v = v\<lparr>needs_recovery := True, io_latched := True, inode_area_pos := inode_area_durable v\<rparr>"

text \<open>Transfers on one of the two handles.\<close>

definition rd0 :: "vol_storage \<Rightarrow> nat \<Rightarrow> nat \<Rightarrow> bytes option \<times> vol_storage" where
  "rd0 v off len = (let (r, i) = blkio_pread (v_io v) off len in (r, v\<lparr>v_io := i\<rparr>))"

definition rd1 :: "vol_storage \<Rightarrow> nat \<Rightarrow> nat \<Rightarrow> bytes option \<times> vol_storage" where
  "rd1 v off len = (let (r, i) = blkio_pread (v_io2 v) off len in (r, v\<lparr>v_io2 := i\<rparr>))"

definition wr0 :: "vol_storage \<Rightarrow> nat \<Rightarrow> bytes \<Rightarrow> int \<times> vol_storage" where
  "wr0 v off bs = (let (r, i) = blkio_pwrite (v_io v) off bs in (r, v\<lparr>v_io := i\<rparr>))"

definition wr1 :: "vol_storage \<Rightarrow> nat \<Rightarrow> bytes \<Rightarrow> int \<times> vol_storage" where
  "wr1 v off bs = (let (r, i) = blkio_pwrite (v_io2 v) off bs in (r, v\<lparr>v_io2 := i\<rparr>))"

abbreviation up0 :: "vol_storage \<Rightarrow> bool" where "up0 v \<equiv> io_open0 v \<and> \<not> dev_skip0 v"

abbreviation up1 :: "vol_storage \<Rightarrow> bool" where "up1 v \<equiv> io_open1 v \<and> \<not> dev_skip1 v"

definition vmux_pread1 :: "vol_storage \<Rightarrow> nat \<Rightarrow> nat \<Rightarrow> bytes option \<times> vol_storage" where
  "vmux_pread1 v off len =
    (if off < meta_end_bytes v
     then case (if up0 v then rd0 v off len else (None, v)) of
            (Some bs, v) \<Rightarrow> (Some bs, v)
          | (None, v) \<Rightarrow>
              let v = (if up0 v \<and> \<not> metaread_logged v then v\<lparr>metaread_logged := True\<rparr> else v)
              in if up1 v then rd1 v off len else (None, v)
     else if off < mux_dev0_bytes v
     then if \<not> up0 v then (None, v) else rd0 v off len
     else if \<not> up1 v then (None, v) else rd1 v (off - mux_dev0_bytes v) len)"

text \<open>The slice of a transfer up to the next routing boundary.\<close>

definition mux_slice :: "vol_storage \<Rightarrow> nat \<Rightarrow> nat \<Rightarrow> nat" where
  "mux_slice v off len =
    (let n = len;
         n = (if off < meta_end_bytes v \<and> off + n > meta_end_bytes v then meta_end_bytes v - off else n);
         n = (if off < mux_dev0_bytes v \<and> off + n > mux_dev0_bytes v then mux_dev0_bytes v - off else n)
     in n)"

lemma mux_slice_pos: "0 < len \<Longrightarrow> 0 < mux_slice v off len"
  by (auto simp: mux_slice_def Let_def)

lemma mux_slice_le: "mux_slice v off len \<le> len"
  by (auto simp: mux_slice_def Let_def)

function mux_read_loop :: "vol_storage \<Rightarrow> nat \<Rightarrow> nat \<Rightarrow> bytes option \<times> vol_storage" where
  "mux_read_loop v off len =
    (if len = 0 then (Some [], v)
     else let n = mux_slice v off len
     in case vmux_pread1 v off n of
          (None, v) \<Rightarrow> (None, v)
        | (Some bs, v) \<Rightarrow>
            case mux_read_loop v (off + n) (len - n) of
              (None, v) \<Rightarrow> (None, v)
            | (Some rest, v) \<Rightarrow> (Some (bs @ rest), v))"
  by auto
termination by (relation "measure (\<lambda>(v, off, len). len)") (use mux_slice_pos in auto)

declare mux_read_loop.simps [simp del]

definition vmux_pread :: "vol_storage \<Rightarrow> nat \<Rightarrow> nat \<Rightarrow> bytes option \<times> vol_storage" where
  "vmux_pread v off len = (if ndev v < 2 \<and> \<not> degraded v then rd0 v off len else mux_read_loop v off len)"

definition vmux_read :: "vol_storage \<Rightarrow> nat \<Rightarrow> bytes option \<times> vol_storage" where
  "vmux_read v len =
    (let off = mux_pos v
     in case vmux_pread v off len of
          (None, v) \<Rightarrow> (None, v)
        | (Some bs, v) \<Rightarrow> (Some bs, v\<lparr>mux_pos := sz (off + len)\<rparr>))"

text \<open>A metadata write goes to both devices; a failure of device 0 drops it for the session, a failure
  of device 1 latches the volume.\<close>

definition mirror_write :: "vol_storage \<Rightarrow> nat \<Rightarrow> bytes \<Rightarrow> int \<times> vol_storage" where
  "mirror_write v off bs =
    (if degraded v then (-1, v)
     else let (wrote, v) =
            (if up0 v
             then let (r, v) = wr0 v off bs in if r \<noteq> 0 then (False, v\<lparr>dev_skip0 := True\<rparr>) else (True, v)
             else (False, v))
     in if up1 v
        then let (r, v) = wr1 v off bs in if r \<noteq> 0 then (-1, vol_io_error_latch v) else (0, v)
        else (if wrote then 0 else -1, v))"

definition vmux_pwrite1 :: "vol_storage \<Rightarrow> nat \<Rightarrow> bytes \<Rightarrow> int \<times> vol_storage" where
  "vmux_pwrite1 v off bs =
    (if off < meta_end_bytes v then mirror_write v off bs
     else if off < mux_dev0_bytes v
     then if \<not> up0 v
          then (-1, if degraded v \<and> \<not> metaread_logged v then v\<lparr>metaread_logged := True\<rparr> else v)
          else wr0 v off bs
     else if \<not> up1 v then (-1, v) else wr1 v (off - mux_dev0_bytes v) bs)"

function mux_write_loop :: "vol_storage \<Rightarrow> nat \<Rightarrow> bytes \<Rightarrow> int \<times> vol_storage" where
  "mux_write_loop v off bs =
    (if bs = [] then (0, v)
     else let n = mux_slice v off (length bs);
              (r, v) = vmux_pwrite1 v off (take n bs)
     in if r \<noteq> 0 then (-1, v) else mux_write_loop v (off + n) (drop n bs))"
  by auto
termination by (relation "measure (\<lambda>(v, off, bs). length bs)") (use mux_slice_pos in auto)

declare mux_write_loop.simps [simp del]

definition vmux_pwrite :: "vol_storage \<Rightarrow> nat \<Rightarrow> bytes \<Rightarrow> int \<times> vol_storage" where
  "vmux_pwrite v off bs = (if ndev v < 2 \<and> \<not> degraded v then wr0 v off bs else mux_write_loop v off bs)"

definition vmux_write :: "vol_storage \<Rightarrow> bytes \<Rightarrow> int \<times> vol_storage" where
  "vmux_write v bs =
    (let off = mux_pos v; (rc, v) = vmux_pwrite v off bs
     in (rc, if rc = 0 then v\<lparr>mux_pos := sz (off + length bs)\<rparr> else v))"

definition devt_crc :: "invfs_devt \<Rightarrow> u32" where
  "devt_crc d = invfs_crc32c (devt_bytes (d\<lparr>dt_crc32c := 0\<rparr>))"

definition vol_write_devt :: "vol_storage \<Rightarrow> int \<times> vol_storage" where
  "vol_write_devt v =
    (if ndev v \<noteq> 2 then (0, v)
     else let t = (v_devt v)\<lparr>dt_magic := ascii ''DEVT'', dt_crc32c := 0\<rparr>;
              t = t\<lparr>dt_crc32c := devt_crc t\<rparr>;
              (r, v) = vmux_seek v INVFS_DEVT_OFF
     in if r \<noteq> 0 then (-1, v)
        else let (r, v) = vmux_write v (devt_bytes t)
        in if r \<noteq> 0 then (-1, v) else (0, v\<lparr>v_devt := t\<rparr>))"

definition flush0 :: "vol_storage \<Rightarrow> int \<times> vol_storage" where
  "flush0 v = (let (r, i) = blkio_flush (v_io v) in (r, v\<lparr>v_io := i\<rparr>))"

definition flush1 :: "vol_storage \<Rightarrow> int \<times> vol_storage" where
  "flush1 v = (let (r, i) = blkio_flush (v_io2 v) in (r, v\<lparr>v_io2 := i\<rparr>))"

text \<open>A barrier that device 0 fails certifies the loss by a new sequence number on device 1.\<close>

definition barrier_skip0 :: "vol_storage \<Rightarrow> int \<times> vol_storage" where
  "barrier_skip0 v =
    (let v = v\<lparr>dev_skip0 := True, v_devt := (v_devt v)\<lparr>dt_sync_seq := sz (dt_sync_seq (v_devt v) + 1)\<rparr>\<rparr>
     in vol_write_devt v)"

definition vmux_barrier :: "vol_storage \<Rightarrow> int \<times> vol_storage" where
  "vmux_barrier v =
    (if ndev v < 2 \<and> \<not> degraded v
     then let (r, v) = flush0 v in (if r = 0 then 0 else -1, v)
     else let (r, v) = (if up0 v
            then let (r, v) = flush0 v in if r \<noteq> 0 then barrier_skip0 v else (0, v)
            else (0, v))
     in if r \<noteq> 0 then (-1, v)
        else let (r, v) = (if io_open1 v then flush1 v else (0, v))
        in if r \<noteq> 0 then (-1, v) else (if dev_skip0 v then 1 else 0, v))"

section \<open>The logical address space\<close>

text \<open>\<open>vol_data\<close> is the content of the volume: which device an offset is served from, and zero at the
  offsets that alias the mirror on device 1, which the layout never hands out. \<open>vol_ok\<close> states that the
  two copies of the metadata agree while both devices are in use.\<close>

abbreviation single :: "vol_storage \<Rightarrow> bool" where "single v \<equiv> ndev v < 2 \<and> \<not> degraded v"

definition vol_in :: "vol_storage \<Rightarrow> nat \<Rightarrow> bool" where
  "vol_in v i \<longleftrightarrow> single v \<or> i < mux_dev0_bytes v \<or> mux_dev0_bytes v + meta_end_bytes v \<le> i"

definition vol_data :: "vol_storage \<Rightarrow> store" where
  "vol_data v i =
    (if single v then io_data (v_io v) i
     else if i < meta_end_bytes v then (if up0 v \<or> \<not> up1 v then io_data (v_io v) i else io_data (v_io2 v) i)
     else if i < mux_dev0_bytes v then io_data (v_io v) i
     else if mux_dev0_bytes v + meta_end_bytes v \<le> i then io_data (v_io2 v) (i - mux_dev0_bytes v)
     else 0)"

definition vol_ok :: "vol_storage \<Rightarrow> bool" where
  "vol_ok v \<longleftrightarrow> single v \<or> meta_end_bytes v \<le> mux_dev0_bytes v
     \<and> (up0 v \<and> up1 v \<longrightarrow> (\<forall>i < meta_end_bytes v. io_data (v_io v) i = io_data (v_io2 v) i))"

definition same_route :: "vol_storage \<Rightarrow> vol_storage \<Rightarrow> bool" where
  "same_route v v' \<longleftrightarrow> io_open0 v' = io_open0 v \<and> io_open1 v' = io_open1 v \<and> ndev v' = ndev v
     \<and> dev0_blocks v' = dev0_blocks v \<and> meta_end_bytes v' = meta_end_bytes v \<and> degraded v' = degraded v
     \<and> dev_skip1 v' = dev_skip1 v \<and> (dev_skip0 v \<longrightarrow> dev_skip0 v')"

definition vol_quiet :: "vol_storage \<Rightarrow> vol_storage \<Rightarrow> bool" where
  "vol_quiet v v' \<longleftrightarrow> same_route v v' \<and> dev_skip0 v' = dev_skip0 v
     \<and> io_data (v_io v') = io_data (v_io v) \<and> io_data (v_io2 v') = io_data (v_io2 v)"

named_theorems vmux_defs

lemmas [vmux_defs] = vol_in_def vol_data_def vol_ok_def same_route_def vol_quiet_def mux_dev0_bytes_def

lemma same_route_in: "same_route v v' \<Longrightarrow> vol_in v' i = vol_in v i"
  by (simp add: vmux_defs)

lemma same_route_trans: "same_route u v \<Longrightarrow> same_route v w \<Longrightarrow> same_route u w"
  by (simp add: vmux_defs)

lemma vol_quiet_trans: "vol_quiet u v \<Longrightarrow> vol_quiet v w \<Longrightarrow> vol_quiet u w"
  by (simp add: vmux_defs)

lemma vol_quiet_refl [simp]: "vol_quiet v v"
  by (simp add: vmux_defs)

lemma vol_quiet_view: "vol_quiet v v' \<Longrightarrow> vol_data v' = vol_data v \<and> vol_ok v' = vol_ok v"
  by (auto simp: vmux_defs fun_eq_iff)

lemma rd0_spec: "rd0 v off n = (r, v') \<Longrightarrow> vol_quiet v v' \<and> (\<forall>bs. r = Some bs \<longrightarrow> bs = store_read (io_data (v_io v)) off n)"
  using dev.rd_frame [of "v_io v" off n] dev.rd_bytes [of "v_io v" off n]
  by (auto simp: rd0_def vmux_defs split: prod.splits)

lemma rd1_spec: "rd1 v off n = (r, v') \<Longrightarrow> vol_quiet v v' \<and> (\<forall>bs. r = Some bs \<longrightarrow> bs = store_read (io_data (v_io2 v)) off n)"
  using dev.rd_frame [of "v_io2 v" off n] dev.rd_bytes [of "v_io2 v" off n]
  by (auto simp: rd1_def vmux_defs split: prod.splits)

lemma wr0_spec:
  assumes "wr0 v off bs = (rc, v')"
  shows "\<exists>d. v' = v\<lparr>v_io := d\<rparr> \<and> (rc = 0 \<longrightarrow> io_data d = store_write (io_data (v_io v)) off bs)
    \<and> (\<forall>i. i < off \<or> off + length bs \<le> i \<longrightarrow> io_data d i = io_data (v_io v) i)"
  using assms dev.wr_ok [of "v_io v" off bs] dev.wr_outside [of "v_io v" off bs]
  by (auto simp: wr0_def split: prod.splits)

lemma wr1_spec:
  assumes "wr1 v off bs = (rc, v')"
  shows "\<exists>d. v' = v\<lparr>v_io2 := d\<rparr> \<and> (rc = 0 \<longrightarrow> io_data d = store_write (io_data (v_io2 v)) off bs)
    \<and> (\<forall>i. i < off \<or> off + length bs \<le> i \<longrightarrow> io_data d i = io_data (v_io2 v) i)"
  using assms dev.wr_ok [of "v_io2 v" off bs] dev.wr_outside [of "v_io2 v" off bs]
  by (auto simp: wr1_def split: prod.splits)

text \<open>A slice that straddles no routing boundary and stays clear of the mirror's alias.\<close>

definition slice_ok :: "vol_storage \<Rightarrow> nat \<Rightarrow> nat \<Rightarrow> bool" where
  "slice_ok v off n \<longleftrightarrow> (off < meta_end_bytes v \<longrightarrow> off + n \<le> meta_end_bytes v)
     \<and> (off < mux_dev0_bytes v \<longrightarrow> off + n \<le> mux_dev0_bytes v) \<and> (\<forall>j < n. vol_in v (off + j))"

lemma mux_slice_ok: "\<forall>j < len. vol_in v (off + j) \<Longrightarrow> slice_ok v off (mux_slice v off len)"
  by (auto simp: slice_ok_def mux_slice_def Let_def)

lemma vol_quiet_logged: "vol_quiet v (v\<lparr>metaread_logged := b\<rparr>)"
  by (simp add: vmux_defs)

lemma vmux_pread1_spec:
  assumes "vol_ok v" "\<not> single v" "slice_ok v off n" "0 < n" "vmux_pread1 v off n = (r, v')"
  shows "vol_quiet v v' \<and> (\<forall>bs. r = Some bs \<longrightarrow> bs = store_read (vol_data v) off n)"
proof -
  have in0: "vol_in v off" using assms(3,4) unfolding slice_ok_def by (metis add_0_right)
  consider "off < meta_end_bytes v" | "meta_end_bytes v \<le> off" "off < mux_dev0_bytes v"
    | "meta_end_bytes v \<le> off" "mux_dev0_bytes v + meta_end_bytes v \<le> off"
    using in0 assms(2) by (fastforce simp: vol_in_def)
  then show ?thesis
  proof cases
    case 1
    have m: "store_read (vol_data v) off n = store_read (io_data (if up0 v \<or> \<not> up1 v then v_io v else v_io2 v)) off n"
      using 1 assms(2,3) by (intro store_read_cong) (auto simp: slice_ok_def vol_data_def)
    have both: "up0 v \<Longrightarrow> up1 v \<Longrightarrow> store_read (io_data (v_io v)) off n = store_read (io_data (v_io2 v)) off n"
      using 1 assms(1,2,3) by (intro store_read_cong) (auto simp: slice_ok_def vol_ok_def)
    obtain r0 v0 where a: "(if up0 v then rd0 v off n else (None, v)) = (r0, v0)" by fastforce
    have q0: "vol_quiet v v0 \<and> (\<forall>bs. r0 = Some bs \<longrightarrow> up0 v \<and> bs = store_read (io_data (v_io v)) off n)"
      using a rd0_spec [of v off n] by (auto split: if_splits)
    show ?thesis
    proof (cases r0)
      case (Some bs)
      then have "r = Some bs \<and> v' = v0" using assms(5) 1 a by (simp add: vmux_pread1_def)
      then show ?thesis using q0 m Some by auto
    next
      case None
      define w where "w = (if up0 v0 \<and> \<not> metaread_logged v0 then v0\<lparr>metaread_logged := True\<rparr> else v0)"
      have qw: "vol_quiet v w" using q0 vol_quiet_trans [OF _ vol_quiet_logged, of v v0 True] by (simp add: w_def)
      have e: "(if up1 w then rd1 w off n else (None, w)) = (r, v')"
        using assms(5) 1 a None by (simp only: vmux_pread1_def if_True prod.case option.case Let_def w_def [symmetric])
      have q1: "vol_quiet w v' \<and> (\<forall>bs. r = Some bs \<longrightarrow> up1 w \<and> bs = store_read (io_data (v_io2 w)) off n)"
      proof (cases "up1 w")
        case True
        then show ?thesis using e rd1_spec [of w off n r v'] by simp
      qed (use e in auto)
      have "up1 w = up1 v" "io_data (v_io2 w) = io_data (v_io2 v)" using qw by (simp_all add: vol_quiet_def same_route_def)
      then have "bs = store_read (vol_data v) off n" if "r = Some bs" for bs
        using q1 that m both by (cases "up0 v") simp_all
      then show ?thesis using vol_quiet_trans [OF qw conjunct1 [OF q1]] by simp
    qed
  next
    case 2
    have m: "store_read (vol_data v) off n = store_read (io_data (v_io v)) off n"
      using 2 assms(2,3) by (intro store_read_cong) (auto simp: slice_ok_def vol_data_def)
    show ?thesis using 2 assms(5) m rd0_spec [of v off n] by (auto simp: vmux_pread1_def split: if_splits)
  next
    case 3
    have m: "store_read (vol_data v) off n = store_read (io_data (v_io2 v)) (off - mux_dev0_bytes v) n"
      using 3 assms(1,2) by (intro nth_equalityI) (auto simp: vol_data_def vol_ok_def nth_store_read)
    have "vmux_pread1 v off n = (if \<not> up1 v then (None, v) else rd1 v (off - mux_dev0_bytes v) n)"
      using 3 assms(1,2) by (simp add: vmux_pread1_def vol_ok_def)
    then show ?thesis using assms(5) m rd1_spec [of v "off - mux_dev0_bytes v" n r v'] by (cases "up1 v") auto
  qed
qed

lemma mux_read_loop_spec:
  "vol_ok v \<Longrightarrow> \<not> single v \<Longrightarrow> \<forall>j < len. vol_in v (off + j) \<Longrightarrow> mux_read_loop v off len = (r, v') \<Longrightarrow>
   vol_quiet v v' \<and> (\<forall>bs. r = Some bs \<longrightarrow> bs = store_read (vol_data v) off len)"
proof (induction v off len arbitrary: r v' rule: mux_read_loop.induct)
  case (1 v off len)
  show ?case
  proof (cases "len = 0")
    case True
    then show ?thesis using "1.prems"(4) by (auto simp: mux_read_loop.simps)
  next
    case False
    define n where "n = mux_slice v off len"
    have n: "0 < n" "n \<le> len" using False mux_slice_pos mux_slice_le by (auto simp: n_def)
    obtain r1 v1 where p: "vmux_pread1 v off n = (r1, v1)" by fastforce
    have s: "vol_quiet v v1 \<and> (\<forall>bs. r1 = Some bs \<longrightarrow> bs = store_read (vol_data v) off n)"
      using vmux_pread1_spec [OF "1.prems"(1,2) _ n(1) p] mux_slice_ok [OF "1.prems"(3)] by (simp add: n_def)
    show ?thesis
    proof (cases r1)
      case None
      then have "r = None \<and> v' = v1" using "1.prems"(4) False p by (subst (asm) mux_read_loop.simps) (simp add: n_def)
      then show ?thesis using s by simp
    next
      case (Some bs)
      obtain r2 v2 where l: "mux_read_loop v1 (off + n) (len - n) = (r2, v2)" by fastforce
      have out: "v' = v2" "r = map_option (append bs) r2"
        using "1.prems"(4) False p Some l by (subst (asm) mux_read_loop.simps, simp add: n_def split: option.splits)+
      have v1: "vol_ok v1" "\<not> single v1" "vol_data v1 = vol_data v" "\<forall>j < len - n. vol_in v1 (off + n + j)"
        using s vol_quiet_view [of v v1] "1.prems"(1-3) n(2) same_route_in [of v v1]
        by (auto simp: vol_quiet_def same_route_def add.assoc)
      have "vol_quiet v1 v2 \<and> (\<forall>xs. r2 = Some xs \<longrightarrow> xs = store_read (vol_data v1) (off + n) (len - n))"
        using "1.IH" [OF False n_def p [symmetric] Some v1(1,2,4) l] .
      then show ?thesis
        using s out Some v1(3) n(2) vol_quiet_trans [of v v1 v2] store_read_append [of "vol_data v" off n "len - n"] by auto
    qed
  qed
qed

lemma vmux_pread_spec:
  assumes "vol_ok v" "\<forall>j < len. vol_in v (off + j)" "vmux_pread v off len = (r, v')"
  shows "vol_quiet v v' \<and> (\<forall>bs. r = Some bs \<longrightarrow> bs = store_read (vol_data v) off len)"
proof (cases "single v")
  case True
  then have "vol_data v = io_data (v_io v)" by (auto simp: vol_data_def)
  then show ?thesis using rd0_spec [of v off len] assms(3) True by (simp add: vmux_pread_def)
next
  case False
  then show ?thesis using mux_read_loop_spec [OF assms(1) False assms(2)] assms(3) by (auto simp: vmux_pread_def)
qed

text \<open>What a write does to the logical contents.\<close>

definition vol_wrote :: "vol_storage \<Rightarrow> nat \<Rightarrow> bytes \<Rightarrow> int \<Rightarrow> vol_storage \<Rightarrow> bool" where
  "vol_wrote v off bs rc v' \<longleftrightarrow> same_route v v' \<and> (rc = 0 \<longrightarrow> vol_ok v' \<and> vol_data v' = store_write (vol_data v) off bs)
     \<and> (\<forall>i. i < off \<or> off + length bs \<le> i \<longrightarrow> vol_data v' i = vol_data v i)"

lemma store_write_split:
  "store_write f off bs i = (if off \<le> i \<and> i < off + length bs then bs ! (i - off) else f i)"
  by (auto simp: store_write_def)

lemma meta_write_outside:
  assumes "vol_ok v" "\<not> single v" "same_route v v'" "dev_skip0 v' = dev_skip0 v \<or> up0 v"
    and "off + length bs \<le> meta_end_bytes v" "i < off \<or> off + length bs \<le> i"
    and d: "\<And>i. i < off \<or> off + length bs \<le> i \<Longrightarrow> io_data (v_io v') i = io_data (v_io v) i"
    and e: "\<And>i. i < off \<or> off + length bs \<le> i \<Longrightarrow> io_data (v_io2 v') i = io_data (v_io2 v) i"
  shows "vol_data v' i = vol_data v i"
proof (cases "i < meta_end_bytes v")
  case True
  have "up0 v \<Longrightarrow> up1 v \<Longrightarrow> io_data (v_io v) i = io_data (v_io2 v) i"
    using assms(1,2) True by (simp add: vol_ok_def)
  then show ?thesis
    using assms(2-4) True d [OF assms(6)] e [OF assms(6)] by (auto simp: vol_data_def same_route_def)
next
  case False
  have "io_data (v_io2 v') (i - mux_dev0_bytes v) = io_data (v_io2 v) (i - mux_dev0_bytes v)"
    if "mux_dev0_bytes v + meta_end_bytes v \<le> i" using e [of "i - mux_dev0_bytes v"] that assms(5) by linarith
  then show ?thesis
    using assms(2,3) False d [OF assms(6)] by (auto simp: vol_data_def same_route_def mux_dev0_bytes_def)
qed

lemma meta_write_inside:
  assumes "\<not> single v" "same_route v v'" "off + length bs \<le> meta_end_bytes v"
    and "up0 v' \<or> \<not> up1 v' \<Longrightarrow> io_data (v_io v') = store_write (io_data (v_io v)) off bs"
    and "\<not> (up0 v' \<or> \<not> up1 v') \<Longrightarrow> io_data (v_io2 v') = store_write (io_data (v_io2 v)) off bs"
    and "off \<le> i" "i < off + length bs"
  shows "vol_data v' i = bs ! (i - off)"
proof -
  have "\<not> single v'" "i < meta_end_bytes v'" using assms by (auto simp: same_route_def)
  then show ?thesis
    using assms(4-7) by (cases "up0 v' \<or> \<not> up1 v'") (auto simp: vol_data_def store_write_split)
qed

lemma meta_write_wrote:
  assumes "vol_ok v" "\<not> single v" "same_route v v'" "dev_skip0 v' = dev_skip0 v \<or> up0 v"
    and "off + length bs \<le> meta_end_bytes v"
    and d: "\<And>i. i < off \<or> off + length bs \<le> i \<Longrightarrow> io_data (v_io v') i = io_data (v_io v) i"
    and e: "\<And>i. i < off \<or> off + length bs \<le> i \<Longrightarrow> io_data (v_io2 v') i = io_data (v_io2 v) i"
    and d0: "rc = 0 \<Longrightarrow> up0 v' \<or> \<not> up1 v' \<Longrightarrow> io_data (v_io v') = store_write (io_data (v_io v)) off bs"
    and e0: "rc = 0 \<Longrightarrow> up1 v' \<Longrightarrow> io_data (v_io2 v') = store_write (io_data (v_io2 v)) off bs"
  shows "vol_wrote v off bs rc v'"
proof -
  have out: "vol_data v' i = vol_data v i" if "i < off \<or> off + length bs \<le> i" for i
    using meta_write_outside [OF assms(1-5) that d e] by simp
  have in': "vol_data v' i = bs ! (i - off)" if "rc = 0" "off \<le> i" "i < off + length bs" for i
    using meta_write_inside [OF assms(2,3,5) d0 e0 that(2,3)] that(1) by simp
  have "vol_ok v'" if "rc = 0"
  proof -
    have "io_data (v_io v') i = io_data (v_io2 v') i" if "up0 v'" "up1 v'" "i < meta_end_bytes v" for i
    proof -
      have "up0 v" "up1 v" using that assms(3,4) by (auto simp: same_route_def)
      then have "io_data (v_io v) i = io_data (v_io2 v) i" using assms(1,2) that(3) by (simp add: vol_ok_def)
      then show ?thesis using d0 e0 that \<open>rc = 0\<close> by (simp add: store_write_split)
    qed
    then show ?thesis using assms(1-3) by (auto simp: vol_ok_def same_route_def mux_dev0_bytes_def)
  qed
  moreover have "vol_data v' = store_write (vol_data v) off bs" if "rc = 0"
    using in' [OF that] out by (auto simp: store_write_split fun_eq_iff)
  ultimately show ?thesis using assms(3) out by (simp add: vol_wrote_def)
qed

lemma mirror_first:
  assumes "(if up0 v
      then let (r, v) = wr0 v off bs in if r \<noteq> 0 then (False, v\<lparr>dev_skip0 := True\<rparr>) else (True, v)
      else (False, v)) = (wrote, v1)"
  shows "\<exists>d. v1 = v\<lparr>v_io := d, dev_skip0 := (dev_skip0 v \<or> up0 v \<and> \<not> wrote)\<rparr> \<and> (wrote \<longrightarrow> up0 v) \<and>
      (wrote \<longrightarrow> io_data d = store_write (io_data (v_io v)) off bs)
      \<and> (\<forall>i. i < off \<or> off + length bs \<le> i \<longrightarrow> io_data d i = io_data (v_io v) i)"
proof (cases "up0 v")
  case True
  obtain r w where w: "wr0 v off bs = (r, w)" by fastforce
  from wr0_spec [OF w] obtain d where "w = v\<lparr>v_io := d\<rparr>"
    "r = 0 \<longrightarrow> io_data d = store_write (io_data (v_io v)) off bs"
    "\<forall>i. i < off \<or> off + length bs \<le> i \<longrightarrow> io_data d i = io_data (v_io v) i" by blast
  then show ?thesis using assms w True by (intro exI [of _ d]) (cases v, auto split: if_splits)
next
  case False
  then show ?thesis using assms by (intro exI [of _ "v_io v"]) auto
qed

lemma mirror_write_spec:
  assumes "vol_ok v" "\<not> single v" "off + length bs \<le> meta_end_bytes v" "mirror_write v off bs = (rc, v')"
  shows "vol_wrote v off bs rc v'"
proof (cases "degraded v")
  case True
  then show ?thesis using assms(4) by (auto simp: mirror_write_def vol_wrote_def same_route_def)
next
  case False
  obtain wrote v1 where a: "(if up0 v
      then let (r, v) = wr0 v off bs in if r \<noteq> 0 then (False, v\<lparr>dev_skip0 := True\<rparr>) else (True, v)
      else (False, v)) = (wrote, v1)" by fastforce
  from mirror_first [OF a] obtain d where v1: "v1 = v\<lparr>v_io := d, dev_skip0 := (dev_skip0 v \<or> up0 v \<and> \<not> wrote)\<rparr>" "wrote \<longrightarrow> up0 v"
    and d: "wrote \<longrightarrow> io_data d = store_write (io_data (v_io v)) off bs"
      "\<And>i. i < off \<or> off + length bs \<le> i \<Longrightarrow> io_data d i = io_data (v_io v) i" by blast
  show ?thesis
  proof (cases "up1 v")
    case True
    obtain r2 v2 where w: "wr1 v1 off bs = (r2, v2)" by fastforce
    from wr1_spec [OF w] v1 obtain e where e: "v2 = v1\<lparr>v_io2 := e\<rparr>"
      "r2 = 0 \<longrightarrow> io_data e = store_write (io_data (v_io2 v)) off bs"
      "\<And>i. i < off \<or> off + length bs \<le> i \<Longrightarrow> io_data e i = io_data (v_io2 v) i" by auto
    have out: "rc = (if r2 = 0 then 0 else -1)" "v' = (if r2 = 0 then v2 else vol_io_error_latch v2)"
      using assms(4) False a True w v1(1) by (auto simp: mirror_write_def Let_def split: if_splits)
    show ?thesis
      by (rule meta_write_wrote [OF assms(1,2) _ _ assms(3)])
         (use out e d v1 True in \<open>auto simp: same_route_def vol_io_error_latch_def split: if_splits\<close>)
  next
    case up: False
    then have out: "rc = (if wrote then 0 else -1)" "v' = v1"
      using assms(4) False a v1(1) by (auto simp: mirror_write_def Let_def split: if_splits)
    show ?thesis
      by (rule meta_write_wrote [OF assms(1,2) _ _ assms(3)])
         (use out d v1 up in \<open>auto simp: same_route_def split: if_splits\<close>)
  qed
qed

lemma vmux_pwrite1_spec:
  assumes "vol_ok v" "\<not> single v" "slice_ok v off (length bs)" "bs \<noteq> []" "vmux_pwrite1 v off bs = (rc, v')"
  shows "vol_wrote v off bs rc v'"
proof -
  have in0: "vol_in v off" using assms(3,4) unfolding slice_ok_def by (metis add_0_right length_greater_0_conv)
  consider "off < meta_end_bytes v" | "meta_end_bytes v \<le> off" "off < mux_dev0_bytes v"
    | "meta_end_bytes v \<le> off" "mux_dev0_bytes v + meta_end_bytes v \<le> off"
    using in0 assms(2) by (fastforce simp: vol_in_def)
  then show ?thesis
  proof cases
    case 1
    then show ?thesis
      using mirror_write_spec [OF assms(1,2)] assms(3,5) by (simp add: vmux_pwrite1_def slice_ok_def)
  next
    case 2
    show ?thesis
    proof (cases "up0 v")
      case True
      then have "wr0 v off bs = (rc, v')" using 2 assms(5) by (simp add: vmux_pwrite1_def)
      from wr0_spec [OF this] obtain d where "v' = v\<lparr>v_io := d\<rparr>"
        "rc = 0 \<longrightarrow> io_data d = store_write (io_data (v_io v)) off bs"
        "\<And>i. i < off \<or> off + length bs \<le> i \<Longrightarrow> io_data d i = io_data (v_io v) i" by blast
      then show ?thesis using 2 assms(1-3) True
        by (auto simp: vol_wrote_def same_route_def vol_ok_def vol_data_def mux_dev0_bytes_def slice_ok_def store_write_split fun_eq_iff)
    next
      case False
      then have "rc = -1 \<and> vol_quiet v v'"
        using 2 assms(5) vol_quiet_logged [of v True] by (auto simp: vmux_pwrite1_def split: if_splits)
      then show ?thesis using vol_quiet_view [of v v'] by (simp add: vol_wrote_def vol_quiet_def)
    qed
  next
    case 3
    show ?thesis
    proof (cases "up1 v")
      case True
      then have "wr1 v (off - mux_dev0_bytes v) bs = (rc, v')" using 3 assms(1,2,5) by (simp add: vmux_pwrite1_def vol_ok_def)
      from wr1_spec [OF this] obtain d where d: "v' = v\<lparr>v_io2 := d\<rparr>"
        "rc = 0 \<longrightarrow> io_data d = store_write (io_data (v_io2 v)) (off - mux_dev0_bytes v) bs"
        "\<And>i. i < off - mux_dev0_bytes v \<or> off - mux_dev0_bytes v + length bs \<le> i \<Longrightarrow> io_data d i = io_data (v_io2 v) i" by blast
      have le: "meta_end_bytes v \<le> mux_dev0_bytes v" using assms(1,2) by (simp add: vol_ok_def)
      have lo: "io_data d i = io_data (v_io2 v) i" if "i < meta_end_bytes v" for i
        using d(3) [of i] that 3(2) by linarith
      have at: "vol_data v' i = (if mux_dev0_bytes v + meta_end_bytes v \<le> i then io_data d (i - mux_dev0_bytes v) else vol_data v i)" for i
        using assms(2) d(1) lo by (auto simp: vol_data_def mux_dev0_bytes_def)
      have at0: "vol_data v i = io_data (v_io2 v) (i - mux_dev0_bytes v)" if "mux_dev0_bytes v + meta_end_bytes v \<le> i" for i
        using that assms(2) le by (auto simp: vol_data_def)
      have out: "vol_data v' i = vol_data v i" if "i < off \<or> off + length bs \<le> i" for i
      proof (cases "mux_dev0_bytes v + meta_end_bytes v \<le> i")
        case True
        then have "io_data d (i - mux_dev0_bytes v) = io_data (v_io2 v) (i - mux_dev0_bytes v)"
          using that 3(2) by (intro d(3)) linarith
        then show ?thesis using at [of i] at0 [OF True] True by simp
      qed (use at [of i] in simp)
      have in': "vol_data v' i = bs ! (i - off)" if "rc = 0" "off \<le> i" "i < off + length bs" for i
        using at [of i] d(2) that 3(2) by (auto simp: store_write_split)
      have "vol_ok v'" using assms(1,2) d(1) lo by (auto simp: vol_ok_def mux_dev0_bytes_def)
      moreover have "vol_data v' = store_write (vol_data v) off bs" if "rc = 0"
        using in' [OF that] out by (auto simp: store_write_split fun_eq_iff)
      ultimately show ?thesis using out d(1) by (simp add: vol_wrote_def same_route_def)
    next
      case False
      then have "rc = -1" "v' = v" using 3 assms(1,2,5) by (auto simp: vmux_pwrite1_def vol_ok_def)
      then show ?thesis by (simp add: vol_wrote_def same_route_def)
    qed
  qed
qed

lemma mux_write_loop_Nil [simp]: "mux_write_loop v off [] = (0, v)"
  by (simp add: mux_write_loop.simps)

lemma mux_write_loop_one:
  "mux_slice v off (length bs) = length bs \<Longrightarrow> bs \<noteq> [] \<Longrightarrow> vmux_pwrite1 v off bs = (r, v1) \<Longrightarrow>
   mux_write_loop v off bs = (if r \<noteq> 0 then -1 else 0, v1)"
  by (subst mux_write_loop.simps) (simp add: Let_def)

lemma vol_wrote_step:
  assumes "vol_wrote v off xs 0 v1" "vol_wrote v1 (off + length xs) ys rc v'"
  shows "vol_wrote v off (xs @ ys) rc v'"
  using assms by (auto simp: vol_wrote_def store_write_append intro: same_route_trans)

lemma vol_wrote_fail: "vol_wrote v off (take n bs) rc v' \<Longrightarrow> rc \<noteq> 0 \<Longrightarrow> rc' \<noteq> 0 \<Longrightarrow> vol_wrote v off bs rc' v'"
  by (auto simp: vol_wrote_def)

lemma mux_write_loop_spec:
  "vol_ok v \<Longrightarrow> \<not> single v \<Longrightarrow> \<forall>j < length bs. vol_in v (off + j) \<Longrightarrow> mux_write_loop v off bs = (rc, v') \<Longrightarrow>
   vol_wrote v off bs rc v'"
proof (induction v off bs arbitrary: rc v' rule: mux_write_loop.induct)
  case (1 v off bs)
  show ?case
  proof (cases "bs = []")
    case True
    then show ?thesis using "1.prems"(1,4) by (auto simp: mux_write_loop.simps vol_wrote_def same_route_def)
  next
    case False
    define n where "n = mux_slice v off (length bs)"
    have n: "0 < n" "n \<le> length bs" using False mux_slice_pos mux_slice_le by (auto simp: n_def)
    obtain r v1 where p: "vmux_pwrite1 v off (take n bs) = (r, v1)" by fastforce
    have w: "vol_wrote v off (take n bs) r v1"
      using vmux_pwrite1_spec [OF "1.prems"(1,2) _ _ p] mux_slice_ok [OF "1.prems"(3)] n False by (simp add: n_def)
    have step: "mux_write_loop v off bs = (if r \<noteq> 0 then (-1, v1) else mux_write_loop v1 (off + n) (drop n bs))"
      using False p by (subst mux_write_loop.simps) (simp add: n_def Let_def)
    show ?thesis
    proof (cases "r = 0")
      case True
      have v1: "vol_ok v1" "\<not> single v1" "\<forall>j < length (drop n bs). vol_in v1 (off + n + j)"
        using w True "1.prems"(2,3) n(2) same_route_in [of v v1] by (auto simp: vol_wrote_def same_route_def add.assoc)
      have "mux_write_loop v1 (off + n) (drop n bs) = (rc, v')" using step True "1.prems"(4) by simp
      then have "vol_wrote v1 (off + n) (drop n bs) rc v'"
        using "1.IH" [OF False n_def p [symmetric] refl _ v1] True by simp
      then show ?thesis using vol_wrote_step [of v off "take n bs" v1 "drop n bs" rc v'] w True n(2) by simp
    next
      case False
      then show ?thesis using step "1.prems"(4) vol_wrote_fail [OF w False] by simp
    qed
  qed
qed

lemma vmux_pwrite_spec:
  assumes "vol_ok v" "\<forall>j < length bs. vol_in v (off + j)" "vmux_pwrite v off bs = (rc, v')"
  shows "vol_wrote v off bs rc v'"
proof (cases "single v")
  case True
  then have "wr0 v off bs = (rc, v')" using assms(3) by (simp add: vmux_pwrite_def)
  from wr0_spec [OF this] obtain d where d: "v' = v\<lparr>v_io := d\<rparr>"
    "rc = 0 \<longrightarrow> io_data d = store_write (io_data (v_io v)) off bs"
    "\<forall>i. i < off \<or> off + length bs \<le> i \<longrightarrow> io_data d i = io_data (v_io v) i" by blast
  have "vol_data v = io_data (v_io v)" "vol_data v' = io_data d" "vol_ok v'"
    using True d(1) by (simp_all add: vol_data_def vol_ok_def fun_eq_iff)
  then show ?thesis using d by (simp add: vol_wrote_def same_route_def)
next
  case False
  then show ?thesis using mux_write_loop_spec [OF assms(1) False assms(2)] assms(3) by (auto simp: vmux_pwrite_def)
qed

section \<open>The contract of a byte volume\<close>

locale byte_volume =
  fixes dat :: "'s \<Rightarrow> store"
    and ok :: "'s \<Rightarrow> bool"
    and inn :: "'s \<Rightarrow> nat \<Rightarrow> bool"
    and rd :: "'s \<Rightarrow> nat \<Rightarrow> nat \<Rightarrow> bytes option \<times> 's"
    and wr :: "'s \<Rightarrow> nat \<Rightarrow> bytes \<Rightarrow> int \<times> 's"
  assumes rd_view: "ok s \<Longrightarrow> \<forall>j < n. inn s (off + j) \<Longrightarrow> rd s off n = (r, s') \<Longrightarrow>
      ok s' \<and> dat s' = dat s \<and> inn s' = inn s \<and> (\<forall>bs. r = Some bs \<longrightarrow> bs = store_read (dat s) off n)"
    and wr_view: "ok s \<Longrightarrow> \<forall>j < length bs. inn s (off + j) \<Longrightarrow> wr s off bs = (rc, s') \<Longrightarrow>
      inn s' = inn s \<and> (rc = 0 \<longrightarrow> ok s' \<and> dat s' = store_write (dat s) off bs)
      \<and> (\<forall>i. i < off \<or> off + length bs \<le> i \<longrightarrow> dat s' i = dat s i)"
begin

lemma vol_read_back:
  assumes "ok s" "\<forall>j < length bs. inn s (off + j)" "wr s off bs = (0, s1)" "rd s1 off (length bs) = (Some ys, s2)"
  shows "ys = bs \<and> ok s2 \<and> dat s2 = store_write (dat s) off bs"
  using wr_view [OF assms(1-3)] rd_view [of s1 "length bs" off "Some ys" s2] assms(2,4) store_read_write_same by auto

lemma vol_read_elsewhere:
  assumes "ok s" "\<forall>j < length bs. inn s (off + j)" "wr s off bs = (0, s1)" "rd s1 o2 n = (Some ys, s2)"
    and "\<forall>j < n. inn s (o2 + j)" "o2 + n \<le> off \<or> off + length bs \<le> o2"
  shows "ys = store_read (dat s) o2 n"
proof -
  have "ys = store_read (dat s1) o2 n"
    using wr_view [OF assms(1-3)] rd_view [of s1 n o2 "Some ys" s2] assms(4,5) by auto
  then show ?thesis using wr_view [OF assms(1-3)] assms(6) by (auto intro: store_read_cong)
qed

end

interpretation vm: byte_volume vol_data vol_ok vol_in vmux_pread vmux_pwrite
proof
  fix s s' :: vol_storage and off n r
  assume "vol_ok s" "\<forall>j < n. vol_in s (off + j)" "vmux_pread s off n = (r, s')"
  note q = vmux_pread_spec [OF this]
  have "vol_in s' = vol_in s" using q same_route_in [of s s'] by (auto simp: vol_quiet_def)
  then show "vol_ok s' \<and> vol_data s' = vol_data s \<and> vol_in s' = vol_in s
      \<and> (\<forall>bs. r = Some bs \<longrightarrow> bs = store_read (vol_data s) off n)"
    using q vol_quiet_view [of s s'] \<open>vol_ok s\<close> by simp
next
  fix s s' :: vol_storage and off bs rc
  assume "vol_ok s" "\<forall>j < length bs. vol_in s (off + j)" "vmux_pwrite s off bs = (rc, s')"
  note q = vmux_pwrite_spec [OF this]
  have "vol_in s' = vol_in s" using q same_route_in [of s s'] by (auto simp: vol_wrote_def)
  then show "vol_in s' = vol_in s \<and> (rc = 0 \<longrightarrow> vol_ok s' \<and> vol_data s' = store_write (vol_data s) off bs)
      \<and> (\<forall>i. i < off \<or> off + length bs \<le> i \<longrightarrow> vol_data s' i = vol_data s i)"
    using q by (simp add: vol_wrote_def)
qed

section \<open>Barriers\<close>

text \<open>The bookkeeping of the group commit is sound on a device and no deferral policy is in force.\<close>

definition strict_dev :: "blkio \<Rightarrow> bool" where
  "strict_dev io \<longleftrightarrow> gc_inv io \<and> strict_policy io"

lemma strict_pwrite:
  assumes "strict_dev io" "blkio_pwrite io off bs = (r, io')"
  shows "strict_dev io'"
proof -
  have "strict_policy io'"
    by (rule blkio_pwrite_spec [OF assms(2)]) (use assms(1) in \<open>simp add: strict_dev_def strict_policy_def\<close>)
  then show ?thesis using gc_inv_pwrite [OF _ assms(2)] assms(1) by (simp add: strict_dev_def)
qed

lemma wr0_gc: "wr0 v off bs = (r, v') \<Longrightarrow> v_io2 v' = v_io2 v"
  by (auto simp: wr0_def split: prod.splits)

lemma wr1_gc: "strict_dev (v_io2 v) \<Longrightarrow> wr1 v off bs = (r, v') \<Longrightarrow> strict_dev (v_io2 v')"
  by (auto simp: wr1_def split: prod.splits intro: strict_pwrite)

lemma mirror_write_gc:
  assumes "strict_dev (v_io2 v)" "mirror_write v off bs = (r, v')"
  shows "strict_dev (v_io2 v')"
proof (cases "degraded v")
  case True
  then show ?thesis using assms by (simp add: mirror_write_def)
next
  case False
  obtain wrote v1 where a: "(if up0 v
      then let (r, v) = wr0 v off bs in if r \<noteq> 0 then (False, v\<lparr>dev_skip0 := True\<rparr>) else (True, v)
      else (False, v)) = (wrote, v1)" by fastforce
  have v1: "strict_dev (v_io2 v1)" using mirror_first [OF a] assms(1) by auto
  obtain r2 v2 where w: "wr1 v1 off bs = (r2, v2)" by fastforce
  have "v' \<in> {v1, v2, vol_io_error_latch v2}"
    using assms(2) False a w by (auto simp: mirror_write_def Let_def split: if_splits)
  then show ?thesis using v1 wr1_gc [OF v1 w] by (auto simp: vol_io_error_latch_def)
qed

lemma vmux_pwrite1_gc: "strict_dev (v_io2 v) \<Longrightarrow> vmux_pwrite1 v off bs = (r, v') \<Longrightarrow> strict_dev (v_io2 v')"
  by (auto simp: vmux_pwrite1_def split: if_splits dest: mirror_write_gc wr0_gc wr1_gc)

lemma mux_write_loop_gc: "strict_dev (v_io2 v) \<Longrightarrow> mux_write_loop v off bs = (r, v') \<Longrightarrow> strict_dev (v_io2 v')"
proof (induction v off bs arbitrary: r v' rule: mux_write_loop.induct)
  case (1 v off bs)
  show ?case
  proof (cases "bs = []")
    case False
    obtain r1 v1 where p: "vmux_pwrite1 v off (take (mux_slice v off (length bs)) bs) = (r1, v1)" by fastforce
    have "strict_dev (v_io2 v1)" using vmux_pwrite1_gc [OF "1.prems"(1) p] .
    moreover have "mux_write_loop v off bs
        = (if r1 \<noteq> 0 then (-1, v1) else mux_write_loop v1 (off + mux_slice v off (length bs)) (drop (mux_slice v off (length bs)) bs))"
      using False p by (subst mux_write_loop.simps) (simp add: Let_def)
    ultimately show ?thesis
      using "1.IH" [OF False refl p [symmetric] refl, of r v'] "1.prems"(2) by (cases "r1 = 0") auto
  qed (use "1.prems" in \<open>simp add: mux_write_loop.simps\<close>)
qed

lemma vmux_pwrite_gc: "strict_dev (v_io2 v) \<Longrightarrow> vmux_pwrite v off bs = (r, v') \<Longrightarrow> strict_dev (v_io2 v')"
  by (auto simp: vmux_pwrite_def split: if_splits dest: wr0_gc mux_write_loop_gc)

text \<open>What a mount finds on the devices after a power cut: the contents with each device replaced by
  what survived on it. An offset is live while a device that serves it is in use.\<close>

definition vol_view :: "vol_storage \<Rightarrow> store \<Rightarrow> store \<Rightarrow> store" where
  "vol_view v c0 c1 i =
    (if single v then c0 i
     else if i < meta_end_bytes v then (if up0 v \<or> \<not> up1 v then c0 i else c1 i)
     else if i < mux_dev0_bytes v then c0 i
     else if mux_dev0_bytes v + meta_end_bytes v \<le> i then c1 (i - mux_dev0_bytes v)
     else 0)"

definition vol_live :: "vol_storage \<Rightarrow> nat \<Rightarrow> bool" where
  "vol_live v i \<longleftrightarrow> single v \<or> (if i < meta_end_bytes v then up0 v \<or> up1 v
     else if i < mux_dev0_bytes v then up0 v else up1 v)"

lemma vol_view_data: "vol_data v = vol_view v (io_data (v_io v)) (io_data (v_io2 v))"
  by (simp add: vol_data_def vol_view_def fun_eq_iff)

lemma vol_view_settled:
  assumes "vol_live v i" "crash_image (os (v_io v)) c0" "crash_image (os (v_io2 v)) c1"
    and "single v \<or> up0 v \<Longrightarrow> \<forall>i. settled (os (v_io v)) i"
    and "\<not> single v \<Longrightarrow> up1 v \<Longrightarrow> \<forall>i. settled (os (v_io2 v)) i"
  shows "vol_view v c0 c1 i = vol_data v i"
proof -
  have a: "c0 i = io_data (v_io v) i" if "single v \<or> up0 v"
    using crash_settled [OF assms(2)] assms(4) [OF that] by blast
  have b: "c1 j = io_data (v_io2 v) j" if "\<not> single v" "up1 v" for j
    using crash_settled [OF assms(3)] assms(5) [OF that] by blast
  show ?thesis
  proof (cases "single v")
    case True
    then show ?thesis using a by (simp add: vol_view_def vol_data_def)
  next
    case False
    then show ?thesis using assms(1) a b [OF False] by (auto simp: vol_view_def vol_data_def vol_live_def split: if_splits)
  qed
qed

lemma flush0_spec:
  assumes "strict_dev (v_io v)" "flush0 v = (r, v')"
  shows "\<exists>d. v' = v\<lparr>v_io := d\<rparr> \<and> (r = 0 \<longrightarrow> io_data d = io_data (v_io v) \<and> (\<forall>i. settled (os d) i))"
  using assms blkio_flush_strict [of "v_io v"] by (auto simp: flush0_def strict_dev_def split: prod.splits)

lemma flush1_spec:
  assumes "strict_dev (v_io2 v)" "flush1 v = (r, v')"
  shows "\<exists>d. v' = v\<lparr>v_io2 := d\<rparr> \<and> (r = 0 \<longrightarrow> io_data d = io_data (v_io2 v) \<and> (\<forall>i. settled (os d) i))"
  using assms blkio_flush_strict [of "v_io2 v"] by (auto simp: flush1_def strict_dev_def split: prod.splits)

text \<open>Publishing the device table changes its slot in block 0 and nothing else.\<close>

abbreviation devt_slot :: "nat \<Rightarrow> bool" where
  "devt_slot i \<equiv> INVFS_DEVT_OFF \<le> i \<and> i < INVFS_DEVT_OFF + 188"

definition devt_sealed :: "invfs_devt \<Rightarrow> invfs_devt" where
  "devt_sealed d = (let t = d\<lparr>dt_magic := ascii ''DEVT'', dt_crc32c := 0\<rparr> in t\<lparr>dt_crc32c := devt_crc t\<rparr>)"

lemma devt_sealed_wf: "devt_wf d \<Longrightarrow> devt_wf (devt_sealed d)"
  by (simp add: devt_sealed_def devt_wf_def Let_def)

lemma vol_quiet_fields: "vol_quiet v (v\<lparr>mux_pos := p\<rparr>)" "vol_quiet v (v\<lparr>v_devt := d\<rparr>)"
  by (simp_all add: vmux_defs)

lemma vol_in_quiet: "vol_quiet v v' \<Longrightarrow> vol_in v' = vol_in v"
  using same_route_in [of v v'] by (auto simp: vol_quiet_def)

lemmas vol_data_fields [simp] =
  vol_quiet_fields [THEN vol_quiet_view, THEN conjunct1] vol_quiet_fields [THEN vol_quiet_view, THEN conjunct2]
  vol_quiet_fields [THEN vol_in_quiet]

lemma vol_write_devt_spec:
  assumes "vol_ok v" "strict_dev (v_io2 v)" "ndev v = 2" "devt_wf (v_devt v)" "INVFS_DEVT_OFF + 188 \<le> meta_end_bytes v"
    and "vol_write_devt v = (rc, v')"
  shows "same_route v v' \<and> strict_dev (v_io2 v') \<and>
    (rc = 0 \<longrightarrow> vol_ok v' \<and> vol_data v' = store_write (vol_data v) INVFS_DEVT_OFF (devt_bytes (devt_sealed (v_devt v)))
       \<and> v_devt v' = devt_sealed (v_devt v))"
proof -
  let ?t = "devt_sealed (v_devt v)"
  define u where "u = v\<lparr>mux_pos := INVFS_DEVT_OFF\<rparr>"
  obtain r w where w: "vmux_pwrite u INVFS_DEVT_OFF (devt_bytes ?t) = (r, w)" by fastforce
  have len: "length (devt_bytes ?t) = 188" using length_devt_bytes [OF devt_sealed_wf [OF assms(4)]] .
  have le: "meta_end_bytes v \<le> mux_dev0_bytes v" using assms(1,3) by (simp add: vol_ok_def)
  have inn: "\<forall>j < length (devt_bytes ?t). vol_in u (INVFS_DEVT_OFF + j)"
    using len le assms(5) by (auto simp: u_def vol_in_def)
  have vw: "vol_wrote u INVFS_DEVT_OFF (devt_bytes ?t) r w"
    using vmux_pwrite_spec [OF _ inn w] assms(1) by (simp add: u_def)
  have gc: "strict_dev (v_io2 w)" using vmux_pwrite_gc [OF _ w] assms(2) by (simp add: u_def)
  define x where "x = (if r = 0 then w\<lparr>mux_pos := sz (INVFS_DEVT_OFF + 188)\<rparr> else w)"
  have out: "(rc, v') = (if r \<noteq> 0 then (-1, w) else (0, x\<lparr>v_devt := ?t\<rparr>))"
    using assms(3,6) w len
    by (auto simp: vol_write_devt_def vmux_seek_def vmux_write_def Let_def devt_sealed_def u_def x_def split: if_splits)
  show ?thesis
    using out vw gc by (cases "r = 0") (auto simp: vol_wrote_def same_route_def x_def u_def)
qed

text \<open>The first half of the barrier: device 0 is synced or dropped with a certificate.\<close>

lemma barrier_first:
  assumes "vol_ok v" "strict_dev (v_io v)" "strict_dev (v_io2 v)" "ndev v = 2" "devt_wf (v_devt v)"
    and "INVFS_DEVT_OFF + 188 \<le> meta_end_bytes v" "up1 v"
    and "(if up0 v then let (r, v) = flush0 v in if r \<noteq> 0 then barrier_skip0 v else (0, v) else (0, v)) = (0, u)"
  shows "vol_ok u \<and> strict_dev (v_io2 u) \<and> same_route v u \<and> (up0 u \<longrightarrow> (\<forall>i. settled (os (v_io u)) i))
    \<and> (\<forall>i. vol_live u i \<and> (dev_skip0 u = dev_skip0 v \<or> \<not> devt_slot i) \<longrightarrow> vol_data u i = vol_data v i)
    \<and> (up0 v \<and> \<not> up0 u \<longrightarrow> dt_sync_seq (v_devt u) = sz (dt_sync_seq (v_devt v) + 1)
         \<and> store_read (vol_data u) INVFS_DEVT_OFF 188 = devt_bytes (v_devt u))"
proof (cases "up0 v")
  case False
  then have "u = v" using assms(8) by auto
  then show ?thesis using False assms(1,3) by (auto simp: same_route_def)
next
  case True
  obtain r w where w: "flush0 v = (r, w)" by fastforce
  obtain d where d: "w = v\<lparr>v_io := d\<rparr>" "r = 0 \<longrightarrow> io_data d = io_data (v_io v) \<and> (\<forall>i. settled (os d) i)"
    using flush0_spec [OF assms(2) w] by blast
  show ?thesis
  proof (cases "r = 0")
    case r: True
    then have "u = w" "vol_quiet v u" using assms(8) True w d by (auto simp: vmux_defs)
    then show ?thesis
      using vol_quiet_view [of v u] assms(1,3) d r by (auto simp: vol_quiet_def)
  next
    case False
    define x where "x = w\<lparr>dev_skip0 := True, v_devt := (v_devt w)\<lparr>dt_sync_seq := sz (dt_sync_seq (v_devt w) + 1)\<rparr>\<rparr>"
    have x: "vol_write_devt x = (0, u)" using assms(8) True w False by (simp add: barrier_skip0_def x_def Let_def)
    have ok: "vol_ok x" using assms(1,4) d(1) by (simp add: x_def vol_ok_def mux_dev0_bytes_def)
    have wf: "devt_wf (v_devt x)" using assms(5) d(1) by (simp add: x_def devt_wf_def sz_def)
    have spec: "same_route x u" "strict_dev (v_io2 u)" "vol_ok u"
        "vol_data u = store_write (vol_data x) INVFS_DEVT_OFF (devt_bytes (devt_sealed (v_devt x)))"
        "v_devt u = devt_sealed (v_devt x)"
      using vol_write_devt_spec [OF ok _ _ wf _ x] assms(3,4,6) d(1) by (auto simp: x_def)
    have len: "length (devt_bytes (devt_sealed (v_devt x))) = 188"
      using length_devt_bytes [OF devt_sealed_wf [OF wf]] .
    have sk: "dev_skip0 u" "same_route v u" using spec(1) d(1) by (auto simp: x_def same_route_def)
    have "vol_data x i = vol_data v i" if "vol_live u i" for i
    proof -
      have "i < meta_end_bytes v \<or> mux_dev0_bytes v \<le> i"
        using that sk assms(4) by (auto simp: vol_live_def same_route_def mux_dev0_bytes_def split: if_splits)
      then show ?thesis
        using assms(1,4,7) True d(1) by (auto simp: vol_data_def vol_ok_def x_def mux_dev0_bytes_def)
    qed
    then have data: "vol_data u i = vol_data v i" if "vol_live u i" "\<not> devt_slot i" for i
      using that spec(4) len by (auto simp: store_write_split)
    have "store_read (vol_data u) INVFS_DEVT_OFF 188 = devt_bytes (v_devt u)"
      using spec(4,5) store_read_write_same len by metis
    moreover have "dt_sync_seq (v_devt u) = sz (dt_sync_seq (v_devt v) + 1)"
      using spec(5) d(1) by (simp add: devt_sealed_def Let_def x_def)
    ultimately show ?thesis using spec(2,3) sk data True by auto
  qed
qed

lemma vmux_barrier_spec:
  assumes "vol_ok v" "strict_dev (v_io v)" "strict_dev (v_io2 v)" "devt_wf (v_devt v)"
    and dual: "\<not> single v \<Longrightarrow> ndev v = 2 \<and> up1 v \<and> INVFS_DEVT_OFF + 188 \<le> meta_end_bytes v"
    and b: "vmux_barrier v = (rc, v')" "0 \<le> rc"
    and c: "crash_image (os (v_io v')) c0" "crash_image (os (v_io2 v')) c1"
  shows "vol_ok v' \<and> (\<forall>i. vol_live v' i \<longrightarrow> vol_view v' c0 c1 i = vol_data v' i
         \<and> (dev_skip0 v' = dev_skip0 v \<or> \<not> devt_slot i \<longrightarrow> vol_data v' i = vol_data v i))
    \<and> (single v \<or> rc = (if dev_skip0 v' then 1 else 0))
    \<and> (up0 v \<and> \<not> up0 v' \<longrightarrow> dt_sync_seq (v_devt v') = sz (dt_sync_seq (v_devt v) + 1)
         \<and> store_read (vol_data v') INVFS_DEVT_OFF 188 = devt_bytes (v_devt v'))"
proof (cases "single v")
  case True
  obtain r where r: "flush0 v = (r, v')" "r = 0" using b True by (auto simp: vmux_barrier_def split: prod.splits if_splits)
  obtain d where d: "v' = v\<lparr>v_io := d\<rparr>" "io_data d = io_data (v_io v)" "\<forall>i. settled (os d) i"
    using flush0_spec [OF assms(2) r(1)] r(2) by blast
  have q: "vol_quiet v v'" using d by (simp add: vmux_defs)
  have "vol_view v' c0 c1 i = vol_data v' i" if "vol_live v' i" for i
    by (rule vol_view_settled [OF that c]) (use d True in simp_all)
  then show ?thesis using vol_quiet_view [OF q] assms(1) d(1) True by simp blast
next
  case False
  note dual = dual [OF False]
  obtain r1 u where a: "(if up0 v then let (r, v) = flush0 v in if r \<noteq> 0 then barrier_skip0 v else (0, v) else (0, v)) = (r1, u)"
    by fastforce
  have r1: "r1 = 0" using b False a by (auto simp: vmux_barrier_def split: if_splits)
  have n2: "ndev v = 2" and u1: "up1 v" and fit: "INVFS_DEVT_OFF + 188 \<le> meta_end_bytes v" using dual by simp_all
  note u = barrier_first [OF assms(1-3) n2 assms(4) fit u1 a [unfolded r1]]
  have up1: "up1 u" using u u1 by (simp add: same_route_def)
  obtain r2 where w: "flush1 u = (r2, v')" "r2 = 0" "rc = (if dev_skip0 v' then 1 else 0)"
    using b False a r1 up1 by (auto simp: vmux_barrier_def split: prod.splits if_splits)
  obtain e where e: "v' = u\<lparr>v_io2 := e\<rparr>" "io_data e = io_data (v_io2 u)" "\<forall>i. settled (os e) i"
    using flush1_spec [OF _ w(1)] w(2) u by blast
  have q: "vol_quiet u v'" using e by (simp add: vmux_defs)
  have live: "vol_live v' i = vol_live u i" for i using e(1) by (simp add: vol_live_def mux_dev0_bytes_def)
  have ns: "\<not> single v'" using False e(1) u by (auto simp: same_route_def)
  have "vol_view v' c0 c1 i = vol_data v' i" if "vol_live v' i" for i
    by (rule vol_view_settled [OF that c]) (use u e ns in auto)
  then show ?thesis
    using vol_quiet_view [OF q] u e(1) w(3) live by simp
qed

lemma pwrite1_degraded:
  assumes "vol_ok v" "degraded v" "slice_ok v off (length bs)" "bs \<noteq> []" "vmux_pwrite1 v off bs = (rc, v')"
    and "i < meta_end_bytes v"
  shows "io_data (v_io v') i = io_data (v_io v) i \<and> io_data (v_io2 v') i = io_data (v_io2 v) i
    \<and> (off < meta_end_bytes v \<longrightarrow> rc = -1 \<and> v' = v)"
proof (cases "off < meta_end_bytes v")
  case True
  then show ?thesis using assms(2,5) by (simp add: vmux_pwrite1_def mirror_write_def)
next
  case False
  have in0: "vol_in v off" using assms(3,4) unfolding slice_ok_def by (metis add_0_right length_greater_0_conv)
  show ?thesis
  proof (cases "off < mux_dev0_bytes v")
    case True
    then show ?thesis
      using False assms(5,6) wr0_spec [of v off bs rc v'] by (auto simp: vmux_pwrite1_def split: if_splits)
  next
    case d1: False
    then have "i < off - mux_dev0_bytes v" using in0 assms(2,6) by (auto simp: vol_in_def)
    then show ?thesis
      using False d1 assms(5) wr1_spec [of v "off - mux_dev0_bytes v" bs rc v'] by (auto simp: vmux_pwrite1_def split: if_splits)
  qed
qed

lemma write_loop_degraded:
  "vol_ok v \<Longrightarrow> degraded v \<Longrightarrow> \<forall>j < length bs. vol_in v (off + j) \<Longrightarrow> mux_write_loop v off bs = (rc, v') \<Longrightarrow>
   i < meta_end_bytes v \<Longrightarrow>
   io_data (v_io v') i = io_data (v_io v) i \<and> io_data (v_io2 v') i = io_data (v_io2 v) i
   \<and> (off < meta_end_bytes v \<and> bs \<noteq> [] \<longrightarrow> rc = -1 \<and> v' = v)"
proof (induction v off bs arbitrary: rc v' rule: mux_write_loop.induct)
  case (1 v off bs)
  show ?case
  proof (cases "bs = []")
    case True
    then show ?thesis using "1.prems"(4) by (auto simp: mux_write_loop.simps)
  next
    case False
    define n where "n = mux_slice v off (length bs)"
    have n: "0 < n" "n \<le> length bs" using False mux_slice_pos mux_slice_le by (auto simp: n_def)
    have sl: "slice_ok v off (length (take n bs))" "take n bs \<noteq> []"
      using mux_slice_ok [OF "1.prems"(3)] n False by (simp_all add: n_def)
    obtain r v1 where p: "vmux_pwrite1 v off (take n bs) = (r, v1)" by fastforce
    note d = pwrite1_degraded [OF "1.prems"(1,2) sl p "1.prems"(5)]
    have step: "mux_write_loop v off bs = (if r \<noteq> 0 then (-1, v1) else mux_write_loop v1 (off + n) (drop n bs))"
      using False p by (subst mux_write_loop.simps) (simp add: n_def Let_def)
    show ?thesis
    proof (cases "r = 0")
      case True
      have w: "vol_wrote v off (take n bs) 0 v1"
        using vmux_pwrite1_spec [OF "1.prems"(1) _ sl p] True "1.prems"(2) by simp
      then have v1: "vol_ok v1" "degraded v1" "\<forall>j < length (drop n bs). vol_in v1 (off + n + j)" "i < meta_end_bytes v1"
        using "1.prems"(2,3,5) n(2) same_route_in [of v v1] by (auto simp: vol_wrote_def same_route_def add.assoc)
      have "mux_write_loop v1 (off + n) (drop n bs) = (rc, v')" using step True "1.prems"(4) by simp
      from "1.IH" [OF False n_def p [symmetric] refl _ v1(1-3) this v1(4)] True d
      show ?thesis by auto
    qed (use step d "1.prems"(4) in auto)
  qed
qed

section \<open>Properties\<close>

text \<open>C28. On a volume whose metadata copies agree, what a successful write stored is what every later read
  of the range returns, whichever device serves it and whatever happens to the other one, the copies
  still agree, and reads elsewhere return what was there; a write that fails has touched nothing
  outside its range.\<close>
theorem vmux_read_your_writes:
  assumes "vol_ok v" "\<forall>j < length bs. vol_in v (off + j)" "\<forall>j < n. vol_in v (o2 + j)"
    and "vmux_pwrite v off bs = (rc, v1)"
  shows "(rc = 0 \<and> vmux_pread v1 off (length bs) = (Some ys, v2) \<longrightarrow> ys = bs \<and> vol_ok v2)
    \<and> (rc = 0 \<and> vmux_pread v1 o2 n = (Some zs, v3) \<and> (o2 + n \<le> off \<or> off + length bs \<le> o2)
         \<longrightarrow> zs = store_read (vol_data v) o2 n)
    \<and> (\<forall>i. i < off \<or> off + length bs \<le> i \<longrightarrow> vol_data v1 i = vol_data v i)"
  using vm.vol_read_back [OF assms(1,2), of v1 ys v2] vm.vol_read_elsewhere [OF assms(1,2), of v1 o2 n zs v3]
    vm.wr_view [OF assms(1,2,4)] assms(3,4) by blast

definition demo_vol :: "vol_storage" where
  "demo_vol = \<lparr>v_io = demo_io False, v_io2 = demo_io False, io_open0 = True, io_open1 = True, ndev = 2, mux_pos = 0,
     dev0_blocks = 2, meta_end_bytes = 4096, degraded = False, dev_skip0 = False, dev_skip1 = False,
     metaread_logged = False, v_devt = devt_of (replicate 188 0), needs_recovery = False, io_latched = False,
     inode_area_pos = 0, inode_area_durable = 0\<rparr>"

lemma demo_vol_ok: "vol_ok demo_vol" "strict_dev (v_io demo_vol)" "strict_dev (v_io2 demo_vol)" "devt_wf (v_devt demo_vol)"
proof -
  have z: "fld off n (replicate m 0) = 0" for off n m by (simp add: fld_def bslice_def le_get_zeros)
  show "vol_ok demo_vol" by (simp add: vol_ok_def demo_vol_def mux_dev0_bytes_def)
  show "strict_dev (v_io demo_vol)" "strict_dev (v_io2 demo_vol)"
    using demo_io_ready by (simp_all add: strict_dev_def demo_vol_def)
  show "devt_wf (v_devt demo_vol)" by (simp add: demo_vol_def devt_of_def devt_wf_def z)
qed

lemma demo_vol_write: "fst (vmux_pwrite demo_vol 100 [1, 2, 3]) = 0"
proof -
  obtain d where w: "blkio_pwrite (demo_io False) 100 [1, 2, 3] = (0, d)"
    using blkio_pwrite_ok [OF demo_io_ready(1), of False 100 "[1, 2, 3]"] by (simp add: demo_io_def) (metis prod.collapse)
  have s: "mux_slice demo_vol 100 3 = 3" by (simp add: mux_slice_def demo_vol_def mux_dev0_bytes_def)
  obtain u where p: "vmux_pwrite1 demo_vol 100 [1, 2, 3] = (0, u)"
    by (simp add: vmux_pwrite1_def mirror_write_def wr0_def wr1_def demo_vol_def Let_def w)
  have "vmux_pwrite demo_vol 100 [1, 2, 3] = mux_write_loop demo_vol 100 [1, 2, 3]"
    by (simp add: vmux_pwrite_def demo_vol_def)
  then show ?thesis using mux_write_loop_one [OF _ _ p] s by (simp add: eval_nat_numeral)
qed

theorem vmux_read_your_writes_witness:
  "\<exists>v1. vmux_pwrite demo_vol 100 [1, 2, 3] = (0, v1)
     \<and> (\<forall>ys v2. vmux_pread v1 100 3 = (Some ys, v2) \<longrightarrow> ys = [1, 2, 3])"
proof -
  obtain v1 where w: "vmux_pwrite demo_vol 100 [1, 2, 3] = (0, v1)" using demo_vol_write by (metis prod.collapse)
  have i: "\<forall>j < length [1 :: u8, 2, 3]. vol_in demo_vol (100 + j)" "\<forall>j < (0 :: nat). vol_in demo_vol (0 + j)"
    by (auto simp: vol_in_def demo_vol_def mux_dev0_bytes_def)
  have "length [1 :: u8, 2, 3] = 3" by simp
  then show ?thesis using vmux_read_your_writes [OF demo_vol_ok(1) i w] w by metis
qed





end
