(* ===== verification/Volume.thy ===== *)
theory Volume
  imports Vmux DeltaIndex
begin

text \<open>
  The volume handle (\<^verbatim>\<open>src/core/volume_internal.h\<close>): the record holds the fields of the structure
  that the modelled components use, grouped by component, and the block
  device calls that every component makes through the multiplexer. It also holds the bitmap
  primitives, the write guards of \<^verbatim>\<open>volume.c\<close> and \<^verbatim>\<open>vol_crash.c\<close> and the persistence of the superblock
  and of the allocation bitmap. A pointer field that can be NULL is an option. The pointer to the
  volume itself is never NULL in the model.
\<close>

section \<open>The handle\<close>

record wp25_ent =
  we_key :: nat
  we_pba :: nat
  we_plen :: nat
  we_ord :: nat

record delta_staged_rec =
  sr_off :: nat
  sr_len :: nat
  sr_bytes :: "bytes option"
  sr_has_prev :: bool
  sr_prev :: delta_ref

record delta_retire_ent =
  re_key :: bytes
  re_del :: bool
  re_seg :: nat
  re_off :: nat
  re_seq :: nat
  re_recipe :: "bytes option"
  re_pbas :: "nat list"
  re_keep :: "nat list"

text \<open>The fields of the handle, grouped by the component that owns them: a zone's allocation state, the
  block space, the root descriptors, the delta log and the save-point pin.\<close>

record zone_state =
  z_cursor :: nat
  z_free :: nat
  z_fail_run :: nat

record vol_space =
  bitmap :: bytes
  bitmap_blocks :: nat
  z_raw :: zone_state
  z_shadow :: zone_state
  z_arena :: zone_state
  arena_start :: nat
  arena_blocks :: nat
  bm_lo :: nat
  bm_hi :: nat
  free_blocks :: nat
  seal_dirty :: "bytes option"
  meta_free_blocks :: nat
  meta_type_bitmap :: "bytes option"
  tier :: "wp25_ent list"
  rawm :: "wp25_ent list"
  tier_dirty :: bool
  rawm_dirty :: bool

record vol_root =
  v_rt :: invfs_rt
  rt_present :: bool
  anchor_state :: int
  anchor_adopted :: bool
  anchor_refresh_failed :: bool
  v_anchor :: invfs_anc0
  mb_boot_cursor :: nat
  mb_boot_end :: nat
  mb_alloc_cursor :: nat
  mb_alloc_fail_run :: nat

record vol_delta =
  d_index :: "delta_index option"
  d_seg_pba :: nat
  d_seg_gen :: nat
  d_bump :: nat
  d_seq :: nat
  d_records :: nat
  d_segments :: nat
  d_bytes :: nat
  d_ready :: bool
  d_pending :: nat
  d_pending_bytes :: nat
  d_group_max :: nat
  d_group_bytes :: nat
  d_staged :: "delta_staged_rec list"
  d_cstaged :: nat
  d_doomed :: nat
  d_rewrite_needed :: bool
  d_retire :: "delta_retire_ent list"
  d_cretire :: nat
  d_retire_dropped :: nat
  d_oldest_seq :: nat
  d_oldest_when :: nat
  d_locked :: bool

record vol_pin =
  retain_release :: bool
  v_spt0 :: invfs_spt0
  spn_bitmap :: "bytes option"
  spn_armed :: bool
  spn_nopin :: bool

record invfs_volume =
  st :: vol_storage
  sb :: invfs_superblock
  sp :: vol_space
  vroot :: vol_root
  dl :: vol_delta
  pin :: vol_pin
  v_dirty :: bool

text \<open>The device calls \<open>io_pread\<close>, \<open>io_pwrite\<close> and \<open>io_seek\<close> with \<open>io_write\<close>, all on the multiplexer,
  and the barrier.\<close>

definition io_pread :: "invfs_volume \<Rightarrow> nat \<Rightarrow> nat \<Rightarrow> bytes option \<times> invfs_volume" where
  "io_pread v off n = (let (r, s) = vmux_pread (st v) off n in (r, v\<lparr>st := s\<rparr>))"

definition io_pwrite :: "invfs_volume \<Rightarrow> nat \<Rightarrow> bytes \<Rightarrow> int \<times> invfs_volume" where
  "io_pwrite v off bs = (let (r, s) = vmux_pwrite (st v) off bs in (r, v\<lparr>st := s\<rparr>))"

definition io_seek_write :: "invfs_volume \<Rightarrow> nat \<Rightarrow> bytes \<Rightarrow> int \<times> invfs_volume" where
  "io_seek_write v off bs =
    (let (r, s) = vmux_seek (st v) off
     in if r \<noteq> 0 then (-1, v\<lparr>st := s\<rparr>)
        else let (r, s) = vmux_write s bs in (r, v\<lparr>st := s\<rparr>))"

definition v_barrier :: "invfs_volume \<Rightarrow> int \<times> invfs_volume" where
  "v_barrier v = (let (r, s) = vmux_barrier (st v) in (r, v\<lparr>st := s\<rparr>))"

section \<open>Bitmaps\<close>

definition bit_get :: "bytes \<Rightarrow> nat \<Rightarrow> bool" where
  "bit_get b i = (drop_bit (i mod 8) (b ! (i div 8)) AND 1 \<noteq> 0)"

definition bit_set :: "bytes \<Rightarrow> nat \<Rightarrow> bytes" where
  "bit_set b i = b[i div 8 := b ! (i div 8) OR push_bit (i mod 8) 1]"

definition bit_clr :: "bytes \<Rightarrow> nat \<Rightarrow> bytes" where
  "bit_clr b i = b[i div 8 := b ! (i div 8) AND NOT (push_bit (i mod 8) 1)]"

definition vol_bm_dirty :: "vol_space \<Rightarrow> nat \<Rightarrow> vol_space" where
  "vol_bm_dirty p i =
    (let byte = i div 8
     in if bm_lo p > bm_hi p then p\<lparr>bm_lo := byte, bm_hi := byte + 1\<rparr>
        else let p = (if byte < bm_lo p then p\<lparr>bm_lo := byte\<rparr> else p)
        in if byte + 1 > bm_hi p then p\<lparr>bm_hi := byte + 1\<rparr> else p)"

section \<open>Write guards and persistence of the superblock and the bitmap\<close>

definition VOLF_META :: u32 where "VOLF_META = 0x10"

definition INVFS_STATE_DIRTY :: nat where "INVFS_STATE_DIRTY = 0xDA"

definition vol_write_enabled :: "invfs_volume \<Rightarrow> bool" where
  "vol_write_enabled v =
    (if sb_vol_flags (sb v) AND VOLF_META \<noteq> 0
     then sb_vol_flags (sb v) AND VOLF_READONLY = 0 \<and> \<not> degraded (st v) \<and> \<not> io_latched (st v)
     else if needs_recovery (st v) then False
     else if degraded (st v) then False
     else sb_vol_flags (sb v) AND VOLF_READONLY = 0)"

definition vol_set_readonly :: "invfs_volume \<Rightarrow> bool \<Rightarrow> invfs_volume" where
  "vol_set_readonly v ro =
    (if ro then v\<lparr>sb := (sb v)\<lparr>sb_vol_flags := sb_vol_flags (sb v) OR VOLF_READONLY\<rparr>\<rparr>
     else v\<lparr>sb := (sb v)\<lparr>sb_vol_flags := sb_vol_flags (sb v) AND NOT (VOLF_READONLY OR VOLF_RO_SPACE)\<rparr>\<rparr>)"

definition vol_write_sb :: "invfs_volume \<Rightarrow> int \<times> invfs_volume" where
  "vol_write_sb v =
    (let v = v\<lparr>sb := (sb v)\<lparr>sb_checksum := invfs_crc32c (take 0x7C (sb_bytes (sb v)))\<rparr>\<rparr>;
         (r, v) = io_seek_write v 0 (sb_bytes (sb v))
     in (if r \<noteq> 0 then -1 else 0, v))"

definition vol_mark_dirty :: "invfs_volume \<Rightarrow> int \<times> invfs_volume" where
  "vol_mark_dirty v =
    (if \<not> vol_write_enabled v then (-1, v)
     else if v_dirty v then (0, v)
     else let v = v\<lparr>sb := (sb v)\<lparr>sb_state := INVFS_STATE_DIRTY\<rparr>\<rparr>;
              (r, v) = vol_write_sb v
     in if r \<noteq> 0 then (-1, v) else (0, v\<lparr>v_dirty := True\<rparr>))"

definition vol_bitmap_flush :: "invfs_volume \<Rightarrow> int \<times> invfs_volume" where
  "vol_bitmap_flush v =
    (let bm_bytes = bitmap_blocks (sp v) * 4096; base = sb_metadata_zone_start (sb v) * 4096
     in if bm_lo (sp v) > bm_hi (sp v) then (0, v)
        else let lo = bm_lo (sp v); hi = bm_hi (sp v);
                 hi = (if hi > bm_bytes then bm_bytes else hi);
                 lo = lo - lo mod 4096;
                 hi = ((hi + 4095) div 4096) * 4096;
                 hi = (if hi > bm_bytes then bm_bytes else hi);
                 (r, v) = (if hi > lo then io_seek_write v (base + lo) (bslice lo (hi - lo) (bitmap (sp v))) else (0, v))
        in if r \<noteq> 0 then (-1, v) else (0, v\<lparr>sp := (sp v)\<lparr>bm_lo := 1, bm_hi := 0\<rparr>\<rparr>))"

section \<open>Lemmas\<close>

lemma bit_get_iff: "bit_get b i \<longleftrightarrow> bit (b ! (i div 8)) (i mod 8)"
  by (simp add: bit_get_def bit_iff_odd_drop_bit and_one_eq odd_iff_mod_2_eq_one)

lemma length_bit_set [simp]: "length (bit_set b i) = length b"
  by (simp add: bit_set_def)

lemma length_bit_clr [simp]: "length (bit_clr b i) = length b"
  by (simp add: bit_clr_def)

lemma same_bit: "i div 8 = j div 8 \<Longrightarrow> i mod 8 = j mod 8 \<Longrightarrow> i = (j :: nat)"
  by (metis div_mult_mod_eq)

lemma bit_one_u8: "bit ((2 :: u8) ^ (i mod 8)) (j mod 8) \<longleftrightarrow> i mod 8 = j mod 8"
  by (auto simp: bit_exp_iff)

lemma bit_get_set: "i div 8 < length b \<Longrightarrow> bit_get (bit_set b i) j \<longleftrightarrow> j = i \<or> bit_get b j"
  by (cases "i div 8 = j div 8")
     (auto simp: bit_get_iff bit_set_def bit_or_iff bit_one_u8 nth_list_update dest: same_bit)

lemma bit_get_clr: "i div 8 < length b \<Longrightarrow> bit_get (bit_clr b i) j \<longleftrightarrow> j \<noteq> i \<and> bit_get b j"
  by (cases "i div 8 = j div 8")
     (auto simp: bit_get_iff bit_clr_def bit_and_iff bit_not_iff bit_one_u8 nth_list_update dest: same_bit)

text \<open>A range of bits set or cleared.\<close>

definition bits_set :: "bytes \<Rightarrow> nat \<Rightarrow> nat \<Rightarrow> bytes" where
  "bits_set b lo hi = foldl bit_set b [lo..<hi]"

definition bits_clr :: "bytes \<Rightarrow> nat \<Rightarrow> nat \<Rightarrow> bytes" where
  "bits_clr b lo hi = foldl bit_clr b [lo..<hi]"

lemma length_bits_set [simp]: "length (bits_set b lo hi) = length b"
proof -
  have "length (foldl bit_set b xs) = length b" for xs by (induction xs arbitrary: b) auto
  then show ?thesis by (simp add: bits_set_def)
qed

lemma length_bits_clr [simp]: "length (bits_clr b lo hi) = length b"
proof -
  have "length (foldl bit_clr b xs) = length b" for xs by (induction xs arbitrary: b) auto
  then show ?thesis by (simp add: bits_clr_def)
qed

lemma bits_set_Suc: "lo \<le> hi \<Longrightarrow> bits_set b lo (Suc hi) = bit_set (bits_set b lo hi) hi"
  by (simp add: bits_set_def)

lemma bits_clr_Suc: "lo \<le> hi \<Longrightarrow> bits_clr b lo (Suc hi) = bit_clr (bits_clr b lo hi) hi"
  by (simp add: bits_clr_def)

lemma bit_get_bits_set: "hi \<le> 8 * length b \<Longrightarrow> bit_get (bits_set b lo hi) j \<longleftrightarrow> lo \<le> j \<and> j < hi \<or> bit_get b j"
proof (induction hi)
  case (Suc hi)
  show ?case
  proof (cases "lo \<le> hi")
    case True
    have "hi div 8 < length (bits_set b lo hi)" using Suc.prems by simp
    then show ?thesis using Suc True by (auto simp: bits_set_Suc bit_get_set)
  qed (auto simp: bits_set_def)
qed (simp add: bits_set_def)

lemma bit_get_bits_clr: "hi \<le> 8 * length b \<Longrightarrow> bit_get (bits_clr b lo hi) j \<longleftrightarrow> \<not> (lo \<le> j \<and> j < hi) \<and> bit_get b j"
proof (induction hi)
  case (Suc hi)
  show ?case
  proof (cases "lo \<le> hi")
    case True
    have "hi div 8 < length (bits_clr b lo hi)" using Suc.prems by simp
    then show ?thesis using Suc True by (auto simp: bits_clr_Suc bit_get_clr)
  qed (auto simp: bits_clr_def)
qed (simp add: bits_clr_def)

lemma bits_set_byte: "j < lo div 8 \<or> hi \<le> 8 * j \<Longrightarrow> bits_set b lo hi ! j = b ! j"
proof (induction hi)
  case (Suc hi)
  show ?case
  proof (cases "lo \<le> hi")
    case True
    then have "hi div 8 \<noteq> j" using Suc.prems by auto
    then show ?thesis using Suc True by (auto simp: bits_set_Suc bit_set_def)
  qed (simp add: bits_set_def)
qed (simp add: bits_set_def)

lemma bits_clr_byte: "j < lo div 8 \<or> hi \<le> 8 * j \<Longrightarrow> bits_clr b lo hi ! j = b ! j"
proof (induction hi)
  case (Suc hi)
  show ?case
  proof (cases "lo \<le> hi")
    case True
    then have "hi div 8 \<noteq> j" using Suc.prems by auto
    then show ?thesis using Suc True by (auto simp: bits_clr_Suc bit_clr_def)
  qed (simp add: bits_clr_def)
qed (simp add: bits_clr_def)

section \<open>The device calls on the volume\<close>

abbreviation vdata :: "invfs_volume \<Rightarrow> store" where "vdata v \<equiv> vol_data (st v)"

abbreviation vok :: "invfs_volume \<Rightarrow> bool" where "vok v \<equiv> vol_ok (st v)"

abbreviation vin :: "invfs_volume \<Rightarrow> nat \<Rightarrow> bool" where "vin v \<equiv> vol_in (st v)"

abbreviation vin_range :: "invfs_volume \<Rightarrow> nat \<Rightarrow> nat \<Rightarrow> bool" where
  "vin_range v off n \<equiv> \<forall>j < n. vin v (off + j)"

interpretation vol: byte_volume "\<lambda>v. vol_data (st v)" "\<lambda>v. vol_ok (st v)" "\<lambda>v. vol_in (st v)" io_pread io_pwrite
proof
  fix s s' :: invfs_volume and off n r
  assume a: "vol_ok (st s)" "\<forall>j < n. vol_in (st s) (off + j)" "io_pread s off n = (r, s')"
  obtain u where u: "vmux_pread (st s) off n = (r, u)" "s' = s\<lparr>st := u\<rparr>"
    using a(3) by (auto simp: io_pread_def split: prod.splits)
  show "vol_ok (st s') \<and> vol_data (st s') = vol_data (st s) \<and> vol_in (st s') = vol_in (st s)
      \<and> (\<forall>bs. r = Some bs \<longrightarrow> bs = store_read (vol_data (st s)) off n)"
    using vm.rd_view [OF a(1,2) u(1)] u(2) by simp
next
  fix s s' :: invfs_volume and off bs rc
  assume a: "vol_ok (st s)" "\<forall>j < length bs. vol_in (st s) (off + j)" "io_pwrite s off bs = (rc, s')"
  obtain u where u: "vmux_pwrite (st s) off bs = (rc, u)" "s' = s\<lparr>st := u\<rparr>"
    using a(3) by (auto simp: io_pwrite_def split: prod.splits)
  show "vol_in (st s') = vol_in (st s) \<and> (rc = 0 \<longrightarrow> vol_ok (st s') \<and> vol_data (st s') = store_write (vol_data (st s)) off bs)
      \<and> (\<forall>i. i < off \<or> off + length bs \<le> i \<longrightarrow> vol_data (st s') i = vol_data (st s) i)"
    using vm.wr_view [OF a(1,2) u(1)] u(2) by simp
qed

lemma io_pread_frame: "io_pread v off n = (r, v') \<Longrightarrow> v' = v\<lparr>st := st v'\<rparr>"
  by (auto simp: io_pread_def split: prod.splits)

lemma io_pwrite_frame: "io_pwrite v off bs = (r, v') \<Longrightarrow> v' = v\<lparr>st := st v'\<rparr>"
  by (auto simp: io_pwrite_def split: prod.splits)

lemma io_seek_write_spec:
  assumes "vok v" "vin_range v off (length bs)" "io_seek_write v off bs = (rc, v')"
  shows "v' = v\<lparr>st := st v'\<rparr> \<and> vol_wrote (st v) off bs rc (st v')"
proof -
  obtain s1 where s1: "vmux_pwrite ((st v)\<lparr>mux_pos := off\<rparr>) off bs = (rc, s1)"
    "v' = v\<lparr>st := (if rc = 0 then s1\<lparr>mux_pos := sz (off + length bs)\<rparr> else s1)\<rparr>"
    using assms(3) by (auto simp: io_seek_write_def vmux_seek_def vmux_write_def Let_def split: prod.splits)
  have "vol_wrote ((st v)\<lparr>mux_pos := off\<rparr>) off bs rc s1"
    using vmux_pwrite_spec [OF _ _ s1(1)] assms(1,2) by simp
  then show ?thesis using s1(2) by (auto simp: vol_wrote_def same_route_def)
qed

text \<open>The dirty range of the bitmap: every byte outside it is on the device as it is in memory.\<close>

definition bm_base :: "invfs_volume \<Rightarrow> nat" where
  "bm_base v = sb_metadata_zone_start (sb v) * 4096"

definition bm_synced :: "invfs_volume \<Rightarrow> bool" where
  "bm_synced v \<longleftrightarrow> length (bitmap (sp v)) = bitmap_blocks (sp v) * 4096 \<and>
     (\<forall>j < length (bitmap (sp v)). \<not> (bm_lo (sp v) \<le> j \<and> j < bm_hi (sp v)) \<longrightarrow> vdata v (bm_base v + j) = bitmap (sp v) ! j)"

lemma vol_bm_dirty_eq:
  "vol_bm_dirty p i =
     p\<lparr>bm_lo := (if bm_lo p > bm_hi p then i div 8 else min (bm_lo p) (i div 8)),
       bm_hi := (if bm_lo p > bm_hi p then i div 8 + 1 else max (bm_hi p) (i div 8 + 1))\<rparr>"
  by (cases "bm_lo p > bm_hi p"; cases "i div 8 < bm_lo p"; cases "i div 8 + 1 > bm_hi p")
     (simp_all add: vol_bm_dirty_def Let_def min_def max_def)

lemma bm_dirty_cover:
  assumes "bm_lo q = bm_lo (vol_bm_dirty (vol_bm_dirty p a) b)" "bm_hi q = bm_hi (vol_bm_dirty (vol_bm_dirty p a) b)"
    and "a \<le> b" "a div 8 \<le> j \<and> j \<le> b div 8 \<or> bm_lo p \<le> j \<and> j < bm_hi p"
  shows "bm_lo q \<le> j \<and> j < bm_hi q"
  using assms(4) div_le_mono [OF assms(3), of 8] unfolding assms(1,2) vol_bm_dirty_eq by (auto simp: min_def max_def)

lemma bm_range:
  assumes "lo < hi" "hi \<le> B * 4096"
  shows "lo - lo mod 4096 \<le> lo" "hi \<le> (hi + 4095) div 4096 * 4096" "(hi + 4095) div 4096 * 4096 \<le> B * (4096 :: nat)"
proof -
  have "(hi + 4095) div 4096 \<le> (B * 4096 + 4095) div 4096" using assms(2) by (intro div_le_mono) simp
  then show "(hi + 4095) div 4096 * 4096 \<le> B * (4096 :: nat)" by simp
  have "(hi + 4095) mod 4096 < 4096" "(hi + 4095) div 4096 * 4096 + (hi + 4095) mod 4096 = hi + 4095" by simp_all
  then show "hi \<le> (hi + 4095) div 4096 * 4096" by linarith
qed simp

text \<open>The range written back: whole blocks that cover every dirty byte of the bitmap.\<close>

definition bm_lo_blk :: "invfs_volume \<Rightarrow> nat" where
  "bm_lo_blk v = bm_lo (sp v) - bm_lo (sp v) mod 4096"

definition bm_hi_blk :: "invfs_volume \<Rightarrow> nat" where
  "bm_hi_blk v = min ((min (bm_hi (sp v)) (bitmap_blocks (sp v) * 4096) + 4095) div 4096 * 4096) (bitmap_blocks (sp v) * 4096)"

lemma bm_blk_cover:
  "j < bitmap_blocks (sp v) * 4096 \<Longrightarrow> bm_lo (sp v) \<le> j \<Longrightarrow> j < bm_hi (sp v) \<Longrightarrow> bm_lo_blk v \<le> j \<and> j < bm_hi_blk v"
  using bm_range [of j "min (bm_hi (sp v)) (bitmap_blocks (sp v) * 4096)" "bitmap_blocks (sp v)"]
  by (auto simp: bm_lo_blk_def bm_hi_blk_def)

lemma vol_bitmap_flush_eq:
  "vol_bitmap_flush v =
    (if bm_lo (sp v) > bm_hi (sp v) then (0, v)
     else let (r, w) = (if bm_hi_blk v > bm_lo_blk v
              then io_seek_write v (bm_base v + bm_lo_blk v) (bslice (bm_lo_blk v) (bm_hi_blk v - bm_lo_blk v) (bitmap (sp v)))
              else (0, v))
          in if r \<noteq> 0 then (-1, w) else (0, w\<lparr>sp := (sp w)\<lparr>bm_lo := 1, bm_hi := 0\<rparr>\<rparr>))"
proof -
  have m: "(if a > b then b else a) = min a b" for a b :: nat by auto
  show ?thesis by (simp only: vol_bitmap_flush_def Let_def bm_lo_blk_def bm_hi_blk_def bm_base_def m)
qed

lemma vol_bitmap_flush_spec:
  assumes "vok v" "bm_synced v" "vin_range v (bm_base v) (length (bitmap (sp v)))" "vol_bitmap_flush v = (rc, v')"
  shows "(rc = 0 \<longrightarrow> vok v' \<and> store_read (vdata v') (bm_base v) (length (bitmap (sp v))) = bitmap (sp v) \<and> bm_lo (sp v') > bm_hi (sp v'))
    \<and> (\<forall>i. i < bm_base v \<or> bm_base v + length (bitmap (sp v)) \<le> i \<longrightarrow> vdata v' i = vdata v i)
    \<and> v' = v\<lparr>st := st v', sp := (sp v)\<lparr>bm_lo := bm_lo (sp v'), bm_hi := bm_hi (sp v')\<rparr>\<rparr> \<and> vin v' = vin v"
proof (cases "bm_lo (sp v) > bm_hi (sp v)")
  case True
  then have "store_read (vdata v) (bm_base v) (length (bitmap (sp v))) = bitmap (sp v)"
    using assms(2) by (intro nth_equalityI) (auto simp: bm_synced_def)
  then show ?thesis using True assms(1,4) by (auto simp: vol_bitmap_flush_eq)
next
  case False
  let ?lo = "bm_lo_blk v" and ?hi = "bm_hi_blk v"
  have len: "length (bitmap (sp v)) = bitmap_blocks (sp v) * 4096" using assms(2) by (simp add: bm_synced_def)
  have hi: "?hi \<le> length (bitmap (sp v))" by (simp add: bm_hi_blk_def len)
  have clean: "vdata v (bm_base v + j) = bitmap (sp v) ! j" if "j < length (bitmap (sp v))" "\<not> (?lo \<le> j \<and> j < ?hi)" for j
    using assms(2) that bm_blk_cover [of j v] by (auto simp: bm_synced_def)
  show ?thesis
  proof (cases "?hi > ?lo")
    case True
    let ?bs = "bslice ?lo (?hi - ?lo) (bitmap (sp v))"
    have lb: "length ?bs = ?hi - ?lo" using hi by (simp add: length_bslice)
    have bj: "?bs ! k = bitmap (sp v) ! (?lo + k)" if "k < ?hi - ?lo" for k
      using that hi by (simp add: bslice_def)
    obtain r w where w: "io_seek_write v (bm_base v + ?lo) ?bs = (r, w)" by fastforce
    have inr: "vin_range v (bm_base v + ?lo) (length ?bs)"
      using assms(3) hi lb by (auto simp: add.assoc)
    note spec = io_seek_write_spec [OF assms(1) inr w]
    have out: "(rc, v') = (if r \<noteq> 0 then (-1, w) else (0, w\<lparr>sp := (sp w)\<lparr>bm_lo := 1, bm_hi := 0\<rparr>\<rparr>))"
      using assms(4) False True w by (simp add: vol_bitmap_flush_eq)
    have "store_read (vdata w) (bm_base v) (length (bitmap (sp v))) = bitmap (sp v)" if "r = 0"
    proof (rule nth_equalityI)
      fix j assume "j < length (store_read (vdata w) (bm_base v) (length (bitmap (sp v))))"
      then have j: "j < length (bitmap (sp v))" by simp
      have d: "vdata w = store_write (vdata v) (bm_base v + ?lo) ?bs" using spec that by (simp add: vol_wrote_def)
      show "store_read (vdata w) (bm_base v) (length (bitmap (sp v))) ! j = bitmap (sp v) ! j"
        using clean [OF j] j bj [of "j - ?lo"] lb by (auto simp: d store_write_split nth_store_read)
    qed simp
    moreover have "vin w = vin v" using spec same_route_in [of "st v" "st w"] by (auto simp: vol_wrote_def)
    moreover have "vdata w i = vdata v i" if "i < bm_base v \<or> bm_base v + length (bitmap (sp v)) \<le> i" for i
      using spec that hi lb True by (auto simp: vol_wrote_def)
    moreover have "sp w = sp v" using arg_cong [OF conjunct1 [OF spec], of sp] by simp
    ultimately show ?thesis using spec out by (cases "r = 0") (auto simp: vol_wrote_def)
  next
    case none: False
    then have "v' = v\<lparr>sp := (sp v)\<lparr>bm_lo := 1, bm_hi := 0\<rparr>\<rparr>" "rc = 0" using assms(4) False by (simp_all add: vol_bitmap_flush_eq)
    moreover have "store_read (vdata v) (bm_base v) (length (bitmap (sp v))) = bitmap (sp v)"
      using clean none by (intro nth_equalityI) auto
    ultimately show ?thesis using assms(1) by simp
  qed
qed

end
