(* ===== verification/TierIndex.thy ===== *)
theory TierIndex
  imports Volume
begin

text \<open>
  The second-copy indexes of a two-device volume (\<^verbatim>\<open>src/core/vol_tier.c\<close>, the functions \<open>wp25_*\<close>): two
  arrays of entries sorted by key, searched by bisection. An index is a list with a capacity; the
  outcome of \<open>realloc\<close> is a parameter. The lemmas show that the array refines a finite map.
\<close>

section \<open>Operations\<close>

function wp25_bisect :: "wp25_ent list \<Rightarrow> nat \<Rightarrow> nat \<Rightarrow> nat \<Rightarrow> nat" where
  "wp25_bisect t key lo hi =
    (if lo < hi
     then let mid = lo + (hi - lo) div 2
          in if we_key (t ! mid) < key then wp25_bisect t key (mid + 1) hi else wp25_bisect t key lo mid
     else lo)"
  by auto
termination by (relation "measure (\<lambda>(t, key, lo, hi). hi - lo)") auto

declare wp25_bisect.simps [simp del]

definition wp25_lower :: "wp25_ent list \<Rightarrow> nat \<Rightarrow> nat \<times> bool" where
  "wp25_lower t key = (let lo = wp25_bisect t key 0 (length t) in (lo, lo < length t \<and> we_key (t ! lo) = key))"

definition wp25_put :: "bool \<Rightarrow> wp25_ent list \<Rightarrow> nat \<Rightarrow> wp25_ent \<Rightarrow> int \<times> wp25_ent list \<times> nat" where
  "wp25_put alloc t c e =
    (let (ps, found) = wp25_lower t (we_key e)
     in if found then (0, t[ps := (t ! ps)\<lparr>we_pba := we_pba e, we_plen := we_plen e, we_ord := we_ord e\<rparr>], c)
        else if length t = c \<and> \<not> alloc then (-1, t, c)
        else let c = (if length t = c then (if c \<noteq> 0 then c * 2 else 64) else c)
        in (0, take ps t @ e # drop ps t, c))"

definition wp25_del :: "wp25_ent list \<Rightarrow> nat \<Rightarrow> int \<times> wp25_ent list" where
  "wp25_del t key =
    (let (ps, found) = wp25_lower t key
     in if \<not> found then (0, t) else (1, take ps t @ drop (ps + 1) t))"

definition wp25_get :: "wp25_ent list \<Rightarrow> nat \<Rightarrow> wp25_ent option" where
  "wp25_get t key = (let (ps, found) = wp25_lower t key in if found then Some (t ! ps) else None)"

definition wp25_tier_lookup :: "invfs_volume \<Rightarrow> nat \<Rightarrow> (nat \<times> nat) option" where
  "wp25_tier_lookup v cpba = map_option (\<lambda>e. (we_pba e, we_plen e)) (wp25_get (tier (sp v)) cpba)"

definition wp25_rawm_lookup :: "invfs_volume \<Rightarrow> nat \<Rightarrow> (nat \<times> nat) option" where
  "wp25_rawm_lookup v raw_pba = map_option (\<lambda>e. (we_pba e, we_plen e)) (wp25_get (rawm (sp v)) raw_pba)"

section \<open>Refinement of a finite map\<close>

definition wp25_sorted :: "wp25_ent list \<Rightarrow> bool" where
  "wp25_sorted t \<longleftrightarrow> sorted_wrt (\<lambda>a b. we_key a < we_key b) t"

definition wp25_map :: "wp25_ent list \<Rightarrow> nat \<Rightarrow> wp25_ent option" where
  "wp25_map t k = find (\<lambda>e. we_key e = k) t"

lemma sorted_key_less: "wp25_sorted t \<Longrightarrow> i < j \<Longrightarrow> j < length t \<Longrightarrow> we_key (t ! i) < we_key (t ! j)"
  by (simp add: wp25_sorted_def sorted_wrt_iff_nth_less)

lemma wp25_bisect_spec:
  "wp25_sorted t \<Longrightarrow> lo \<le> hi \<Longrightarrow> hi \<le> length t \<Longrightarrow> \<forall>i < lo. we_key (t ! i) < key \<Longrightarrow>
   \<forall>i. hi \<le> i \<and> i < length t \<longrightarrow> key \<le> we_key (t ! i) \<Longrightarrow>
   wp25_bisect t key lo hi \<le> length t \<and> (\<forall>i < wp25_bisect t key lo hi. we_key (t ! i) < key)
   \<and> (\<forall>i. wp25_bisect t key lo hi \<le> i \<and> i < length t \<longrightarrow> key \<le> we_key (t ! i))"
proof (induction t key lo hi rule: wp25_bisect.induct)
  case (1 t key lo hi)
  show ?case
  proof (cases "lo < hi")
    case True
    define mid where "mid = lo + (hi - lo) div 2"
    have mid: "lo \<le> mid" "mid < hi" using True by (auto simp: mid_def)
    show ?thesis
    proof (cases "we_key (t ! mid) < key")
      case less: True
      have "we_key (t ! i) < key" if "i < mid + 1" for i
        using that less sorted_key_less [OF "1.prems"(1), of i mid] mid "1.prems"(3) by (cases "i = mid") auto
      then have lt: "\<forall>i < mid + 1. we_key (t ! i) < key" by blast
      have eq: "wp25_bisect t key lo hi = wp25_bisect t key (mid + 1) hi"
        using True less by (subst wp25_bisect.simps) (simp add: mid_def Let_def)
      show ?thesis unfolding eq
        by (rule "1.IH"(1) [OF True mid_def less "1.prems"(1) _ "1.prems"(3) lt "1.prems"(5)]) (use mid in simp)
    next
      case ge: False
      have "key \<le> we_key (t ! i)" if "mid \<le> i" "i < length t" for i
        using that ge sorted_key_less [OF "1.prems"(1), of mid i] by (cases "i = mid") auto
      then have le: "\<forall>i. mid \<le> i \<and> i < length t \<longrightarrow> key \<le> we_key (t ! i)" by blast
      have eq: "wp25_bisect t key lo hi = wp25_bisect t key lo mid"
        using True ge by (subst wp25_bisect.simps) (simp add: mid_def Let_def)
      show ?thesis unfolding eq
        by (rule "1.IH"(2) [OF True mid_def ge "1.prems"(1) mid(1) _ "1.prems"(4) le]) (use mid "1.prems"(3) in simp)
    qed
  next
    case False
    then have "wp25_bisect t key lo hi = lo" by (simp add: wp25_bisect.simps)
    then show ?thesis using "1.prems" False by auto
  qed
qed

text \<open>The search splits the array at the key.\<close>

lemma wp25_lower_split:
  assumes "wp25_sorted t" "wp25_lower t key = (ps, found)"
  shows "ps \<le> length t \<and> (\<forall>e \<in> set (take ps t). we_key e < key) \<and>
    (if found then ps < length t \<and> we_key (t ! ps) = key \<and> (\<forall>e \<in> set (drop (Suc ps) t). key < we_key e)
     else (\<forall>e \<in> set (drop ps t). key < we_key e))"
proof -
  define p where "p = wp25_bisect t key 0 (length t)"
  have ps: "ps = p" and found: "found = (p < length t \<and> we_key (t ! p) = key)"
    using assms(2) by (auto simp: wp25_lower_def p_def Let_def)
  have sp: "p \<le> length t" "\<And>i. i < p \<Longrightarrow> we_key (t ! i) < key" "\<And>i. p \<le> i \<Longrightarrow> i < length t \<Longrightarrow> key \<le> we_key (t ! i)"
    using wp25_bisect_spec [OF assms(1), of 0 "length t" key] by (auto simp: p_def)
  have a: "\<forall>e \<in> set (take p t). we_key e < key" using sp(1,2) by (auto simp: in_set_conv_nth)
  have later: "key < we_key (t ! i)" if "p < i" "i < length t" for i
    using sorted_key_less [OF assms(1) that] sp(3) [of p] that by auto
  have b: "\<forall>e \<in> set (drop (Suc p) t). key < we_key e" using later by (auto simp: in_set_conv_nth)
  have c: "\<forall>e \<in> set (drop p t). key < we_key e" if "\<not> found"
  proof
    fix e assume "e \<in> set (drop p t)"
    then obtain i where i: "i < length t - p" "e = t ! (p + i)" by (auto simp: in_set_conv_nth)
    show "key < we_key e" using i later [of "p + i"] sp(3) [of p] that found by (cases "i = 0") auto
  qed
  show ?thesis using sp(1) a b c found ps by auto
qed

lemma find_above: "\<forall>e \<in> set t. we_key e \<noteq> k \<Longrightarrow> find (\<lambda>e. we_key e = k) t = None"
  by (induction t) auto

lemma wp25_map_append: "wp25_map (xs @ ys) k = (case wp25_map xs k of None \<Rightarrow> wp25_map ys k | Some e \<Rightarrow> Some e)"
  by (induction xs) (auto simp: wp25_map_def)

lemma wp25_map_None: "\<forall>e \<in> set t. we_key e \<noteq> k \<Longrightarrow> wp25_map t k = None"
  unfolding wp25_map_def by (rule find_above)

lemma wp25_get_map: "wp25_sorted t \<Longrightarrow> wp25_get t k = wp25_map t k"
proof -
  assume s: "wp25_sorted t"
  obtain ps found where l: "wp25_lower t k = (ps, found)" by fastforce
  note sp = wp25_lower_split [OF s l]
  have t: "t = take ps t @ drop ps t" by simp
  have no: "wp25_map (take ps t) k = None" using sp by (intro wp25_map_None) auto
  show ?thesis
  proof (cases found)
    case True
    have d: "drop ps t = t ! ps # drop (Suc ps) t" using True sp by (simp add: Cons_nth_drop_Suc)
    have "wp25_map t k = Some (t ! ps)"
      by (subst t) (use no True sp in \<open>simp add: wp25_map_append d, simp add: wp25_map_def\<close>)
    then show ?thesis using l True by (simp add: wp25_get_def)
  next
    case False
    have "wp25_map (drop ps t) k = None" using False sp by (intro wp25_map_None) auto
    then have "wp25_map t k = None" using wp25_map_append [of "take ps t" "drop ps t" k] no by simp
    then show ?thesis using l False by (simp add: wp25_get_def)
  qed
qed

lemma wp25_sorted_append:
  "wp25_sorted (xs @ ys) \<longleftrightarrow> wp25_sorted xs \<and> wp25_sorted ys \<and> (\<forall>a \<in> set xs. \<forall>b \<in> set ys. we_key a < we_key b)"
  by (auto simp: wp25_sorted_def sorted_wrt_append)

lemma wp25_sorted_Cons: "wp25_sorted (e # ys) \<longleftrightarrow> wp25_sorted ys \<and> (\<forall>b \<in> set ys. we_key e < we_key b)"
  by (auto simp: wp25_sorted_def)

lemma wp25_map_Cons: "wp25_map (e # ys) k = (if we_key e = k then Some e else wp25_map ys k)"
  by (simp add: wp25_map_def)

lemma wp25_del_spec:
  assumes "wp25_sorted t" "wp25_del t k = (rc, t')"
  shows "wp25_sorted t' \<and> wp25_map t' = (wp25_map t)(k := None) \<and> rc = (if wp25_map t k = None then 0 else 1)
    \<and> set t' = {e \<in> set t. we_key e \<noteq> k}"
proof -
  obtain ps found where l: "wp25_lower t k = (ps, found)" by fastforce
  note sp = wp25_lower_split [OF assms(1) l]
  define xs where "xs = take ps t"
  define ys where "ys = drop (if found then Suc ps else ps) t"
  have no: "\<forall>e \<in> set xs. we_key e \<noteq> k" "\<forall>e \<in> set ys. we_key e \<noteq> k" using sp by (auto simp: xs_def ys_def)
  have t: "t = xs @ (if found then [t ! ps] else []) @ ys"
    using sp Cons_nth_drop_Suc [of ps t] by (auto simp: xs_def ys_def)
  have t': "t' = xs @ ys" "rc = (if found then 1 else 0)"
    using assms(2) l by (auto simp: wp25_del_def xs_def ys_def split: if_splits)
  have fk: "found \<Longrightarrow> we_key (t ! ps) = k" using sp by simp
  have m: "wp25_map t j = (if found \<and> j = k then Some (t ! ps) else wp25_map (xs @ ys) j)" for j
    using no fk by (subst t) (auto simp: wp25_map_append wp25_map_Cons wp25_map_None split: option.splits)
  have nk: "wp25_map (xs @ ys) k = None" using no by (simp add: wp25_map_append wp25_map_None)
  have so: "wp25_sorted (xs @ ys)"
    using assms(1) by (subst (asm) t) (auto simp: wp25_sorted_append wp25_sorted_Cons split: if_splits)
  have "set t = set xs \<union> (if found then {t ! ps} else {}) \<union> set ys" by (subst t) auto
  then have se: "set (xs @ ys) = {e \<in> set t. we_key e \<noteq> k}" using no fk by auto
  show ?thesis using so m nk se t' by (auto simp: fun_eq_iff)
qed

lemma wp25_put_spec:
  assumes "wp25_sorted t" "wp25_put alloc t c e = (rc, t', c')" "length t \<le> c"
  shows "wp25_sorted t' \<and> length t' \<le> c' \<and>
    (rc = 0 \<and> wp25_map t' = (wp25_map t)(we_key e \<mapsto> e) \<or>
     rc = -1 \<and> \<not> alloc \<and> length t = c \<and> t' = t \<and> wp25_map t (we_key e) = None)"
proof -
  obtain ps found where l: "wp25_lower t (we_key e) = (ps, found)" by fastforce
  note sp = wp25_lower_split [OF assms(1) l]
  define xs where "xs = take ps t"
  define ys where "ys = drop (if found then Suc ps else ps) t"
  have no: "\<forall>a \<in> set xs. we_key a < we_key e" "\<forall>a \<in> set ys. we_key e < we_key a" using sp by (auto simp: xs_def ys_def)
  have ne: "\<forall>a \<in> set xs. we_key a \<noteq> we_key e" "\<forall>a \<in> set ys. we_key a \<noteq> we_key e" using no by auto
  have t: "t = xs @ (if found then [t ! ps] else []) @ ys"
    using sp Cons_nth_drop_Suc [of ps t] by (auto simp: xs_def ys_def)
  have so: "wp25_sorted (xs @ e # ys)"
    using assms(1) no by (subst (asm) t) (auto simp: wp25_sorted_append wp25_sorted_Cons split: if_splits)
  have upd: "wp25_map (xs @ e # ys) = (wp25_map t)(we_key e \<mapsto> e)"
    using ne sp by (subst t) (auto simp: fun_eq_iff wp25_map_append wp25_map_Cons wp25_map_None split: option.splits)
  have len: "length (xs @ e # ys) = length t + (if found then 0 else 1)"
    using arg_cong [OF t, of length] by (simp split: if_splits)
  show ?thesis
  proof (cases found)
    case True
    have "(t ! ps)\<lparr>we_pba := we_pba e, we_plen := we_plen e, we_ord := we_ord e\<rparr> = e"
      using True sp by (cases e; cases "t ! ps") simp
    then have "t' = xs @ e # ys" "rc = 0" "c' = c"
      using assms(2) l True sp by (auto simp: wp25_put_def xs_def ys_def upd_conv_take_nth_drop)
    then show ?thesis using so upd len assms(3) True by auto
  next
    case False
    show ?thesis
    proof (cases "length t = c \<and> \<not> alloc")
      case True
      then have "rc = -1" "t' = t" "c' = c" using assms(2) l False by (auto simp: wp25_put_def)
      moreover have "wp25_map t (we_key e) = None"
        using ne False by (subst t) (simp add: wp25_map_append wp25_map_None)
      ultimately show ?thesis using True assms(1) by simp
    next
      case grow: False
      then have "rc = 0" "t' = xs @ e # ys" "c' = (if length t = c then (if c \<noteq> 0 then c * 2 else 64) else c)"
        using assms(2) l False by (auto simp: wp25_put_def xs_def ys_def Let_def split: if_splits)
      then show ?thesis using so upd len assms(3) False by auto
    qed
  qed
qed

text \<open>C31. The sorted array of second copies behaves as a finite map from a block to its copy: with memory
  for its growth a put stores the copy of its key and of no other key, a delete drops exactly its key
  and reports whether it was there, a lookup returns what was last put, and the array stays sorted;
  without memory a put of a new key changes nothing and says so.\<close>
theorem wp25_index_refines_map:
  assumes "wp25_sorted t" "length t \<le> c" "wp25_put alloc t c e = (rc, t1, c1)" "wp25_del t k = (rd, t2)"
  shows "wp25_get t k = wp25_map t k
    \<and> (rc = 0 \<longrightarrow> wp25_sorted t1 \<and> (\<forall>j. wp25_get t1 j = (if j = we_key e then Some e else wp25_get t j)))
    \<and> (rc \<noteq> 0 \<longrightarrow> \<not> alloc \<and> t1 = t)
    \<and> wp25_sorted t2 \<and> (\<forall>j. wp25_get t2 j = (if j = k then None else wp25_get t j))
    \<and> rd = (if wp25_get t k = None then 0 else 1)"
  using wp25_put_spec [OF assms(1,3,2)] wp25_del_spec [OF assms(1,4)] wp25_get_map assms(1) by auto

definition demo_ent :: "nat \<Rightarrow> wp25_ent" where
  "demo_ent k = \<lparr>we_key = k, we_pba = 100 + k, we_plen = 16, we_ord = 1\<rparr>"

theorem wp25_index_refines_map_witness:
  "\<exists>rc t1 c1. wp25_put True [demo_ent 3, demo_ent 9] 2 (demo_ent 5) = (rc, t1, c1) \<and> rc = 0
     \<and> wp25_get t1 5 = Some (demo_ent 5) \<and> wp25_get t1 9 = wp25_get [demo_ent 3, demo_ent 9] 9"
proof -
  let ?t = "[demo_ent 3, demo_ent 9]"
  have s: "wp25_sorted ?t" "length ?t \<le> 2" by (simp_all add: wp25_sorted_def demo_ent_def)
  obtain rc t1 c1 where p: "wp25_put True ?t 2 (demo_ent 5) = (rc, t1, c1)" by (metis prod_cases3)
  obtain rd t2 where d: "wp25_del ?t 0 = (rd, t2)" by fastforce
  show ?thesis using wp25_index_refines_map [OF s p d] p by (auto simp: demo_ent_def)
qed

end
