(* ===== verification/Alloc.thy ===== *)
theory Alloc
  imports TierIndex
begin

text \<open>
  The block allocator (\<^verbatim>\<open>src/core/volume.c\<close>, from \<open>alloc_blocks\<close> to \<open>alloc_state_reset\<close>), with the parts of
  \<^verbatim>\<open>vol_anchor.c\<close>, \<^verbatim>\<open>vol_seal.c\<close>, \<^verbatim>\<open>vol_spt0.c\<close> and \<^verbatim>\<open>vol_tier.c\<close> that allocating and freeing call. Counters
  are 64-bit and wrap. Freeing a run on a two-device volume frees its second copies, which frees
  further runs: the recursion carries the nesting depth that is left and returns None when it is used
  up, and the loop over an index is partial, since an index whose copies name their own keys would
  never end. On a single-device volume depth 1 is enough (\<open>vol_free_blocks_single\<close>), and the lemmas below
  are about such volumes: the scan is sound and, from the start of a zone, complete; the cached counts stay
  exact; extents handed out stay disjoint; pinned blocks stay allocated.
\<close>

section \<open>What protects a block\<close>

definition anchor_pba :: "invfs_volume \<Rightarrow> nat" where
  "anchor_pba v = (if sb_total_blocks (sb v) = 0 then 0
     else if sb_total_blocks (sb v) < 2 then 0 else sb_total_blocks (sb v) - 1)"

definition anchor_block_protected :: "invfs_volume \<Rightarrow> nat \<Rightarrow> bool" where
  "anchor_block_protected v pba = (if sb_total_blocks (sb v) = 0 then False else if pba \<noteq> anchor_pba v then False else True)"

definition spt0_block_pinned :: "invfs_volume \<Rightarrow> nat \<Rightarrow> nat \<Rightarrow> bool" where
  "spt0_block_pinned v pba nblocks =
    (case spn_bitmap (pin v) of
       None \<Rightarrow> False
     | Some bm \<Rightarrow>
         if \<not> spn_armed (pin v) \<or> spn_nopin (pin v) then False
         else if pba \<ge> sb_total_blocks (sb v) then False
         else let end = sz (pba + nblocks);
                  end = (if end > sb_total_blocks (sb v) then sb_total_blocks (sb v) else end)
              in \<exists>i \<in> set [pba..<end]. bit_get bm i)"

definition seal_dirty_mark :: "invfs_superblock \<Rightarrow> vol_space \<Rightarrow> nat \<Rightarrow> nat \<Rightarrow> vol_space" where
  "seal_dirty_mark s p pba n =
    (let ss = sb_shadow_zone_start s; se = ss + sb_shadow_zone_blocks s
     in case seal_dirty p of
          None \<Rightarrow> p
        | Some bm \<Rightarrow>
            if n = 0 then p
            else if sz (pba + n) \<le> ss \<or> pba \<ge> se then p
            else let (n, pba) = (if pba < ss then (n - (ss - pba), ss) else (n, pba));
                     end = sz (pba + n);
                     end = (if end > se then se else end)
                 in p\<lparr>seal_dirty := Some (foldl bit_set bm (map (\<lambda>b. b - ss) [pba..<end]))\<rparr>)"

section \<open>Allocation\<close>

text \<open>The cursor, free count and failure hint that a zone start selects.\<close>

datatype zone = Zone_shadow | Zone_arena | Zone_raw

definition zone_of :: "invfs_volume \<Rightarrow> nat \<Rightarrow> zone" where
  "zone_of v zone_start =
    (if zone_start = sb_shadow_zone_start (sb v) then Zone_shadow
     else if ndev (st v) = 2 \<and> arena_blocks (sp v) \<noteq> 0 \<and> zone_start = arena_start (sp v) then Zone_arena
     else Zone_raw)"

fun zone_get :: "zone \<Rightarrow> vol_space \<Rightarrow> zone_state" where
  "zone_get Zone_shadow p = z_shadow p"
| "zone_get Zone_arena p = z_arena p"
| "zone_get Zone_raw p = z_raw p"

fun zone_put :: "zone \<Rightarrow> zone_state \<Rightarrow> vol_space \<Rightarrow> vol_space" where
  "zone_put Zone_shadow x p = p\<lparr>z_shadow := x\<rparr>"
| "zone_put Zone_arena x p = p\<lparr>z_arena := x\<rparr>"
| "zone_put Zone_raw x p = p\<lparr>z_raw := x\<rparr>"

text \<open>The scan: at most \<open>count\<close> more blocks, from \<open>i\<close>, with a run open since \<open>start\<close> (0 for none).\<close>

fun alloc_scan :: "(nat \<Rightarrow> bool) \<Rightarrow> nat \<Rightarrow> nat \<Rightarrow> nat \<Rightarrow> nat \<Rightarrow> nat \<Rightarrow> nat \<Rightarrow> (nat \<times> nat) option" where
  "alloc_scan avail zone_start zone_end n 0 i start = None"
| "alloc_scan avail zone_start zone_end n (Suc count) i start =
    (let (i, start) = (if i \<ge> zone_end then (zone_start, 0) else (i, start))
     in if avail i
        then let start = (if start = 0 then i else start)
             in if i - start + 1 = n then Some (start, i)
                else alloc_scan avail zone_start zone_end n count (i + 1) start
        else alloc_scan avail zone_start zone_end n count (i + 1) 0)"

definition block_avail :: "invfs_volume \<Rightarrow> nat \<Rightarrow> bool" where
  "block_avail v i = (\<not> bit_get (bitmap (sp v)) i \<and> \<not> anchor_block_protected v i)"

definition vol_flag :: "invfs_volume \<Rightarrow> u32 \<Rightarrow> bool" where
  "vol_flag v f = (sb_vol_flags (sb v) AND f \<noteq> 0)"

text \<open>Taking the run that the scan found.\<close>

definition alloc_take :: "invfs_volume \<Rightarrow> nat \<Rightarrow> nat \<Rightarrow> nat \<Rightarrow> bool \<Rightarrow> nat \<Rightarrow> nat \<Rightarrow> vol_space" where
  "alloc_take v zone_start zone_end n meta start i =
    (let z = zone_of v zone_start;
         p = (sp v)\<lparr>bitmap := bits_set (bitmap (sp v)) start (i + 1)\<rparr>;
         p = (if meta then p\<lparr>meta_type_bitmap := map_option (\<lambda>b. bits_set b start (i + 1)) (meta_type_bitmap p)\<rparr> else p);
         p = vol_bm_dirty p start;
         p = vol_bm_dirty p i;
         p = (if zone_start = sb_shadow_zone_start (sb v) then seal_dirty_mark (sb v) p start n else p);
         p = p\<lparr>free_blocks := sz_sub (free_blocks p) n\<rparr>;
         p = zone_put z ((zone_get z p)\<lparr>z_free := sz_sub (z_free (zone_get z p)) n,
                                        z_cursor := (if i + 1 < zone_end then i + 1 else zone_start)\<rparr>) p
     in if meta then p\<lparr>meta_free_blocks := sz_sub (meta_free_blocks p) n\<rparr> else p)"

definition alloc_blocks :: "invfs_volume \<Rightarrow> nat \<Rightarrow> nat \<Rightarrow> nat \<Rightarrow> bool \<Rightarrow> bool \<Rightarrow> nat \<times> invfs_volume" where
  "alloc_blocks v zone_start zone_len n use_reserve meta =
    (let zone_end = zone_start + zone_len; z = zone_of v zone_start; zs = zone_get z (sp v)
     in if vol_flag v VOLF_READONLY then (0, v)
        else if z_free zs < n then (0, v)
        else if z_fail_run zs \<noteq> 0 \<and> n \<ge> z_fail_run zs then (0, v)
        else let guard = ((if use_reserve then 0 else sb_reserved_blocks (sb v)) + sb_hard_min_blocks (sb v)) mod 2 ^ 32
        in if free_blocks (sp v) \<le> guard
           then (0, if free_blocks (sp v) \<le> sb_hard_min_blocks (sb v) \<and> \<not> vol_flag v VOLF_READONLY
                    then v\<lparr>sb := (sb v)\<lparr>sb_vol_flags := sb_vol_flags (sb v) OR (VOLF_READONLY OR VOLF_RO_SPACE)\<rparr>\<rparr>
                    else v)
        else if \<not> meta \<and> sb_meta_reserved_pct (sb v) > 0
                \<and> sz_sub (free_blocks (sp v)) n < sz (sb_total_blocks (sb v) * sb_meta_reserved_pct (sb v)) div 100
        then (0, v)
        else let i = z_cursor zs;
                 i = (if i < zone_start \<or> i \<ge> zone_end then zone_start else i)
        in case alloc_scan (block_avail v) zone_start zone_end n zone_len i 0 of
             Some (start, i) \<Rightarrow> (start, v\<lparr>sp := alloc_take v zone_start zone_end n meta start i\<rparr>)
           | None \<Rightarrow> (0, if z_fail_run zs = 0 \<or> n < z_fail_run zs
                        then v\<lparr>sp := zone_put z (zs\<lparr>z_fail_run := n\<rparr>) (sp v)\<rparr> else v))"

definition alloc_raw_or_shadow :: "invfs_volume \<Rightarrow> nat \<Rightarrow> nat \<times> invfs_volume" where
  "alloc_raw_or_shadow v nblocks =
    (let (pba, v) = alloc_blocks v (sb_raw_zone_start (sb v)) (sb_raw_zone_blocks (sb v)) nblocks False False
     in if pba = 0
        then alloc_blocks v (sb_shadow_zone_start (sb v)) (sb_shadow_zone_blocks (sb v)) nblocks False False
        else (pba, v))"

section \<open>Freeing\<close>

definition vol_readonly_unlatch :: "invfs_volume \<Rightarrow> invfs_volume" where
  "vol_readonly_unlatch v =
    (let watermark = sb_hard_min_blocks (sb v) + sb_total_blocks (sb v) div 50
     in if sb_vol_flags (sb v) AND (VOLF_READONLY OR VOLF_RO_SPACE) = (VOLF_READONLY OR VOLF_RO_SPACE) \<and> free_blocks (sp v) > watermark
        then v\<lparr>sb := (sb v)\<lparr>sb_vol_flags := sb_vol_flags (sb v) AND NOT (VOLF_READONLY OR VOLF_RO_SPACE)\<rparr>\<rparr>
        else v)"

definition vol_write_guard :: "invfs_volume \<Rightarrow> nat" where
  "vol_write_guard v = sb_reserved_blocks (sb v) + sb_hard_min_blocks (sb v)"

text \<open>\<open>vol_free_run\<close> after the second copies are gone: clear the bits, return the space to its zone,
  re-evaluate the space latch.\<close>

definition zone_back :: "zone_state \<Rightarrow> nat \<Rightarrow> nat \<Rightarrow> zone_state" where
  "zone_back x pba nblocks =
     x\<lparr>z_free := sz (z_free x + nblocks), z_fail_run := 0, z_cursor := (if pba < z_cursor x then pba else z_cursor x)\<rparr>"

definition zone_return :: "invfs_superblock \<Rightarrow> vol_storage \<Rightarrow> vol_space \<Rightarrow> nat \<Rightarrow> nat \<Rightarrow> vol_space" where
  "zone_return s d p pba nblocks =
    (if pba \<ge> sb_shadow_zone_start s then p\<lparr>z_shadow := zone_back (z_shadow p) pba nblocks\<rparr>
     else if ndev d = 2 \<and> pba \<ge> dev0_blocks d \<and> pba < sb_shadow_zone_start s then p
     else if ndev d = 2 \<and> pba \<ge> arena_start p \<and> pba < dev0_blocks d then p\<lparr>z_arena := zone_back (z_arena p) pba nblocks\<rparr>
     else if pba \<ge> sb_raw_zone_start s then p\<lparr>z_raw := zone_back (z_raw p) pba nblocks\<rparr>
     else p)"

definition free_bits :: "invfs_volume \<Rightarrow> nat \<Rightarrow> nat \<Rightarrow> nat \<Rightarrow> invfs_volume" where
  "free_bits v pba end nblocks =
    (let p = (sp v)\<lparr>bitmap := bits_clr (bitmap (sp v)) pba end\<rparr>;
         p = (if end > pba then vol_bm_dirty (vol_bm_dirty p pba) (end - 1) else p);
         p = seal_dirty_mark (sb v) p pba (sz_sub end pba);
         p = p\<lparr>free_blocks := sz (free_blocks p + nblocks)\<rparr>;
         p = zone_return (sb v) (st v) p pba nblocks
     in vol_readonly_unlatch (v\<lparr>sp := p\<rparr>))"

definition run_end :: "invfs_volume \<Rightarrow> nat \<Rightarrow> nat \<Rightarrow> nat" where
  "run_end v pba nblocks =
    (let end = sz (pba + nblocks) in if end > sb_total_blocks (sb v) then sb_total_blocks (sb v) else end)"

datatype side = Side_rawm | Side_tier

fun side_tab :: "side \<Rightarrow> invfs_volume \<Rightarrow> wp25_ent list" where
  "side_tab Side_rawm v = rawm (sp v)"
| "side_tab Side_tier v = tier (sp v)"

fun side_del :: "side \<Rightarrow> nat \<Rightarrow> invfs_volume \<Rightarrow> invfs_volume" where
  "side_del Side_rawm k v = v\<lparr>sp := (sp v)\<lparr>rawm := snd (wp25_del (rawm (sp v)) k), rawm_dirty := True\<rparr>\<rparr>"
| "side_del Side_tier k v = v\<lparr>sp := (sp v)\<lparr>tier := snd (wp25_del (tier (sp v)) k), tier_dirty := True\<rparr>\<rparr>"

text \<open>The parameter \<open>fb\<close> of the next four operations is the nested call of \<open>vol_free_blocks\<close>.\<close>

partial_function (option) wp25_free_copies ::
  "(invfs_volume \<Rightarrow> nat \<Rightarrow> nat \<Rightarrow> invfs_volume option) \<Rightarrow> side \<Rightarrow> invfs_volume \<Rightarrow> nat \<Rightarrow> nat \<Rightarrow> nat \<Rightarrow> invfs_volume option" where
  "wp25_free_copies fb sd v pba lim i =
    (if i < length (side_tab sd v)
     then let e = side_tab sd v ! i
          in if we_key e \<ge> pba \<and> we_key e < lim
             then Option.bind (fb v (we_pba e) (we_plen e))
                    (\<lambda>v. wp25_free_copies fb sd (side_del sd (we_key e) v) pba lim i)
             else wp25_free_copies fb sd v pba lim (i + 1)
     else Some v)"

definition wp25_on_free ::
  "(invfs_volume \<Rightarrow> nat \<Rightarrow> nat \<Rightarrow> invfs_volume option) \<Rightarrow> invfs_volume \<Rightarrow> nat \<Rightarrow> nat \<Rightarrow> invfs_volume option" where
  "wp25_on_free fb v pba nblocks =
    (let lim = sz (pba + nblocks)
     in Option.bind
          (if rawm (sp v) \<noteq> [] \<and> pba \<ge> sb_raw_zone_start (sb v) \<and> pba < sb_raw_zone_start (sb v) + sb_raw_zone_blocks (sb v)
           then wp25_free_copies fb Side_rawm v pba lim 0 else Some v)
          (\<lambda>v. if tier (sp v) \<noteq> [] \<and> pba \<ge> sb_shadow_zone_start (sb v)
                then wp25_free_copies fb Side_tier v pba lim 0 else Some v))"

definition vol_free_run ::
  "(invfs_volume \<Rightarrow> nat \<Rightarrow> nat \<Rightarrow> invfs_volume option) \<Rightarrow> invfs_volume \<Rightarrow> nat \<Rightarrow> nat \<Rightarrow> invfs_volume option" where
  "vol_free_run fb v pba nblocks =
    (let lim = run_end v pba nblocks
     in Option.bind (if ndev (st v) = 2 then wp25_on_free fb v pba (sz_sub lim pba) else Some v)
          (\<lambda>v. Some (free_bits v pba lim nblocks)))"

text \<open>The per-block split: \<open>run\<close> unpinned blocks end before the first of the remaining ones.\<close>

fun free_unpinned ::
  "(invfs_volume \<Rightarrow> nat \<Rightarrow> nat \<Rightarrow> invfs_volume option) \<Rightarrow> invfs_volume \<Rightarrow> nat list \<Rightarrow> nat \<Rightarrow> nat \<Rightarrow> invfs_volume option" where
  "free_unpinned fb v [] lim run = (if run \<noteq> 0 then vol_free_run fb v (lim - run) run else Some v)"
| "free_unpinned fb v (i # is) lim run =
    (if \<not> spt0_block_pinned v i 1 then free_unpinned fb v is lim (run + 1)
     else Option.bind (if run \<noteq> 0 then vol_free_run fb v (i - run) run else Some v)
            (\<lambda>v. free_unpinned fb v is lim 0))"

primrec vol_free_blocks :: "nat \<Rightarrow> invfs_volume \<Rightarrow> nat \<Rightarrow> nat \<Rightarrow> invfs_volume option" where
  "vol_free_blocks 0 = (\<lambda>v pba nblocks. None)"
| "vol_free_blocks (Suc depth) = (\<lambda>v pba nblocks.
    let lim = run_end v pba nblocks
    in if \<not> retain_release (pin v) \<and> spt0_block_pinned v pba (sz_sub lim pba) then Some v
       else if retain_release (pin v) \<or> \<not> spt0_block_pinned v pba (sz_sub lim pba)
       then vol_free_run (vol_free_blocks depth) v pba (sz_sub lim pba)
       else free_unpinned (vol_free_blocks depth) v [pba..<lim] lim 0)"

section \<open>Counting\<close>

definition zone_count_free :: "invfs_volume \<Rightarrow> nat \<Rightarrow> nat \<Rightarrow> nat" where
  "zone_count_free v start len =
    length (filter (\<lambda>i. \<not> bit_get (bitmap (sp v)) i) [start..<min (start + len) (sb_total_blocks (sb v))])"

definition vol_count_free :: "invfs_volume \<Rightarrow> nat" where
  "vol_count_free v = length (filter (\<lambda>i. \<not> bit_get (bitmap (sp v)) i) [0..<sb_total_blocks (sb v)])"

definition vol_zone_free :: "invfs_volume \<Rightarrow> nat \<times> nat \<times> nat \<times> nat" where
  "vol_zone_free v =
    (z_free (z_raw (sp v)), sb_raw_zone_blocks (sb v), z_free (z_shadow (sp v)), sb_shadow_zone_blocks (sb v))"

definition alloc_state_reset :: "bool \<Rightarrow> invfs_volume \<Rightarrow> invfs_volume" where
  "alloc_state_reset alloc v =
    (let fresh = (\<lambda>start len. \<lparr>z_cursor = start, z_free = zone_count_free v start len, z_fail_run = 0\<rparr>);
         p = (sp v)\<lparr>z_raw := fresh (sb_raw_zone_start (sb v)) (sb_raw_zone_blocks (sb v)),
                    z_shadow := fresh (sb_shadow_zone_start (sb v)) (sb_shadow_zone_blocks (sb v)),
                    z_arena := (if arena_blocks (sp v) \<noteq> 0 then fresh (arena_start (sp v)) (arena_blocks (sp v))
                                else \<lparr>z_cursor = arena_start (sp v), z_free = 0, z_fail_run = 0\<rparr>)\<rparr>;
         meta_lo = sb_metadata_zone_start (sb v);
         meta_hi = meta_lo + sb_metadata_zone_blocks (sb v);
         meta_hi = (if meta_hi > sb_total_blocks (sb v) then sb_total_blocks (sb v) else meta_hi);
         p = (if meta_type_bitmap p = None \<and> alloc
              then p\<lparr>meta_type_bitmap := Some (replicate (bitmap_blocks p * 4096) 0)\<rparr> else p);
         p = p\<lparr>meta_free_blocks := (if meta_hi > meta_lo then zone_count_free v meta_lo (meta_hi - meta_lo) else 0)\<rparr>
     in v\<lparr>sp := p\<lparr>bm_lo := 1, bm_hi := 0\<rparr>\<rparr>)"

section \<open>The scan\<close>

lemma alloc_scan_sound:
  "alloc_scan avail zs ze n count i start = Some (s, j) \<Longrightarrow> zs < ze \<Longrightarrow> zs \<le> i \<Longrightarrow>
   (start \<noteq> 0 \<longrightarrow> zs \<le> start \<and> start \<le> i \<and> (\<forall>k. start \<le> k \<and> k < i \<longrightarrow> avail k)) \<Longrightarrow>
   zs \<le> s \<and> s \<le> j \<and> j < ze \<and> j + 1 = s + n \<and> (\<forall>k. s \<le> k \<and> k \<le> j \<longrightarrow> avail k)"
proof (induction count arbitrary: i start)
  case (Suc count)
  define i' where "i' = (if i \<ge> ze then zs else i)"
  define st' where "st' = (if i \<ge> ze then 0 else start)"
  have bnd: "zs \<le> i'" "i' < ze" using Suc.prems(2,3) by (auto simp: i'_def)
  have inv: "st' \<noteq> 0 \<longrightarrow> zs \<le> st' \<and> st' \<le> i' \<and> (\<forall>k. st' \<le> k \<and> k < i' \<longrightarrow> avail k)"
    using Suc.prems(4) by (auto simp: i'_def st'_def)
  have step: "(if avail i'
      then if i' - (if st' = 0 then i' else st') + 1 = n then Some (if st' = 0 then i' else st', i')
           else alloc_scan avail zs ze n count (i' + 1) (if st' = 0 then i' else st')
      else alloc_scan avail zs ze n count (i' + 1) 0) = Some (s, j)"
    using Suc.prems(1) by (simp add: i'_def st'_def Let_def split: if_splits)
  show ?case
  proof (cases "avail i'")
    case True
    define st2 where "st2 = (if st' = 0 then i' else st')"
    have inv2: "zs \<le> st2 \<and> st2 \<le> i' \<and> (\<forall>k. st2 \<le> k \<and> k < i' + 1 \<longrightarrow> avail k)"
      using inv bnd True by (auto simp: st2_def less_Suc_eq)
    show ?thesis
    proof (cases "i' - st2 + 1 = n")
      case hit: True
      then have "s = st2" "j = i'" using step True by (simp_all add: st2_def)
      then show ?thesis using inv2 bnd hit by auto
    next
      case False
      then have "alloc_scan avail zs ze n count (i' + 1) st2 = Some (s, j)" using step True by (simp add: st2_def)
      from Suc.IH [OF this Suc.prems(2)] show ?thesis using inv2 bnd by auto
    qed
  next
    case False
    then have "alloc_scan avail zs ze n count (i' + 1) 0 = Some (s, j)" using step by simp
    from Suc.IH [OF this Suc.prems(2)] show ?thesis using bnd by auto
  qed
qed simp

lemma alloc_scan_finds:
  "i + count = ze \<Longrightarrow> 0 < i \<Longrightarrow> start \<noteq> 0 \<longrightarrow> start \<le> i \<and> i - start < n \<Longrightarrow>
   (if start = 0 then i else start) \<le> s \<Longrightarrow> s + n \<le> ze \<Longrightarrow> 0 < n \<Longrightarrow> \<forall>k. s \<le> k \<and> k < s + n \<longrightarrow> avail k \<Longrightarrow>
   alloc_scan avail zs ze n count i start \<noteq> None"
proof (induction count arbitrary: i start)
  case (Suc count)
  show ?case
  proof (cases "avail i")
    case True
    define st2 where "st2 = (if start = 0 then i else start)"
    show ?thesis
    proof (cases "i - st2 + 1 = n")
      case False
      have "alloc_scan avail zs ze n count (i + 1) st2 \<noteq> None"
        by (rule Suc.IH) (use Suc.prems False in \<open>auto simp: st2_def split: if_splits\<close>)
      then show ?thesis using Suc.prems(1) True False by (simp add: st2_def Let_def)
    qed (use Suc.prems(1) True in \<open>simp add: st2_def Let_def\<close>)
  next
    case False
    have "\<not> (s \<le> i \<and> i < s + n)" using False Suc.prems(7) by blast
    then have "i < s" using Suc.prems(3,4,6) by (auto split: if_splits)
    then have "alloc_scan avail zs ze n count (i + 1) 0 \<noteq> None"
      by (intro Suc.IH) (use Suc.prems in auto)
    then show ?thesis using Suc.prems(1) False by simp
  qed
qed (auto split: if_splits)

section \<open>Free counts\<close>

text \<open>Free blocks of a range, as a set.\<close>

definition nfree :: "bytes \<Rightarrow> nat \<Rightarrow> nat \<Rightarrow> nat" where
  "nfree b lo hi = card {i \<in> {lo..<hi}. \<not> bit_get b i}"

lemma length_filter_upt: "length (filter P [lo..<hi]) = card {i \<in> {lo..<hi}. P i}"
proof -
  have "length (filter P [lo..<hi]) = card (set (filter P [lo..<hi]))"
    by (rule distinct_card [symmetric]) simp
  then show ?thesis by simp
qed

lemma zone_count_free_nfree: "zone_count_free v start len = nfree (bitmap (sp v)) start (min (start + len) (sb_total_blocks (sb v)))"
  by (simp add: zone_count_free_def nfree_def length_filter_upt)

lemma vol_count_free_nfree: "vol_count_free v = nfree (bitmap (sp v)) 0 (sb_total_blocks (sb v))"
  by (simp add: vol_count_free_def nfree_def length_filter_upt)

lemma nfree_set:
  assumes "hi \<le> 8 * length b" "\<forall>k. p \<le> k \<and> k < p + n \<longrightarrow> \<not> bit_get b k" "p + n \<le> 8 * length b"
  shows "lo \<le> p \<Longrightarrow> p + n \<le> hi \<Longrightarrow> nfree (bits_set b p (p + n)) lo hi + n = nfree b lo hi"
    and "p + n \<le> lo \<or> hi \<le> p \<Longrightarrow> nfree (bits_set b p (p + n)) lo hi = nfree b lo hi"
proof -
  let ?A = "{i \<in> {lo..<hi}. \<not> bit_get (bits_set b p (p + n)) i}" and ?B = "{i \<in> {lo..<hi}. \<not> bit_get b i}"
  have eq: "?A = ?B - {p..<p + n}" using bit_get_bits_set [OF assms(3)] by auto
  show "nfree (bits_set b p (p + n)) lo hi + n = nfree b lo hi" if "lo \<le> p" "p + n \<le> hi"
  proof -
    have sub: "{p..<p + n} \<subseteq> ?B" using that assms(2) by auto
    have "card ?B = card (?B - {p..<p + n}) + card {p..<p + n}"
      using card_Diff_subset [OF _ sub] card_mono [OF _ sub] by simp
    then show ?thesis unfolding nfree_def eq by simp
  qed
  show "nfree (bits_set b p (p + n)) lo hi = nfree b lo hi" if "p + n \<le> lo \<or> hi \<le> p"
  proof -
    have "?B - {p..<p + n} = ?B" using that by auto
    then show ?thesis unfolding nfree_def eq by simp
  qed
qed

lemma nfree_clr:
  assumes "\<forall>k. p \<le> k \<and> k < p + n \<longrightarrow> bit_get b k" "p + n \<le> 8 * length b"
  shows "lo \<le> p \<Longrightarrow> p + n \<le> hi \<Longrightarrow> nfree (bits_clr b p (p + n)) lo hi = nfree b lo hi + n"
    and "p + n \<le> lo \<or> hi \<le> p \<Longrightarrow> nfree (bits_clr b p (p + n)) lo hi = nfree b lo hi"
proof -
  let ?A = "{i \<in> {lo..<hi}. \<not> bit_get (bits_clr b p (p + n)) i}" and ?B = "{i \<in> {lo..<hi}. \<not> bit_get b i}"
  have eq: "?A = ?B \<union> ({p..<p + n} \<inter> {lo..<hi})" using bit_get_bits_clr [OF assms(2)] by auto
  have dj: "?B \<inter> ({p..<p + n} \<inter> {lo..<hi}) = {}" using assms(1) by auto
  have "card ?A = card ?B + card ({p..<p + n} \<inter> {lo..<hi})"
    unfolding eq by (rule card_Un_disjoint) (use dj in auto)
  moreover have "card ({p..<p + n} \<inter> {lo..<hi}) = n" if "lo \<le> p" "p + n \<le> hi"
    using that by (simp add: min_def max_def)
  moreover have "card ({p..<p + n} \<inter> {lo..<hi}) = 0" if "p + n \<le> lo \<or> hi \<le> p" using that by auto
  ultimately show "lo \<le> p \<Longrightarrow> p + n \<le> hi \<Longrightarrow> nfree (bits_clr b p (p + n)) lo hi = nfree b lo hi + n"
    "p + n \<le> lo \<or> hi \<le> p \<Longrightarrow> nfree (bits_clr b p (p + n)) lo hi = nfree b lo hi"
    by (simp_all add: nfree_def)
qed

lemma nfree_le: "nfree b lo hi \<le> hi - lo"
proof -
  have "nfree b lo hi \<le> card {lo..<hi}" unfolding nfree_def by (intro card_mono) auto
  then show ?thesis by simp
qed

lemma nfree_mono: "lo \<le> lo' \<Longrightarrow> hi' \<le> hi \<Longrightarrow> nfree b lo' hi' \<le> nfree b lo hi"
  unfolding nfree_def by (intro card_mono) auto

section \<open>Frames\<close>

lemma seal_dirty_keep: "\<exists>d. p = (p :: vol_space)\<lparr>seal_dirty := d\<rparr>"
  by (rule exI [of _ "seal_dirty p"]) simp

lemma seal_dirty_set: "\<exists>d. p\<lparr>seal_dirty := x\<rparr> = (p :: vol_space)\<lparr>seal_dirty := d\<rparr>"
  by blast

lemma seal_dirty_mark_frame: "\<exists>d. seal_dirty_mark s p a n = p\<lparr>seal_dirty := d\<rparr>"
  by (cases "seal_dirty p")
     (simp_all only: seal_dirty_mark_def Let_def option.case prod.case if_split_mem1 seal_dirty_keep seal_dirty_set
       split: if_split prod.split, simp_all only: seal_dirty_keep seal_dirty_set simp_thms)

lemma seal_dirty_mark_sel [simp]:
  "bitmap (seal_dirty_mark s p a n) = bitmap p" "bitmap_blocks (seal_dirty_mark s p a n) = bitmap_blocks p"
  "free_blocks (seal_dirty_mark s p a n) = free_blocks p" "bm_lo (seal_dirty_mark s p a n) = bm_lo p"
  "bm_hi (seal_dirty_mark s p a n) = bm_hi p" "z_raw (seal_dirty_mark s p a n) = z_raw p"
  "z_shadow (seal_dirty_mark s p a n) = z_shadow p" "z_arena (seal_dirty_mark s p a n) = z_arena p"
  "arena_start (seal_dirty_mark s p a n) = arena_start p" "meta_type_bitmap (seal_dirty_mark s p a n) = meta_type_bitmap p"
  "meta_free_blocks (seal_dirty_mark s p a n) = meta_free_blocks p" "arena_blocks (seal_dirty_mark s p a n) = arena_blocks p"
  "zone_get z (seal_dirty_mark s p a n) = zone_get z p"
  using seal_dirty_mark_frame [of s p a n] by (cases z, auto)+

lemma vol_bm_dirty_sel [simp]:
  "bitmap (vol_bm_dirty p i) = bitmap p" "bitmap_blocks (vol_bm_dirty p i) = bitmap_blocks p"
  "free_blocks (vol_bm_dirty p i) = free_blocks p" "z_raw (vol_bm_dirty p i) = z_raw p"
  "z_shadow (vol_bm_dirty p i) = z_shadow p" "z_arena (vol_bm_dirty p i) = z_arena p"
  "arena_start (vol_bm_dirty p i) = arena_start p" "meta_type_bitmap (vol_bm_dirty p i) = meta_type_bitmap p"
  "meta_free_blocks (vol_bm_dirty p i) = meta_free_blocks p" "arena_blocks (vol_bm_dirty p i) = arena_blocks p"
  "zone_get z (vol_bm_dirty p i) = zone_get z p"
  by (cases z, simp_all add: vol_bm_dirty_eq)+

lemma zone_put_sel [simp]:
  "bitmap (zone_put z x p) = bitmap p" "bitmap_blocks (zone_put z x p) = bitmap_blocks p"
  "free_blocks (zone_put z x p) = free_blocks p" "bm_lo (zone_put z x p) = bm_lo p" "bm_hi (zone_put z x p) = bm_hi p"
  "arena_start (zone_put z x p) = arena_start p" "arena_blocks (zone_put z x p) = arena_blocks p"
  "zone_get y (zone_put z x p) = (if y = z then x else zone_get y p)"
  by (cases z; cases y; simp)+

lemma zone_get_upd [simp]:
  "zone_get z (p\<lparr>bitmap := b\<rparr>) = zone_get z p" "zone_get z (p\<lparr>meta_type_bitmap := m\<rparr>) = zone_get z p"
  "zone_get z (p\<lparr>free_blocks := f\<rparr>) = zone_get z p" "zone_get z (p\<lparr>meta_free_blocks := f\<rparr>) = zone_get z p"
  "zone_get z (p\<lparr>bm_lo := l\<rparr>) = zone_get z p" "zone_get z (p\<lparr>bm_hi := l\<rparr>) = zone_get z p"
  by (cases z; simp)+

lemma bm_dirty_lohi:
  "bm_lo p = bm_lo q \<Longrightarrow> bm_hi p = bm_hi q \<Longrightarrow>
   bm_lo (vol_bm_dirty p a) = bm_lo (vol_bm_dirty q a) \<and> bm_hi (vol_bm_dirty p a) = bm_hi (vol_bm_dirty q a)"
  by (simp add: vol_bm_dirty_eq)

lemma alloc_take_view:
  assumes "w = alloc_take v zs ze n meta s i"
  shows "bitmap w = bits_set (bitmap (sp v)) s (i + 1)" "bitmap_blocks w = bitmap_blocks (sp v)"
    "free_blocks w = sz_sub (free_blocks (sp v)) n" "arena_start w = arena_start (sp v)"
    "bm_lo w = bm_lo (vol_bm_dirty (vol_bm_dirty (sp v) s) i)" "bm_hi w = bm_hi (vol_bm_dirty (vol_bm_dirty (sp v) s) i)"
    "z_free (zone_get y w) = (if y = zone_of v zs then sz_sub (z_free (zone_get y (sp v))) n else z_free (zone_get y (sp v)))"
  unfolding assms alloc_take_def Let_def by (simp_all add: vol_bm_dirty_eq)

section \<open>The invariant of the block space\<close>

text \<open>Zones of a single-device volume.\<close>

fun zone_first :: "zone \<Rightarrow> invfs_volume \<Rightarrow> nat" where
  "zone_first Zone_shadow v = sb_shadow_zone_start (sb v)"
| "zone_first Zone_arena v = arena_start (sp v)"
| "zone_first Zone_raw v = sb_raw_zone_start (sb v)"

fun zone_size :: "zone \<Rightarrow> invfs_volume \<Rightarrow> nat" where
  "zone_size Zone_shadow v = sb_shadow_zone_blocks (sb v)"
| "zone_size Zone_arena v = arena_blocks (sp v)"
| "zone_size Zone_raw v = sb_raw_zone_blocks (sb v)"

abbreviation zone_end :: "zone \<Rightarrow> invfs_volume \<Rightarrow> nat" where
  "zone_end z v \<equiv> zone_first z v + zone_size z v"

definition alloc_geom :: "invfs_volume \<Rightarrow> bool" where
  "alloc_geom v \<longleftrightarrow> ndev (st v) = 1 \<and> 0 < zone_first Zone_raw v \<and> 0 < zone_size Zone_raw v
     \<and> zone_end Zone_raw v \<le> zone_first Zone_shadow v \<and> zone_end Zone_shadow v \<le> sb_total_blocks (sb v)
     \<and> sb_total_blocks (sb v) \<le> 8 * length (bitmap (sp v)) \<and> sb_total_blocks (sb v) < 2 ^ 64"

text \<open>The cached counts are the counts of the bitmap.\<close>

definition alloc_ok :: "invfs_volume \<Rightarrow> bool" where
  "alloc_ok v \<longleftrightarrow> alloc_geom v \<and> free_blocks (sp v) = vol_count_free v
     \<and> (\<forall>z \<in> {Zone_raw, Zone_shadow}. z_free (zone_get z (sp v)) = zone_count_free v (zone_first z v) (zone_size z v))"

text \<open>What stays fixed: the layout of the volume, the devices and the pins.\<close>

definition same_layout :: "invfs_volume \<Rightarrow> invfs_volume \<Rightarrow> bool" where
  "same_layout v w \<longleftrightarrow> st w = st v \<and> pin w = pin v \<and> sb w = (sb v)\<lparr>sb_vol_flags := sb_vol_flags (sb w)\<rparr>
     \<and> arena_start (sp w) = arena_start (sp v) \<and> length (bitmap (sp w)) = length (bitmap (sp v))
     \<and> bitmap_blocks (sp w) = bitmap_blocks (sp v)"

lemma same_layout_refl [simp]: "same_layout v v"
  by (simp add: same_layout_def)

lemma same_layout_sb:
  assumes "same_layout v w"
  shows "sb_total_blocks (sb w) = sb_total_blocks (sb v)" "sb_raw_zone_start (sb w) = sb_raw_zone_start (sb v)"
    "sb_raw_zone_blocks (sb w) = sb_raw_zone_blocks (sb v)" "sb_shadow_zone_start (sb w) = sb_shadow_zone_start (sb v)"
    "sb_shadow_zone_blocks (sb w) = sb_shadow_zone_blocks (sb v)" "sb_metadata_zone_start (sb w) = sb_metadata_zone_start (sb v)"
proof -
  have "sb w = (sb v)\<lparr>sb_vol_flags := sb_vol_flags (sb w)\<rparr>" using assms by (simp add: same_layout_def)
  then obtain f where f: "sb w = (sb v)\<lparr>sb_vol_flags := f\<rparr>" by blast
  show "sb_total_blocks (sb w) = sb_total_blocks (sb v)" "sb_raw_zone_start (sb w) = sb_raw_zone_start (sb v)"
    "sb_raw_zone_blocks (sb w) = sb_raw_zone_blocks (sb v)" "sb_shadow_zone_start (sb w) = sb_shadow_zone_start (sb v)"
    "sb_shadow_zone_blocks (sb w) = sb_shadow_zone_blocks (sb v)" "sb_metadata_zone_start (sb w) = sb_metadata_zone_start (sb v)"
    by (simp_all add: f)
qed

lemma same_layout_trans:
  assumes "same_layout v w" "same_layout w x" shows "same_layout v x"
proof -
  obtain f where f: "sb w = (sb v)\<lparr>sb_vol_flags := f\<rparr>" using assms(1) unfolding same_layout_def by blast
  obtain g where g: "sb x = (sb w)\<lparr>sb_vol_flags := g\<rparr>" using assms(2) unfolding same_layout_def by blast
  have "sb x = (sb v)\<lparr>sb_vol_flags := sb_vol_flags (sb x)\<rparr>" by (simp add: f g)
  then show ?thesis using assms by (simp add: same_layout_def)
qed

lemma same_layout_anchor: "same_layout v w \<Longrightarrow> anchor_block_protected w i = anchor_block_protected v i"
  by (simp add: anchor_block_protected_def anchor_pba_def same_layout_sb)

lemma same_layout_geom: "same_layout v w \<Longrightarrow> alloc_geom v \<Longrightarrow> alloc_geom w"
  using same_layout_sb [of v w] by (simp add: alloc_geom_def same_layout_def)

lemma zone_count_zone:
  "alloc_geom v \<Longrightarrow> z \<in> {Zone_raw, Zone_shadow} \<Longrightarrow>
   zone_count_free v (zone_first z v) (zone_size z v) = nfree (bitmap (sp v)) (zone_first z v) (zone_end z v)
   \<and> zone_end z v \<le> sb_total_blocks (sb v)"
  by (auto simp: zone_count_free_nfree alloc_geom_def)

lemma zone_of_first: "alloc_geom v \<Longrightarrow> z \<in> {Zone_raw, Zone_shadow} \<Longrightarrow> zone_of v (zone_first z v) = z"
  by (auto simp: zone_of_def alloc_geom_def)

text \<open>The three kinds of outcome of an allocation: a run taken, the space latch set, or nothing but the
  failure hint.\<close>

lemma if_elim: "(c \<Longrightarrow> P a) \<Longrightarrow> (\<not> c \<Longrightarrow> P b) \<Longrightarrow> P (if c then a else b)"
  by simp

lemma alloc_blocks_elim:
  fixes P :: "nat \<times> invfs_volume \<Rightarrow> bool"
  assumes "P (0, v)"
    and "P (0, v\<lparr>sb := (sb v)\<lparr>sb_vol_flags := sb_vol_flags (sb v) OR (VOLF_READONLY OR VOLF_RO_SPACE)\<rparr>\<rparr>)"
    and "P (0, v\<lparr>sp := zone_put (zone_of v zs) ((zone_get (zone_of v zs) (sp v))\<lparr>z_fail_run := n\<rparr>) (sp v)\<rparr>)"
    and "\<And>i0 s i. zs \<le> i0 \<Longrightarrow> alloc_scan (block_avail v) zs (zs + len) n len i0 0 = Some (s, i) \<Longrightarrow>
           P (s, v\<lparr>sp := alloc_take v zs (zs + len) n meta s i\<rparr>)"
  shows "P (alloc_blocks v zs len n ur meta)"
proof -
  have scan: "P (case alloc_scan (block_avail v) zs (zs + len) n len i 0 of
        Some (start, i) \<Rightarrow> (start, v\<lparr>sp := alloc_take v zs (zs + len) n meta start i\<rparr>)
      | None \<Rightarrow> (0, if c then v\<lparr>sp := zone_put (zone_of v zs) ((zone_get (zone_of v zs) (sp v))\<lparr>z_fail_run := n\<rparr>) (sp v)\<rparr> else v))"
    if "zs \<le> i" for i c
    using assms(1,3) assms(4) [OF that]
    by (cases "alloc_scan (block_avail v) zs (zs + len) n len i 0") (auto simp del: fun_upd_apply)
  show ?thesis
    unfolding alloc_blocks_def Let_def
    by (intro if_elim [of _ P] if_elim [of _ "\<lambda>x. P (0, x)"] scan assms(1,2)) auto
qed

lemma alloc_blocks_cases:
  assumes "alloc_blocks v zs len n ur meta = (pba, v')"
  shows "(\<exists>i0 i. zs \<le> i0 \<and> alloc_scan (block_avail v) zs (zs + len) n len i0 0 = Some (pba, i)
             \<and> v' = v\<lparr>sp := alloc_take v zs (zs + len) n meta pba i\<rparr>)
       \<or> pba = 0 \<and> v' = v
       \<or> pba = 0 \<and> v' = v\<lparr>sb := (sb v)\<lparr>sb_vol_flags := sb_vol_flags (sb v) OR (VOLF_READONLY OR VOLF_RO_SPACE)\<rparr>\<rparr>
       \<or> pba = 0 \<and> v' = v\<lparr>sp := zone_put (zone_of v zs) ((zone_get (zone_of v zs) (sp v))\<lparr>z_fail_run := n\<rparr>) (sp v)\<rparr>"
proof -
  define Q where "Q = (\<lambda>r. (\<exists>i0 i. zs \<le> i0 \<and> alloc_scan (block_avail v) zs (zs + len) n len i0 0 = Some (fst r, i)
         \<and> snd r = v\<lparr>sp := alloc_take v zs (zs + len) n meta (fst r) i\<rparr>)
       \<or> fst r = 0 \<and> snd r = v
       \<or> fst r = 0 \<and> snd r = v\<lparr>sb := (sb v)\<lparr>sb_vol_flags := sb_vol_flags (sb v) OR (VOLF_READONLY OR VOLF_RO_SPACE)\<rparr>\<rparr>
       \<or> fst r = 0 \<and> snd r = v\<lparr>sp := zone_put (zone_of v zs) ((zone_get (zone_of v zs) (sp v))\<lparr>z_fail_run := n\<rparr>) (sp v)\<rparr>)"
  have "Q (alloc_blocks v zs len n ur meta)"
    by (rule alloc_blocks_elim; unfold Q_def fst_conv snd_conv; blast)
  then show ?thesis unfolding assms Q_def fst_conv snd_conv .
qed

text \<open>A run taken from a zone.\<close>

definition taken :: "invfs_volume \<Rightarrow> zone \<Rightarrow> nat \<Rightarrow> nat \<Rightarrow> invfs_volume \<Rightarrow> bool" where
  "taken v z pba n v' \<longleftrightarrow> zone_first z v \<le> pba \<and> pba + n \<le> zone_end z v
     \<and> (\<forall>k. pba \<le> k \<and> k < pba + n \<longrightarrow> block_avail v k)
     \<and> (\<forall>k. bit_get (bitmap (sp v')) k \<longleftrightarrow> pba \<le> k \<and> k < pba + n \<or> bit_get (bitmap (sp v)) k)"

lemma bm_synced_change:
  assumes "bm_synced v" "st v' = st v" "bm_base v' = bm_base v" "bitmap_blocks (sp v') = bitmap_blocks (sp v)"
    "length (bitmap (sp v')) = length (bitmap (sp v))" "a \<le> b"
    "bm_lo (sp v') = bm_lo (vol_bm_dirty (vol_bm_dirty (sp v) a) b)" "bm_hi (sp v') = bm_hi (vol_bm_dirty (vol_bm_dirty (sp v) a) b)"
    "\<And>j. j < a div 8 \<or> b div 8 < j \<Longrightarrow> bitmap (sp v') ! j = bitmap (sp v) ! j"
  shows "bm_synced v'"
  unfolding bm_synced_def
proof (intro conjI allI impI)
  show "length (bitmap (sp v')) = bitmap_blocks (sp v') * 4096" using assms(1,4,5) by (simp add: bm_synced_def)
  fix j assume j: "j < length (bitmap (sp v'))" "\<not> (bm_lo (sp v') \<le> j \<and> j < bm_hi (sp v'))"
  have "\<not> (a div 8 \<le> j \<and> j \<le> b div 8 \<or> bm_lo (sp v) \<le> j \<and> j < bm_hi (sp v))"
    using bm_dirty_cover [OF assms(7,8,6), of j] j(2) by blast
  moreover from this have "bitmap (sp v') ! j = bitmap (sp v) ! j" by (intro assms(9)) linarith
  ultimately show "vdata v' (bm_base v' + j) = bitmap (sp v') ! j"
    using assms(1,2,3,5) j(1) by (simp add: bm_synced_def)
qed

lemma take_run_ok:
  assumes "alloc_ok v" "z \<in> {Zone_raw, Zone_shadow}" "0 < n" "zone_first z v \<le> pba" "pba + n \<le> zone_end z v"
    and "\<And>k. pba \<le> k \<Longrightarrow> k < pba + n \<Longrightarrow> block_avail v k"
    and "v' = v\<lparr>sp := alloc_take v (zone_first z v) ze n meta pba (pba + n - 1)\<rparr>"
  shows "alloc_ok v' \<and> same_layout v v' \<and> taken v z pba n v' \<and> (bm_synced v \<longrightarrow> bm_synced v')"
proof -
  let ?b = "bitmap (sp v)" and ?N = "sb_total_blocks (sb v)"
  have g: "alloc_geom v" using assms(1) by (simp add: alloc_ok_def)
  note zc = zone_count_zone [OF g] and zo = zone_of_first [OF g assms(2)]
  define w where "w = alloc_take v (zone_first z v) ze n meta pba (pba + n - 1)"
  have v': "sp v' = w" "st v' = st v" "sb v' = sb v" "pin v' = pin v" by (simp_all add: assms(7) w_def)
  have "pba + n - 1 + 1 = pba + n" using assms(3) by simp
  note view = alloc_take_view [OF w_def, unfolded this zo]
  have N: "?N \<le> 8 * length ?b" "?N < 2 ^ 64" "pba + n \<le> ?N" using g zc [OF assms(2)] assms(5) by (auto simp: alloc_geom_def)
  have free: "\<forall>k. pba \<le> k \<and> k < pba + n \<longrightarrow> \<not> bit_get ?b k" using assms(6) by (auto simp: block_avail_def)
  have len: "pba + n \<le> 8 * length ?b" using N by linarith
  have lay: "same_layout v v'" by (simp add: same_layout_def v' view)
  have cnt: "nfree (bitmap w) lo hi + n = nfree ?b lo hi" if "lo \<le> pba" "pba + n \<le> hi" "hi \<le> ?N" for lo hi
    using nfree_set(1) [OF _ free len that(1,2)] that(3) N(1) view(1) by simp
  have out: "nfree (bitmap w) lo hi = nfree ?b lo hi" if "pba + n \<le> lo \<or> hi \<le> pba" "hi \<le> ?N" for lo hi
    using nfree_set(2) [OF _ free len that(1)] that(2) N(1) view(1) by simp
  have all: "free_blocks w = nfree (bitmap w) 0 ?N"
  proof -
    have "free_blocks (sp v) = nfree ?b 0 ?N" using assms(1) by (simp add: alloc_ok_def vol_count_free_nfree)
    moreover have "nfree ?b 0 ?N \<le> ?N" using nfree_le [of ?b 0 ?N] by simp
    ultimately show ?thesis using cnt [of 0 ?N] N view(3) by (simp add: sz_sub_le)
  qed
  have zone: "z_free (zone_get y w) = nfree (bitmap w) (zone_first y v) (zone_end y v)" if y: "y \<in> {Zone_raw, Zone_shadow}" for y
  proof -
    have old: "z_free (zone_get y (sp v)) = nfree ?b (zone_first y v) (zone_end y v)"
      using assms(1) y zc [OF y] by (auto simp: alloc_ok_def)
    show ?thesis
    proof (cases "y = z")
      case True
      have "nfree ?b (zone_first z v) (zone_end z v) \<le> zone_size z v"
        using nfree_le [of ?b "zone_first z v" "zone_end z v"] by simp
      then show ?thesis using cnt [OF assms(4,5)] zc [OF assms(2)] old N(2) True view(7) [of y] by (simp add: sz_sub_le)
    next
      case False
      then have "pba + n \<le> zone_first y v \<or> zone_end y v \<le> pba" using y assms(2,4,5) g by (auto simp: alloc_geom_def)
      then show ?thesis using out zc [OF y] old False view(7) [of y] by simp
    qed
  qed
  have "alloc_ok v'"
    using same_layout_geom [OF lay g] all zone zone_count_zone [OF same_layout_geom [OF lay g]]
    by (auto simp: alloc_ok_def vol_count_free_nfree v')
  moreover have "taken v z pba n v'"
    using assms(4-6) bit_get_bits_set [OF len, of pba] by (auto simp: taken_def v' view)
  moreover have "bits_set ?b pba (pba + n) ! j = ?b ! j" if "j < pba div 8 \<or> (pba + n - 1) div 8 < j" for j
    using that assms(3) by (intro bits_set_byte) (auto simp: div_less_iff_less_mult)
  then have "bm_synced v'" if "bm_synced v"
    by (intro bm_synced_change [OF that, of v' pba "pba + n - 1"]) (use view assms(3) in \<open>auto simp: v' bm_base_def\<close>)
  ultimately show ?thesis using lay by simp
qed

lemma alloc_blocks_ok:
  assumes "alloc_ok v" "z \<in> {Zone_raw, Zone_shadow}" "0 < n"
    and "alloc_blocks v (zone_first z v) (zone_size z v) n ur meta = (pba, v')"
  shows "alloc_ok v' \<and> same_layout v v' \<and> (pba \<noteq> 0 \<longrightarrow> taken v z pba n v')
    \<and> (pba = 0 \<longrightarrow> bitmap (sp v') = bitmap (sp v)) \<and> (bm_synced v \<longrightarrow> bm_synced v')"
proof -
  let ?zs = "zone_first z v" and ?b = "bitmap (sp v)"
  have g: "alloc_geom v" using assms(1) by (simp add: alloc_ok_def)
  have zo: "zone_of v ?zs = z" by (rule zone_of_first [OF g assms(2)])
  have zpos: "0 < ?zs" using g assms(2) by (auto simp: alloc_geom_def)
  consider (run) i0 i where "?zs \<le> i0" "alloc_scan (block_avail v) ?zs (zone_end z v) n (zone_size z v) i0 0 = Some (pba, i)"
      "v' = v\<lparr>sp := alloc_take v ?zs (zone_end z v) n meta pba i\<rparr>"
    | (same) "pba = 0" "v' = v"
    | (latch) "pba = 0" "v' = v\<lparr>sb := (sb v)\<lparr>sb_vol_flags := sb_vol_flags (sb v) OR (VOLF_READONLY OR VOLF_RO_SPACE)\<rparr>\<rparr>"
    | (hint) "pba = 0" "v' = v\<lparr>sp := zone_put z ((zone_get z (sp v))\<lparr>z_fail_run := n\<rparr>) (sp v)\<rparr>"
    using alloc_blocks_cases [OF assms(4)] unfolding zo by blast
  then show ?thesis
  proof cases
    case run
    have size: "zone_size z v \<noteq> 0" using run(2) by (cases "zone_size z v") auto
    have f: "?zs \<le> pba" "i < zone_end z v" "i + 1 = pba + n" "\<And>k. pba \<le> k \<and> k \<le> i \<Longrightarrow> block_avail v k"
      using alloc_scan_sound [OF run(2)] run(1) size by simp_all
    have i: "i = pba + n - 1" using f(3) by simp
    have "alloc_ok v' \<and> same_layout v v' \<and> taken v z pba n v' \<and> (bm_synced v \<longrightarrow> bm_synced v')"
      by (rule take_run_ok [OF assms(1-3) f(1)]) (use f run(3) i in auto)
    then show ?thesis using f(1) zpos by simp
  next
    case same then show ?thesis using assms(1) by simp
  next
    case latch
    then show ?thesis using assms(1) by (simp add: alloc_ok_def alloc_geom_def same_layout_def vol_count_free_def zone_count_free_def bm_synced_def bm_base_def)
  next
    case hint
    then show ?thesis using assms(1) by (auto simp: alloc_ok_def alloc_geom_def same_layout_def vol_count_free_def zone_count_free_def bm_synced_def bm_base_def)
  qed
qed

section \<open>Freeing on a single device\<close>

lemma vol_readonly_unlatch_view [simp]:
  "sp (vol_readonly_unlatch v) = sp v" "st (vol_readonly_unlatch v) = st v" "pin (vol_readonly_unlatch v) = pin v"
  by (simp_all add: vol_readonly_unlatch_def Let_def)

lemma vol_readonly_unlatch_layout: "same_layout v (vol_readonly_unlatch v)"
  by (simp add: vol_readonly_unlatch_def Let_def same_layout_def)

lemma zone_return_sel [simp]:
  "bitmap (zone_return s d p pba n) = bitmap p" "bitmap_blocks (zone_return s d p pba n) = bitmap_blocks p"
  "free_blocks (zone_return s d p pba n) = free_blocks p" "bm_lo (zone_return s d p pba n) = bm_lo p"
  "bm_hi (zone_return s d p pba n) = bm_hi p" "arena_start (zone_return s d p pba n) = arena_start p"
  by (simp_all add: zone_return_def)

lemma free_bits_view:
  assumes "w = free_bits v pba (pba + n) n" "0 < n"
  shows "same_layout v w" "bitmap (sp w) = bits_clr (bitmap (sp v)) pba (pba + n)"
    "free_blocks (sp w) = sz (free_blocks (sp v) + n)"
    "bm_lo (sp w) = bm_lo (vol_bm_dirty (vol_bm_dirty (sp v) pba) (pba + n - 1))"
    "bm_hi (sp w) = bm_hi (vol_bm_dirty (vol_bm_dirty (sp v) pba) (pba + n - 1))"
proof -
  define q where "q = vol_bm_dirty (vol_bm_dirty ((sp v)\<lparr>bitmap := bits_clr (bitmap (sp v)) pba (pba + n)\<rparr>) pba) (pba + n - 1)"
  define r where "r = seal_dirty_mark (sb v) q pba (sz_sub (pba + n) pba)"
  define p where "p = zone_return (sb v) (st v) (r\<lparr>free_blocks := sz (free_blocks r + n)\<rparr>) pba n"
  have p: "w = vol_readonly_unlatch (v\<lparr>sp := p\<rparr>)"
    unfolding assms(1) free_bits_def Let_def p_def r_def q_def using assms(2) by (simp only: less_add_same_cancel1 if_True)
  have q: "bitmap q = bits_clr (bitmap (sp v)) pba (pba + n)" "free_blocks q = free_blocks (sp v)"
    "bitmap_blocks q = bitmap_blocks (sp v)" "arena_start q = arena_start (sp v)"
    "bm_lo q = bm_lo (vol_bm_dirty (vol_bm_dirty (sp v) pba) (pba + n - 1))"
    "bm_hi q = bm_hi (vol_bm_dirty (vol_bm_dirty (sp v) pba) (pba + n - 1))"
    by (simp_all add: q_def vol_bm_dirty_eq)
  have v: "bitmap p = bits_clr (bitmap (sp v)) pba (pba + n)" "free_blocks p = sz (free_blocks (sp v) + n)"
    "bm_lo p = bm_lo (vol_bm_dirty (vol_bm_dirty (sp v) pba) (pba + n - 1))"
    "bm_hi p = bm_hi (vol_bm_dirty (vol_bm_dirty (sp v) pba) (pba + n - 1))"
    "bitmap_blocks p = bitmap_blocks (sp v)" "arena_start p = arena_start (sp v)"
    by (simp_all add: p_def r_def q)
  have "same_layout v (v\<lparr>sp := p\<rparr>)" by (simp add: same_layout_def v)
  then show "same_layout v w" unfolding p by (rule same_layout_trans [OF _ vol_readonly_unlatch_layout])
  show "bitmap (sp w) = bits_clr (bitmap (sp v)) pba (pba + n)" "free_blocks (sp w) = sz (free_blocks (sp v) + n)"
    "bm_lo (sp w) = bm_lo (vol_bm_dirty (vol_bm_dirty (sp v) pba) (pba + n - 1))"
    "bm_hi (sp w) = bm_hi (vol_bm_dirty (vol_bm_dirty (sp v) pba) (pba + n - 1))"
    by (simp_all add: p v)
qed

lemma free_bits_bitmap: "bitmap (sp (free_bits v pba lim n)) = bits_clr (bitmap (sp v)) pba lim"
  by (simp add: free_bits_def Let_def)

lemma free_bits_count: "free_blocks (sp (free_bits v pba lim n)) = sz (free_blocks (sp v) + n)"
  by (simp add: free_bits_def Let_def)

lemma free_bits_zone:
  assumes "alloc_geom v" "z \<in> {Zone_raw, Zone_shadow}" "zone_first z v \<le> pba" "pba + n \<le> zone_end z v" "0 < n"
    and "y \<in> {Zone_raw, Zone_shadow}"
  shows "z_free (zone_get y (sp (free_bits v pba (pba + n) n))) =
    (if y = z then sz (z_free (zone_get y (sp v)) + n) else z_free (zone_get y (sp v)))"
  using assms unfolding free_bits_def Let_def
  by (auto simp: zone_return_def zone_back_def alloc_geom_def)

lemma free_bits_ok:
  assumes "alloc_ok v" "z \<in> {Zone_raw, Zone_shadow}" "0 < n" "zone_first z v \<le> pba" "pba + n \<le> zone_end z v"
    and "\<forall>k. pba \<le> k \<and> k < pba + n \<longrightarrow> bit_get (bitmap (sp v)) k"
    and "v' = free_bits v pba (pba + n) n"
  shows "alloc_ok v' \<and> same_layout v v' \<and> (bm_synced v \<longrightarrow> bm_synced v')
    \<and> (\<forall>k. bit_get (bitmap (sp v')) k \<longleftrightarrow> \<not> (pba \<le> k \<and> k < pba + n) \<and> bit_get (bitmap (sp v)) k)"
proof -
  let ?b = "bitmap (sp v)" and ?N = "sb_total_blocks (sb v)"
  have g: "alloc_geom v" using assms(1) by (simp add: alloc_ok_def)
  note zc = zone_count_zone [OF g]
  have N: "?N \<le> 8 * length ?b" "?N < 2 ^ 64" "pba + n \<le> ?N" using g zc [OF assms(2)] assms(5) by (auto simp: alloc_geom_def)
  have len: "pba + n \<le> 8 * length ?b" using N by linarith
  note view = free_bits_view [OF assms(7,3)]
  note sb' = same_layout_sb [OF view(1)]
  have first: "zone_first y v' = zone_first y v" "zone_size y v' = zone_size y v" if "y \<in> {Zone_raw, Zone_shadow}" for y
    using that sb' by auto
  have cnt: "nfree (bitmap (sp v')) lo hi = nfree ?b lo hi + n" if "lo \<le> pba" "pba + n \<le> hi" for lo hi
    using nfree_clr(1) [OF assms(6) len that] view(2) by simp
  have out: "nfree (bitmap (sp v')) lo hi = nfree ?b lo hi" if "pba + n \<le> lo \<or> hi \<le> pba" for lo hi
    using nfree_clr(2) [OF assms(6) len that] view(2) by simp
  have all: "free_blocks (sp v') = nfree (bitmap (sp v')) 0 ?N"
  proof -
    have "free_blocks (sp v) = nfree ?b 0 ?N" using assms(1) by (simp add: alloc_ok_def vol_count_free_nfree)
    then show ?thesis using cnt [of 0 ?N] N nfree_le [of "bitmap (sp v')" 0 ?N] view(3) by (simp add: sz_id)
  qed
  have zone: "z_free (zone_get y (sp v')) = nfree (bitmap (sp v')) (zone_first y v) (zone_end y v)"
    if y: "y \<in> {Zone_raw, Zone_shadow}" for y
  proof -
    have old: "z_free (zone_get y (sp v)) = nfree ?b (zone_first y v) (zone_end y v)"
      using assms(1) y zc [OF y] by (auto simp: alloc_ok_def)
    note new = free_bits_zone [OF g assms(2,4,5,3) y, folded assms(7)]
    show ?thesis
    proof (cases "y = z")
      case True
      then show ?thesis
        using cnt [OF assms(4,5)] nfree_le [of "bitmap (sp v')" "zone_first z v" "zone_end z v"] zc [OF y] old N(2) new
        by (simp add: sz_id)
    next
      case False
      then have "pba + n \<le> zone_first y v \<or> zone_end y v \<le> pba" using y assms(2,4,5) g by (auto simp: alloc_geom_def)
      then show ?thesis using out old False new by simp
    qed
  qed
  have g': "alloc_geom v'" by (rule same_layout_geom [OF view(1) g])
  have "alloc_ok v'"
    unfolding alloc_ok_def using g' all zone zone_count_zone [OF g'] first sb'(1) by (simp add: vol_count_free_nfree)
  moreover have "bits_clr ?b pba (pba + n) ! j = ?b ! j" if "j < pba div 8 \<or> (pba + n - 1) div 8 < j" for j
    using that assms(3) by (intro bits_clr_byte) (auto simp: div_less_iff_less_mult)
  then have "bm_synced v'" if "bm_synced v"
    using view(1) sb' by (intro bm_synced_change [OF that, of v' pba "pba + n - 1"])
      (use view(2-) assms(3) in \<open>auto simp: bm_base_def same_layout_def\<close>)
  ultimately show ?thesis using view(1,2) bit_get_bits_clr [OF len, of pba] by simp
qed

lemma run_end_in: "pba + n \<le> sb_total_blocks (sb v) \<Longrightarrow> sb_total_blocks (sb v) < 2 ^ 64 \<Longrightarrow> run_end v pba n = pba + n"
  by (simp add: run_end_def Let_def sz_id)

lemma vol_free_blocks_single:
  assumes "alloc_geom v" "pba + n \<le> sb_total_blocks (sb v)"
  shows "vol_free_blocks (Suc d) v pba n =
    Some (if \<not> retain_release (pin v) \<and> spt0_block_pinned v pba n then v else free_bits v pba (pba + n) n)"
proof -
  have N: "sb_total_blocks (sb v) < 2 ^ 64" "ndev (st v) = 1" using assms(1) by (simp_all add: alloc_geom_def)
  have re: "run_end v pba n = pba + n" by (rule run_end_in [OF assms(2) N(1)])
  have sub: "sz_sub (pba + n) pba = n" using assms(2) N(1) by (simp add: sz_sub_le)
  show ?thesis unfolding vol_free_blocks.simps Let_def re sub vol_free_run_def by (simp add: N(2))
qed

text \<open>The two guards of \<open>vol_free_blocks\<close> are complementary, so that the per-block split is never reached.\<close>

lemma vol_free_blocks_split_unused:
  "vol_free_blocks (Suc d) v pba n =
    (let len = sz_sub (run_end v pba n) pba
     in if \<not> retain_release (pin v) \<and> spt0_block_pinned v pba len then Some v
        else vol_free_run (vol_free_blocks d) v pba len)"
  by (simp add: Let_def)

section \<open>Runs of allocations and frees\<close>

type_synonym extent = "nat \<times> nat"

text \<open>A volume with the extents its users hold.\<close>

inductive space_step :: "invfs_volume \<times> extent list \<Rightarrow> invfs_volume \<times> extent list \<Rightarrow> bool" where
  step_alloc: "z \<in> {Zone_raw, Zone_shadow} \<Longrightarrow> 0 < n \<Longrightarrow>
    alloc_blocks v (zone_first z v) (zone_size z v) n ur meta = (pba, v') \<Longrightarrow>
    space_step (v, live) (v', if pba = 0 then live else (pba, n) # live)"
| step_free: "(pba, n) \<in> set live \<Longrightarrow> vol_free_blocks (Suc d) v pba n = Some v' \<Longrightarrow>
    space_step (v, live) (v', remove1 (pba, n) live)"
| step_pin: "space_step (v, live) (v\<lparr>pin := x\<rparr>, live)"

fun apart :: "extent \<Rightarrow> extent \<Rightarrow> bool" where
  "apart (p, n) (q, m) \<longleftrightarrow> p + n \<le> q \<or> q + m \<le> p"

fun held :: "invfs_volume \<Rightarrow> extent \<Rightarrow> bool" where
  "held v (p, n) \<longleftrightarrow> 0 < n \<and> (\<exists>z \<in> {Zone_raw, Zone_shadow}. zone_first z v \<le> p \<and> p + n \<le> zone_end z v)
     \<and> (\<forall>k. p \<le> k \<and> k < p + n \<longrightarrow> bit_get (bitmap (sp v)) k \<and> \<not> anchor_block_protected v k)"

definition live_ok :: "invfs_volume \<Rightarrow> extent list \<Rightarrow> bool" where
  "live_ok v live \<longleftrightarrow> sorted_wrt apart live \<and> list_all (held v) live"

lemma apart_sym: "apart a b \<Longrightarrow> apart b a"
  by (cases a; cases b) auto

lemma zone_same: "same_layout v w \<Longrightarrow> z \<in> {Zone_raw, Zone_shadow} \<Longrightarrow> zone_first z w = zone_first z v \<and> zone_size z w = zone_size z v"
  by (auto simp: same_layout_sb)

lemma held_mono:
  assumes "held v e" "same_layout v w"
    and "\<And>k. fst e \<le> k \<Longrightarrow> k < fst e + snd e \<Longrightarrow> bit_get (bitmap (sp v)) k \<Longrightarrow> bit_get (bitmap (sp w)) k"
  shows "held w e"
  using assms by (cases e) (auto simp: zone_same same_layout_anchor)

lemma step_alloc_ok:
  assumes "alloc_ok v" "live_ok v live" "z \<in> {Zone_raw, Zone_shadow}" "0 < n"
    and "alloc_blocks v (zone_first z v) (zone_size z v) n ur meta = (pba, v')"
  shows "alloc_ok v' \<and> live_ok v' (if pba = 0 then live else (pba, n) # live) \<and> (bm_synced v \<longrightarrow> bm_synced v')"
proof -
  note ok = alloc_blocks_ok [OF assms(1,3-5)]
  have lay: "same_layout v v'" using ok by simp
  show ?thesis
  proof (cases "pba = 0")
    case True
    then have "held v' e" if "held v e" for e using held_mono [OF that lay] ok by simp
    then show ?thesis using ok assms(2) True by (auto simp: live_ok_def list_all_iff)
  next
    case False
    then have tk: "taken v z pba n v'" using ok by simp
    have keep: "held v' e" if "held v e" for e using held_mono [OF that lay] tk by (simp add: taken_def)
    have new: "held v' (pba, n)"
      using tk zone_same [OF lay assms(3)] same_layout_anchor [OF lay] assms(3,4) by (auto simp: taken_def block_avail_def)
    have "apart (pba, n) e" if e: "e \<in> set live" for e
    proof (rule ccontr)
      obtain q m where q: "e = (q, m)" by fastforce
      assume "\<not> apart (pba, n) e"
      then have "pba \<le> max pba q" "max pba q < pba + n" "q \<le> max pba q" "max pba q < q + m"
        using assms(2,4) e by (auto simp: q live_ok_def list_all_iff)
      moreover have "held v (q, m)" using assms(2) e by (auto simp: q live_ok_def list_all_iff)
      ultimately have "block_avail v (max pba q)" "bit_get (bitmap (sp v)) (max pba q)" using tk by (auto simp: taken_def)
      then show False by (simp add: block_avail_def)
    qed
    then show ?thesis using ok assms(2) False keep new by (auto simp: live_ok_def list_all_iff)
  qed
qed

lemma step_free_ok:
  assumes "alloc_ok v" "live_ok v live" "(pba, n) \<in> set live" "vol_free_blocks (Suc d) v pba n = Some v'"
  shows "alloc_ok v' \<and> live_ok v' (remove1 (pba, n) live) \<and> (bm_synced v \<longrightarrow> bm_synced v')"
proof -
  have g: "alloc_geom v" using assms(1) by (simp add: alloc_ok_def)
  have h: "held v (pba, n)" using assms(2,3) by (auto simp: live_ok_def list_all_iff)
  then obtain z where z: "z \<in> {Zone_raw, Zone_shadow}" "zone_first z v \<le> pba" "pba + n \<le> zone_end z v" "0 < n"
    unfolding held.simps by blast
  have "pba + n \<le> sb_total_blocks (sb v)" using zone_count_zone [OF g z(1)] z(3) by simp
  note fb = vol_free_blocks_single [OF g this, of d]
  obtain xs ys where xs: "live = xs @ (pba, n) # ys" "(pba, n) \<notin> set xs" using split_list_first [OF assms(3)] by blast
  then have rm: "remove1 (pba, n) live = xs @ ys" by (simp add: remove1_append)
  have ap: "sorted_wrt apart (xs @ ys)" "\<And>e. e \<in> set (xs @ ys) \<Longrightarrow> apart (pba, n) e \<and> held v e"
    using assms(2) apart_sym xs(1) by (auto simp: live_ok_def list_all_iff sorted_wrt_append)
  show ?thesis
  proof (cases "\<not> retain_release (pin v) \<and> spt0_block_pinned v pba n")
    case True
    then show ?thesis using assms(1,4) ap unfolding fb rm by (simp add: live_ok_def list_all_iff)
  next
    case False
    then have v': "v' = free_bits v pba (pba + n) n" using assms(4) unfolding fb by auto
    have bits: "\<forall>k. pba \<le> k \<and> k < pba + n \<longrightarrow> bit_get (bitmap (sp v)) k" using h by simp
    note ok = free_bits_ok [OF assms(1) z(1,4,2,3) bits v']
    have "held v' e" if "e \<in> set (xs @ ys)" for e
    proof (rule held_mono)
      show "held v e" "same_layout v v'" using ap(2) [OF that] ok by simp_all
      show "bit_get (bitmap (sp v')) k" if "fst e \<le> k" "k < fst e + snd e" "bit_get (bitmap (sp v)) k" for k
        using ap(2) [OF \<open>e \<in> set (xs @ ys)\<close>] that ok by (cases e) auto
    qed
    then show ?thesis using ok ap(1) unfolding rm by (simp add: live_ok_def list_all_iff)
  qed
qed

lemma space_reach_ok:
  assumes "space_step\<^sup>*\<^sup>* (v0, []) (v, live)" "alloc_ok v0"
  shows "alloc_ok v \<and> live_ok v live \<and> (bm_synced v0 \<longrightarrow> bm_synced v)"
  using assms(1)
proof (induction rule: rtranclp_induct2)
  case refl
  then show ?case using assms(2) by (simp add: live_ok_def)
next
  case (step v live v' live')
  have ok: "alloc_ok v" "live_ok v live" using step(3) by simp_all
  from step(2) show ?case
  proof cases
    case (step_alloc z n ur meta pba)
    then show ?thesis using step_alloc_ok [OF ok step_alloc(2-4)] step(3) by blast
  next
    case (step_free pba n d)
    then show ?thesis using step_free_ok [OF ok step_free(2,3)] step(3) by blast
  next
    case (step_pin x)
    have "held v' e" if "held v e" for e
      using that step_pin by (cases e) (auto simp: anchor_block_protected_def anchor_pba_def)
    then show ?thesis using step(3) step_pin
      by (auto simp: live_ok_def list_all_iff alloc_ok_def alloc_geom_def vol_count_free_def zone_count_free_def bm_synced_def bm_base_def)
  qed
qed

section \<open>Properties\<close>

text \<open>C32. No double allocation: starting from exact counters, after any run of allocations from the two
  zones, frees of held extents and changes of the save-point pin on a single-device volume, the extents
  held are pairwise disjoint, each lies in one zone with all its blocks marked and none of them the anchor
  block, and the cached free counts are the counts of the bitmap.\<close>

theorem alloc_extents_disjoint:
  assumes "alloc_ok v0" "space_step\<^sup>*\<^sup>* (v0, []) (v, live)"
  shows "sorted_wrt apart live \<and> list_all (held v) live \<and> free_blocks (sp v) = vol_count_free v
    \<and> vol_zone_free v = (zone_count_free v (sb_raw_zone_start (sb v)) (sb_raw_zone_blocks (sb v)), sb_raw_zone_blocks (sb v),
         zone_count_free v (sb_shadow_zone_start (sb v)) (sb_shadow_zone_blocks (sb v)), sb_shadow_zone_blocks (sb v))"
  using space_reach_ok [OF assms(2,1)] by (simp add: live_ok_def alloc_ok_def vol_zone_free_def)

text \<open>A volume of 16 blocks: 4 of metadata, a raw zone of 4 and a shadow zone of 8.\<close>

definition demo_super :: invfs_superblock where
  "demo_super = (sb_of (replicate 168 0))\<lparr>sb_total_blocks := 16, sb_metadata_zone_start := 1, sb_metadata_zone_blocks := 3,
     sb_raw_zone_start := 4, sb_raw_zone_blocks := 4, sb_shadow_zone_start := 8, sb_shadow_zone_blocks := 8,
     sb_reserved_blocks := 0, sb_hard_min_blocks := 0, sb_vol_flags := 0, sb_meta_reserved_pct := 0\<rparr>"

definition demo_space :: vol_space where
  "demo_space = \<lparr>bitmap = [0x0F, 0x00], bitmap_blocks = 1, z_raw = \<lparr>z_cursor = 4, z_free = 4, z_fail_run = 0\<rparr>,
     z_shadow = \<lparr>z_cursor = 8, z_free = 8, z_fail_run = 0\<rparr>, z_arena = \<lparr>z_cursor = 0, z_free = 0, z_fail_run = 0\<rparr>,
     arena_start = 0, arena_blocks = 0, bm_lo = 1, bm_hi = 0, free_blocks = 12, seal_dirty = None,
     meta_free_blocks = 0, meta_type_bitmap = None, tier = [], rawm = [], tier_dirty = False, rawm_dirty = False\<rparr>"

definition demo_root :: vol_root where
  "demo_root = \<lparr>v_rt = demo_rt, rt_present = True, anchor_state = 1, anchor_adopted = False, anchor_refresh_failed = False,
     v_anchor = anc0_of (replicate 4096 0), mb_boot_cursor = 0, mb_boot_end = 0, mb_alloc_cursor = 0, mb_alloc_fail_run = 0\<rparr>"

definition demo_delta :: vol_delta where
  "demo_delta = \<lparr>d_index = None, d_seg_pba = 0, d_seg_gen = 0, d_bump = 0, d_seq = 0, d_records = 0, d_segments = 0,
     d_bytes = 0, d_ready = False, d_pending = 0, d_pending_bytes = 0, d_group_max = 0, d_group_bytes = 0, d_staged = [], d_cstaged = 0,
     d_doomed = 0, d_rewrite_needed = False, d_retire = [], d_cretire = 0, d_retire_dropped = 0, d_oldest_seq = 0, d_oldest_when = 0,
     d_locked = False\<rparr>"

definition demo_volume :: invfs_volume where
  "demo_volume = \<lparr>st = demo_vol\<lparr>ndev := 1\<rparr>, sb = demo_super, sp = demo_space, vroot = demo_root, dl = demo_delta,
     pin = \<lparr>retain_release = False, v_spt0 = demo_spt0, spn_bitmap = Some [0x00, 0x03], spn_armed = True, spn_nopin = False\<rparr>,
     v_dirty = False\<rparr>"

lemma upt_16: "[0..<16] = [0, 1, 2, 3, 4, 5, 6, 7, 8, 9, 10, 11, 12, 13, 14, 15 :: nat]"
  by (simp add: upt_rec)

lemma demo_bits: "bit_get [0x0F, 0x00] i \<longleftrightarrow> i < 4" if "i < 16"
proof -
  have "list_all (\<lambda>i. bit_get [0x0F, 0x00] i \<longleftrightarrow> i < 4) [0..<16]" by (simp add: upt_16 bit_get_def)
  then show ?thesis using that by (simp add: list_all_iff)
qed

lemma demo_sel:
  "sb_total_blocks (sb demo_volume) = 16" "sb_raw_zone_start (sb demo_volume) = 4" "sb_raw_zone_blocks (sb demo_volume) = 4"
  "sb_shadow_zone_start (sb demo_volume) = 8" "sb_shadow_zone_blocks (sb demo_volume) = 8" "ndev (st demo_volume) = 1"
  "sb_reserved_blocks (sb demo_volume) = 0" "sb_hard_min_blocks (sb demo_volume) = 0" "sb_vol_flags (sb demo_volume) = 0"
  "sb_meta_reserved_pct (sb demo_volume) = 0" "sp demo_volume = demo_space"
  by (simp_all add: demo_volume_def demo_super_def)

lemma demo_space_sel:
  "bitmap demo_space = [0x0F, 0x00]" "free_blocks demo_space = 12" "arena_start demo_space = 0"
  "z_raw demo_space = \<lparr>z_cursor = 4, z_free = 4, z_fail_run = 0\<rparr>" "z_shadow demo_space = \<lparr>z_cursor = 8, z_free = 8, z_fail_run = 0\<rparr>"
  by (simp_all add: demo_space_def)

lemma demo_alloc_ok: "alloc_ok demo_volume"
  by (simp add: alloc_ok_def alloc_geom_def vol_count_free_def zone_count_free_def demo_sel demo_space_sel demo_bits upt_16)

lemma demo_avail: "block_avail demo_volume 4" "block_avail demo_volume 5"
  by (simp_all add: block_avail_def anchor_block_protected_def anchor_pba_def demo_sel demo_space_sel demo_bits)

lemma alloc_scan_numeral:
  "alloc_scan avail zs ze n (numeral k) i start =
    (let (i, start) = (if i \<ge> ze then (zs, 0) else (i, start))
     in if avail i
        then let start = (if start = 0 then i else start)
             in if i - start + 1 = n then Some (start, i) else alloc_scan avail zs ze n (pred_numeral k) (i + 1) start
        else alloc_scan avail zs ze n (pred_numeral k) (i + 1) 0)"
  by (simp only: numeral_eq_Suc alloc_scan.simps)

lemma demo_scan: "alloc_scan (block_avail demo_volume) 4 8 2 4 4 0 = Some (4, 5)"
  using demo_avail by (simp add: alloc_scan_numeral Let_def)

lemma demo_alloc_4: "fst (alloc_blocks demo_volume 4 4 2 False False) = 4"
proof -
  have v: "zone_of demo_volume 4 = Zone_raw" "\<not> vol_flag demo_volume VOLF_READONLY"
    by (simp_all add: zone_of_def vol_flag_def demo_sel demo_space_sel)
  show ?thesis unfolding alloc_blocks_def Let_def v(1) by (simp add: v(2) demo_sel demo_space_sel demo_scan)
qed

theorem alloc_extents_disjoint_witness:
  "\<exists>v pba. alloc_blocks demo_volume 4 4 2 False False = (pba, v) \<and> pba = 4 \<and> held v (4, 2)"
proof -
  obtain pba v where a: "alloc_blocks demo_volume 4 4 2 False False = (pba, v)" by fastforce
  have pba: "pba = 4" using a demo_alloc_4 by simp
  have "space_step (demo_volume, []) (v, [(4, 2)])"
    using step_alloc [of Zone_raw 2 demo_volume False False pba v "[]"] a pba by (simp add: demo_sel)
  then have "space_step\<^sup>*\<^sup>* (demo_volume, []) (v, [(4, 2)])" by blast
  from alloc_extents_disjoint [OF demo_alloc_ok this] show ?thesis using a pba by simp
qed

text \<open>C33. A block pinned by the armed save point is never given back: freeing any run of a single-device
  volume returns, and every pinned block that was allocated before is still allocated, unless the caller is
  the save-point machinery itself.\<close>

theorem free_keeps_pinned:
  assumes "alloc_geom v" "pba + n \<le> sb_total_blocks (sb v)" "\<not> retain_release (pin v)"
    and "spn_bitmap (pin v) = Some bm" "spn_armed (pin v)" "\<not> spn_nopin (pin v)"
    and "bit_get bm k" "bit_get (bitmap (sp v)) k"
  shows "\<exists>v'. vol_free_blocks (Suc d) v pba n = Some v' \<and> bit_get (bitmap (sp v')) k"
proof (cases "spt0_block_pinned v pba n")
  case True
  then show ?thesis using vol_free_blocks_single [OF assms(1,2)] assms(3,8) by simp
next
  case False
  have N: "sb_total_blocks (sb v) \<le> 8 * length (bitmap (sp v))" "sb_total_blocks (sb v) < 2 ^ 64"
    using assms(1) by (simp_all add: alloc_geom_def)
  have out: "\<not> (pba \<le> k \<and> k < pba + n)"
  proof
    assume k: "pba \<le> k \<and> k < pba + n"
    then have "spt0_block_pinned v pba n" using assms(2,4-7) N(2) by (auto simp: spt0_block_pinned_def Let_def sz_id)
    then show False using False by simp
  qed
  have len: "pba + n \<le> 8 * length (bitmap (sp v))" using assms(2) N(1) by linarith
  have "bit_get (bits_clr (bitmap (sp v)) pba (pba + n)) k" using out assms(8) bit_get_bits_clr [OF len] by simp
  moreover have "bitmap (sp (free_bits v pba (pba + n) n)) = bits_clr (bitmap (sp v)) pba (pba + n)"
    using free_bits_bitmap [of v pba "pba + n" n] .
  ultimately show ?thesis using vol_free_blocks_single [OF assms(1,2)] False by simp
qed

theorem free_keeps_pinned_witness:
  "\<exists>v'. vol_free_blocks 1 (demo_volume\<lparr>sp := demo_space\<lparr>bitmap := [0x0F, 0x07]\<rparr>\<rparr>) 8 3 = Some v' \<and> bit_get (bitmap (sp v')) 9"
  using free_keeps_pinned [of "demo_volume\<lparr>sp := demo_space\<lparr>bitmap := [0x0F, 0x07]\<rparr>\<rparr>" 8 3 "[0x00, 0x03]" 9 0]
  by (simp add: alloc_geom_def demo_volume_def demo_super_def demo_space_def demo_vol_def bit_get_def)



text \<open>From a cursor inside a free run the scan opens its run at the cursor, wraps once, and stops before it
  meets the cursor again, so that a free run that straddles the cursor is missed.\<close>

lemma alloc_scan_misses_straddling_run: "alloc_scan (\<lambda>i. i = 5 \<or> i = 6) 4 8 2 4 6 0 = None"
  by (simp add: alloc_scan_numeral Let_def)

text \<open>Freeing a run that starts beyond the volume: the length wraps around and is added to the free count.\<close>

lemma vol_free_beyond_end:
  assumes "alloc_geom v" "sb_total_blocks (sb v) \<le> pba" "0 < n" "pba + n < 2 ^ 64"
  shows "\<exists>v'. vol_free_blocks (Suc d) v pba n = Some v'
    \<and> free_blocks (sp v') = sz (free_blocks (sp v) + sz_sub (sb_total_blocks (sb v)) pba)"
proof -
  let ?N = "sb_total_blocks (sb v)" and ?len = "sz_sub (sb_total_blocks (sb v)) pba"
  have re: "run_end v pba n = ?N" using assms(2-4) by (simp add: run_end_def Let_def sz_id)
  have "spt0_block_pinned v pba ?len = False"
    using assms(2) by (cases "spn_bitmap (pin v)") (simp_all add: spt0_block_pinned_def)
  moreover have "ndev (st v) \<noteq> 2" using assms(1) by (simp add: alloc_geom_def)
  ultimately show ?thesis
    unfolding vol_free_blocks.simps Let_def re vol_free_run_def by (simp add: free_bits_count)
qed

text \<open>A metadata run taken while the metadata count is 0 wraps the count around.\<close>

lemma alloc_meta_wraps:
  "meta_free_blocks (sp v) = 0 \<Longrightarrow> 0 < n \<Longrightarrow> n < 2 ^ 64 \<Longrightarrow> meta_free_blocks (alloc_take v zs ze n True s i) = 2 ^ 64 - n"
  by (cases "zone_of v zs") (simp_all add: alloc_take_def Let_def sz_sub_def sz_def)

end
