(* ===== verification/DeltaStage.thy ===== *)
theory DeltaStage
  imports Alloc
begin

text \<open>
  Group commit of the delta log (\<^verbatim>\<open>src/core/vol_delta.c\<close>): the group caps, the retained bytes of staged
  records, the roll-back of a group whose fence failed, the deferred frees of superseded content, the
  healing writes that precede a fence, and the creation of a segment. Operations that only touch the delta
  fields of the handle take that part of it. Searches in the index may not return on a malformed index,
  which is the value None; each \<open>malloc\<close> is an outcome parameter; the mutex is the atomicity of each
  operation, and \<open>d_locked\<close> is what \<open>pthread_mutex_trylock\<close> finds. The lemmas show that dooming a group
  restores the index as it was before the group, for records in the first block of their segment, and
  leaves the index alone for the others, and that a padded span is skipped by replay.
\<close>

section \<open>Group caps\<close>

definition VOL_DELTA_GROUP_MAX_DEFAULT :: nat where "VOL_DELTA_GROUP_MAX_DEFAULT = 64"

definition VOL_DELTA_GROUP_BYTES_DEFAULT :: nat where "VOL_DELTA_GROUP_BYTES_DEFAULT = 256 * 1024"

definition dl_group_bytes :: "string option \<Rightarrow> nat \<Rightarrow> nat" where
  "dl_group_bytes v dflt =
    (case v of None \<Rightarrow> dflt
     | Some s \<Rightarrow>
         if s = [] then dflt
         else case strtoull s of None \<Rightarrow> dflt
              | Some (n, rest) \<Rightarrow> let n = sz (n * unit_suffix rest 1) in if n = 0 then dflt else n)"

definition dl_group_max :: "string option \<Rightarrow> nat" where
  "dl_group_max v =
    (case v of None \<Rightarrow> VOL_DELTA_GROUP_MAX_DEFAULT
     | Some s \<Rightarrow>
         if s = [] then VOL_DELTA_GROUP_MAX_DEFAULT
         else case strtoull s of None \<Rightarrow> VOL_DELTA_GROUP_MAX_DEFAULT
              | Some (n, _) \<Rightarrow> if n = 0 then VOL_DELTA_GROUP_MAX_DEFAULT else n)"

definition dl_group_parse :: "(string \<Rightarrow> string option) \<Rightarrow> vol_delta \<Rightarrow> vol_delta" where
  "dl_group_parse env d =
     d\<lparr>d_group_max := dl_group_max (env ''INVFS_DELTA_GROUP_MAX''),
       d_group_bytes := dl_group_bytes (env ''INVFS_DELTA_GROUP_BYTES'') VOL_DELTA_GROUP_BYTES_DEFAULT,
       d_pending := 0, d_pending_bytes := 0, d_rewrite_needed := False\<rparr>"

section \<open>Retained records\<close>

text \<open>The array is absent exactly when its capacity is 0.\<close>

definition dl_staged_free :: "vol_delta \<Rightarrow> vol_delta" where
  "dl_staged_free d = (if d_cstaged d = 0 then d else d\<lparr>d_staged := [], d_cstaged := 0, d_doomed := 0\<rparr>)"

definition staged_ent :: "nat \<Rightarrow> bytes \<Rightarrow> delta_ref option \<Rightarrow> delta_staged_rec" where
  "staged_ent off rec prev =
     \<lparr>sr_off = off, sr_len = length rec, sr_bytes = Some rec, sr_has_prev = (prev \<noteq> None),
      sr_prev = (case prev of None \<Rightarrow> \<lparr>r_seg = 0, r_off = 0, r_seq = 0, r_flags = 0, r_vlen = 0\<rparr> | Some r \<Rightarrow> r)\<rparr>"

definition dl_staged_keep :: "bool \<Rightarrow> vol_delta \<Rightarrow> nat \<Rightarrow> bytes \<Rightarrow> bytes \<Rightarrow> (int \<times> vol_delta) option" where
  "dl_staged_keep alloc d off rec key =
    (if rec = [] then Some (-1, d)
     else if length (d_staged d) = d_cstaged d \<and> \<not> alloc then Some (-1, d)
     else let d = (if length (d_staged d) = d_cstaged d
                   then d\<lparr>d_cstaged := (if d_cstaged d \<noteq> 0 then d_cstaged d * 2 else 16)\<rparr> else d)
     in Option.bind
          (case d_index d of None \<Rightarrow> Some None
           | Some di \<Rightarrow> if key = [] then Some None
                        else map_option (map_option (\<lambda>i. ref_of (di_slot di ! i))) (di_find di key))
          (\<lambda>prev. Some (0, d\<lparr>d_staged := d_staged d @ [staged_ent off rec prev]\<rparr>)))"

text \<open>The slot of a doomed record, when it still names the record's span, goes back to what it named before.\<close>

definition doom_slot :: "vol_delta \<Rightarrow> delta_index \<Rightarrow> delta_staged_rec \<Rightarrow> nat \<Rightarrow> vol_delta option" where
  "doom_slot d di e i =
    (let s = di_slot di ! i; seg_pba = sr_off e div INVFS_BLOCK_SIZE; seg_off = sr_off e - seg_pba * INVFS_BLOCK_SIZE
     in if ds_seg s = seg_pba \<and> ds_off s = seg_off
        then if sr_has_prev e
             then Some (d\<lparr>d_index := Some (di\<lparr>di_slot := (di_slot di)[i := slot_set (sr_prev e) s],
                                              di_epoch := sz (di_epoch di + 1)\<rparr>)\<rparr>)
             else Option.bind (di_delete_at di i)
                    (\<lambda>di. Some (d\<lparr>d_index := Some di,
                                  d_records := (if d_records d > 0 then d_records d - 1 else d_records d)\<rparr>))
        else Some d)"

definition dl_doom_entry :: "vol_delta \<Rightarrow> delta_staged_rec \<Rightarrow> (vol_delta \<times> delta_staged_rec) option" where
  "dl_doom_entry d e =
    Option.bind
      (case (sr_bytes e, d_index d) of
         (Some bs, Some di) \<Rightarrow>
           if sr_len e \<ge> INVFS_DELTA_REC_HDR_LEN
           then let kl = dl_rd16be bs; vl = dl_rd16be (drop 2 bs); fl = dl_rd16be (drop 4 bs)
                in if kl \<noteq> 0 \<and> INVFS_DELTA_REC_HDR_LEN + unat kl + unat vl = sr_len e \<and> fl AND INVFS_DELTA_FLAG_PAD = 0
                   then Option.bind (di_find di (take (unat kl) (drop INVFS_DELTA_REC_HDR_LEN bs)))
                          (\<lambda>idx. case idx of None \<Rightarrow> Some d | Some i \<Rightarrow> doom_slot d di e i)
                   else Some d
           else Some d
       | _ \<Rightarrow> Some d)
      (\<lambda>d. Some (d, e\<lparr>sr_bytes := None\<rparr>))"

fun dl_doom_loop :: "nat list \<Rightarrow> vol_delta \<Rightarrow> vol_delta option" where
  "dl_doom_loop [] d = Some d"
| "dl_doom_loop (i # is) d =
    (let e = d_staged d ! i;
         d = d\<lparr>d_pending := (if d_pending d > 0 then d_pending d - 1 else d_pending d),
               d_pending_bytes := (if d_pending_bytes d \<ge> sr_len e then d_pending_bytes d - sr_len e else 0)\<rparr>
     in Option.bind (dl_doom_entry d e) (\<lambda>(d, e). dl_doom_loop is (d\<lparr>d_staged := (d_staged d)[i := e]\<rparr>)))"

definition dl_doom_locked :: "vol_delta \<Rightarrow> vol_delta option" where
  "dl_doom_locked d =
    Option.bind
      (if d_cstaged d = 0 then Some d
       else Option.bind (dl_doom_loop (rev [d_doomed d..<length (d_staged d)]) d)
              (\<lambda>d. Some (d\<lparr>d_doomed := length (d_staged d)\<rparr>)))
      (\<lambda>d. Some (d\<lparr>d_rewrite_needed := True\<rparr>))"

definition vol_delta_doom :: "invfs_volume \<Rightarrow> invfs_volume option" where
  "vol_delta_doom v = map_option (\<lambda>d. v\<lparr>dl := d\<rparr>) (dl_doom_locked (dl v))"

section \<open>Deferred frees\<close>

definition VOL_DELTA_RETIRE_MAX :: nat where "VOL_DELTA_RETIRE_MAX = 16384"

definition INVFS_RECIPE_ADDR_LEN :: nat where "INVFS_RECIPE_ADDR_LEN = 32"

definition vol_inode_row_key :: "nat \<Rightarrow> bytes" where
  "vol_inode_row_key i = map (\<lambda>k. of_nat (drop_bit (56 - 8 * k) i)) [0..<8]"

text \<open>The span and sequence number the index holds for a key, if any.\<close>

definition dl_retire_span :: "vol_delta \<Rightarrow> bytes \<Rightarrow> (nat \<times> nat \<times> nat) option option" where
  "dl_retire_span d key =
    (case d_index d of None \<Rightarrow> Some None
     | Some di \<Rightarrow> map_option (map_option (\<lambda>i. let s = di_slot di ! i in (ds_seg s, ds_off s, ds_seq s))) (di_find di key))"

definition dl_retire_rebase :: "vol_delta \<Rightarrow> bytes \<Rightarrow> nat \<Rightarrow> nat \<Rightarrow> nat \<Rightarrow> vol_delta" where
  "dl_retire_rebase d key seg off seq =
     d\<lparr>d_retire := map (\<lambda>e. if re_del e \<or> length (re_key e) \<noteq> length key then e
                            else if re_key e \<noteq> key then e
                            else e\<lparr>re_seg := seg, re_off := off, re_seq := seq\<rparr>) (d_retire d)\<rparr>"

definition dl_retire_push :: "bool \<Rightarrow> vol_delta \<Rightarrow> delta_retire_ent \<Rightarrow> vol_delta" where
  "dl_retire_push alloc d e =
    (if length (d_retire d) \<ge> VOL_DELTA_RETIRE_MAX then d\<lparr>d_retire_dropped := sz (d_retire_dropped d + 1)\<rparr>
     else if length (d_retire d) = d_cretire d \<and> \<not> alloc then d\<lparr>d_retire_dropped := sz (d_retire_dropped d + 1)\<rparr>
     else let d = (if length (d_retire d) = d_cretire d
                   then d\<lparr>d_cretire := (if d_cretire d \<noteq> 0 then d_cretire d * 2 else 16)\<rparr> else d);
              d = (if \<not> re_del e \<and> (re_seg e \<noteq> 0 \<or> re_off e \<noteq> 0 \<or> re_seq e \<noteq> 0)
                   then dl_retire_rebase d (re_key e) (re_seg e) (re_off e) (re_seq e) else d)
     in d\<lparr>d_retire := d_retire d @ [e]\<rparr>)"

definition retire_ent :: "bytes \<Rightarrow> bool \<Rightarrow> (nat \<times> nat \<times> nat) option \<Rightarrow> bytes option \<Rightarrow> nat list \<Rightarrow> nat list \<Rightarrow> delta_retire_ent" where
  "retire_ent key del span recipe pbas keep =
    (let (seg, off, seq) = (case span of None \<Rightarrow> (0, 0, 0) | Some t \<Rightarrow> t)
     in \<lparr>re_key = key, re_del = del, re_seg = seg, re_off = off, re_seq = seq, re_recipe = recipe, re_pbas = pbas, re_keep = keep\<rparr>)"

definition vol_retire_recipe :: "bool \<Rightarrow> bool \<Rightarrow> vol_delta \<Rightarrow> nat \<Rightarrow> bytes \<Rightarrow> bool \<Rightarrow> vol_delta option" where
  "vol_retire_recipe a_key a_push d inode_id recipe_addr del =
    (if recipe_addr = replicate INVFS_RECIPE_ADDR_LEN 0 then Some d
     else if \<not> a_key then Some d
     else let kb = vol_inode_row_key inode_id
     in Option.bind (dl_retire_span d kb)
          (\<lambda>span. Some (dl_retire_push a_push d (retire_ent kb del span (Some recipe_addr) [] []))))"

definition vol_retire_pbas :: "bool \<Rightarrow> bool \<Rightarrow> bool \<Rightarrow> bool \<Rightarrow> vol_delta \<Rightarrow> nat \<Rightarrow> nat list \<Rightarrow> nat list \<Rightarrow> vol_delta option" where
  "vol_retire_pbas a_key a_pbas a_keep a_push d inode_id pbas keep =
    (if pbas = [] then Some d
     else if \<not> a_key then Some d
     else if \<not> a_pbas then Some d
     else if keep \<noteq> [] \<and> \<not> a_keep then Some d
     else let kb = vol_inode_row_key inode_id
     in Option.bind (dl_retire_span d kb)
          (\<lambda>span. Some (dl_retire_push a_push d (retire_ent kb False span None pbas keep))))"

text \<open>Whether the mutation behind an entry is still the live one.\<close>

definition retire_live :: "vol_delta \<Rightarrow> delta_retire_ent \<Rightarrow> bool option" where
  "retire_live d e =
    (case d_index d of None \<Rightarrow> Some False
     | Some di \<Rightarrow>
         Option.bind (di_find di (re_key e))
           (\<lambda>idx. case idx of None \<Rightarrow> Some False
                  | Some i \<Rightarrow>
                      let s = di_slot di ! i; same = (ds_seg s = re_seg e \<and> ds_off s = re_off e \<and> ds_seq s = re_seq e)
                      in Some (if re_del e
                               then ds_flags s AND INVFS_DELTA_FLAG_DELETE \<noteq> 0
                                    \<and> (re_seg e = 0 \<and> re_off e = 0 \<and> re_seq e = 0 \<or> same)
                               else same)))"

fun retire_filter :: "vol_delta \<Rightarrow> delta_retire_ent list \<Rightarrow> delta_retire_ent list option" where
  "retire_filter d [] = Some []"
| "retire_filter d (e # es) =
    Option.bind (retire_live d e)
      (\<lambda>live. Option.bind (retire_filter d es) (\<lambda>rest. Some (if live then e # rest else rest)))"

text \<open>The entries to free, and the handle with an empty list.\<close>

definition dl_retire_collect :: "bool \<Rightarrow> vol_delta \<Rightarrow> (delta_retire_ent list \<times> vol_delta) option" where
  "dl_retire_collect alloc d =
    (if d_retire d = [] then Some ([], d)
     else if \<not> alloc then Some ([], d)
     else Option.bind (retire_filter d (d_retire d))
            (\<lambda>live. Some (live, d\<lparr>d_retire := [], d_cretire := 0\<rparr>)))"

section \<open>Healing before a fence\<close>

definition dl_pad_span :: "bool \<Rightarrow> invfs_volume \<Rightarrow> nat \<Rightarrow> nat \<Rightarrow> int \<times> invfs_volume" where
  "dl_pad_span alloc v off len =
    (if len < INVFS_DELTA_REC_HDR_LEN + 1 then (-1, v)
     else if \<not> alloc then (-1, v)
     else let pad = vol_delta_pad_build len
     in if length pad \<noteq> len then (-1, v)
        else let (r, v) = io_pwrite v off pad in (if r = 0 then 0 else -1, v))"

fun heal_pads :: "(nat \<Rightarrow> bool) \<Rightarrow> invfs_volume \<Rightarrow> nat list \<Rightarrow> invfs_volume" where
  "heal_pads alloc v [] = v"
| "heal_pads alloc v (i # is) =
    (let e = d_staged (dl v) ! i in heal_pads alloc (snd (dl_pad_span (alloc i) v (sr_off e) (sr_len e))) is)"

fun heal_live :: "invfs_volume \<Rightarrow> nat list \<Rightarrow> invfs_volume" where
  "heal_live v [] = v"
| "heal_live v (i # is) =
    (case sr_bytes (d_staged (dl v) ! i) of
       None \<Rightarrow> heal_live v is
     | Some bs \<Rightarrow> let (r, v) = io_pwrite v (sr_off (d_staged (dl v) ! i)) bs in if r \<noteq> 0 then v else heal_live v is)"

definition dl_staged_heal :: "(nat \<Rightarrow> bool) \<Rightarrow> invfs_volume \<Rightarrow> invfs_volume" where
  "dl_staged_heal alloc v =
    (let nst = length (d_staged (dl v)); n = (if d_doomed (dl v) < nst then d_doomed (dl v) else nst)
     in if d_cstaged (dl v) = 0 then v
        else heal_live (heal_pads alloc v [0..<n]) [n..<nst])"

definition vol_delta_heal :: "(nat \<Rightarrow> bool) \<Rightarrow> invfs_volume \<Rightarrow> invfs_volume" where
  "vol_delta_heal alloc v =
    (if d_locked (dl v) then v
     else if d_rewrite_needed (dl v) \<and> length (d_staged (dl v)) > 0 then dl_staged_heal alloc v else v)"

section \<open>Segments\<close>

definition reserve_block :: "invfs_superblock \<Rightarrow> bool \<Rightarrow> vol_space \<Rightarrow> nat \<Rightarrow> vol_space" where
  "reserve_block s counters_live p b =
    (if bit_get (bitmap p) b then p
     else let p = p\<lparr>bitmap := bit_set (bitmap p) b, meta_type_bitmap := map_option (\<lambda>m. bit_set m b) (meta_type_bitmap p)\<rparr>;
              p = vol_bm_dirty p b;
              dec = (\<lambda>n :: nat. if n \<noteq> 0 then n - 1 else n)
     in if \<not> counters_live then p
        else let p = p\<lparr>free_blocks := dec (free_blocks p)\<rparr>
        in if b \<ge> sb_shadow_zone_start s then p\<lparr>z_shadow := (z_shadow p)\<lparr>z_free := dec (z_free (z_shadow p))\<rparr>\<rparr>
           else if b \<ge> sb_raw_zone_start s then p\<lparr>z_raw := (z_raw p)\<lparr>z_free := dec (z_free (z_raw p))\<rparr>\<rparr>
           else p)"

definition dl_reserve_segment :: "invfs_volume \<Rightarrow> nat \<Rightarrow> invfs_volume" where
  "dl_reserve_segment v pba =
    (let end = sz (pba + unat INVFS_DELTA_SEG_BLOCKS);
         live = (z_cursor (z_shadow (sp v)) \<noteq> 0 \<or> z_cursor (z_raw (sp v)) \<noteq> 0)
     in if pba \<ge> sb_total_blocks (sb v) then v
        else let end = (if end > sb_total_blocks (sb v) then sb_total_blocks (sb v) else end)
        in v\<lparr>sp := foldl (reserve_block (sb v) live) (sp v) [pba..<end]\<rparr>)"

definition delta_new_segment :: "bool \<Rightarrow> nat \<Rightarrow> invfs_volume \<Rightarrow> nat \<Rightarrow> (nat \<times> invfs_volume) option" where
  "delta_new_segment alloc depth v prev =
    (let n = unat INVFS_DELTA_SEG_BLOCKS;
         (pba, v) = alloc_blocks v (sb_shadow_zone_start (sb v)) (sb_shadow_zone_blocks (sb v)) n False True
     in if pba = 0 then Some (0, v)
        else if \<not> alloc then map_option (Pair 0) (vol_free_blocks depth v pba n)
        else let v = v\<lparr>dl := (dl v)\<lparr>d_seg_gen := sz (d_seg_gen (dl v) + 1)\<rparr>\<rparr>;
                 seg = overwrite 0 (delta_hdr_encode (of_nat (d_seg_gen (dl v))) (of_nat prev))
                         (replicate INVFS_DELTA_SEG_BYTES 0);
                 (r, v) = io_pwrite v (sz (pba * INVFS_BLOCK_SIZE)) seg
        in if r \<noteq> 0 then map_option (Pair 0) (vol_free_blocks depth v pba n)
           else let (r, v) = v_barrier v
           in if r < 0 then map_option (\<lambda>d. (0, v\<lparr>dl := d\<rparr>)) (dl_doom_locked (dl v))
              else Some (pba, v))"

section \<open>Dooming a record\<close>

lemma encode_fields:
  assumes "length val < 2 ^ 16"
  shows "dl_rd16be (delta_rec_encode key val fl) = of_nat (length key)"
    "dl_rd16be (drop 2 (delta_rec_encode key val fl)) = of_nat (length val)"
    "dl_rd16be (drop 4 (delta_rec_encode key val fl)) = fl"
    "take (length key) (drop 10 (delta_rec_encode key val fl)) = key"
  using assms by (simp_all add: encode_expand)

lemma di_ok_slot_set:
  assumes "di_ok di" "i < di_cap di" "ds_key (di_slot di ! i) = Some key"
  shows "di_ok (di\<lparr>di_slot := (di_slot di)[i := slot_set r (di_slot di ! i)], di_epoch := x\<rparr>)"
    "di_refs (di\<lparr>di_slot := (di_slot di)[i := slot_set r (di_slot di ! i)], di_epoch := x\<rparr>) = (di_refs di)(key \<mapsto> r)"
proof -
  let ?s = "slot_set r (di_slot di ! i)"
  have len: "i < length (di_slot di)" and t: "tab_ok (di_slot di)" using assms by (auto simp: di_ok_def)
  have wf: "slot_wf (di_slot di ! i)" using t len by (auto simp: tab_ok_def list_all_length)
  have s: "ds_key ?s = Some key" "slot_wf ?s" using assms(3) wf by (auto simp: slot_set_def slot_wf_def)
  note ow = tab_ok_overwrite [OF t len assms(3) s]
  have "ref_of ?s = r" by (cases r) (simp add: ref_of_def slot_set_def)
  then show "di_refs (di\<lparr>di_slot := (di_slot di)[i := ?s], di_epoch := x\<rparr>) = (di_refs di)(key \<mapsto> r)"
    using ow(2) by (simp add: di_refs_def)
  show "di_ok (di\<lparr>di_slot := (di_slot di)[i := ?s], di_epoch := x\<rparr>)"
    using assms(1) ow(1,3) by (simp add: di_ok_def)
qed

text \<open>What dooming leaves of the delta fields besides the index.\<close>

definition same_stage :: "vol_delta \<Rightarrow> vol_delta \<Rightarrow> bool" where
  "same_stage d d' \<longleftrightarrow> d_staged d' = d_staged d \<and> d_cstaged d' = d_cstaged d \<and> d_doomed d' = d_doomed d"

lemma doom_slot_restores:
  assumes "di_ok di" "i < di_cap di" "ds_key (di_slot di ! i) = Some key" "sr_off e = seg * 4096 + off" "off < 4096"
    and "ds_seg (di_slot di ! i) = seg" "ds_off (di_slot di ! i) = off"
    and "prev = (if sr_has_prev e then Some (sr_prev e) else None)"
  shows "\<exists>d' di'. doom_slot d di e i = Some d' \<and> same_stage d d' \<and> d_index d' = Some di' \<and> di_ok di'
    \<and> di_refs di' = (di_refs di)(key := prev)"
proof -
  have hit: "ds_seg (di_slot di ! i) = sr_off e div INVFS_BLOCK_SIZE"
    "ds_off (di_slot di ! i) = sr_off e - sr_off e div INVFS_BLOCK_SIZE * INVFS_BLOCK_SIZE"
    using assms(4-7) by (simp_all add: INVFS_BLOCK_SIZE_def)
  show ?thesis
  proof (cases "sr_has_prev e")
    case True
    then show ?thesis using di_ok_slot_set [OF assms(1-3)] hit assms(8)
      by (simp add: doom_slot_def Let_def same_stage_def)
  next
    case False
    then show ?thesis using di_delete_ok [OF assms(1-3)] hit assms(8)
      by (auto simp: doom_slot_def Let_def same_stage_def)
  qed
qed

lemma doom_slot_misses:
  assumes "sr_off e = seg * 4096 + off" "4096 \<le> off" "ds_seg (di_slot di ! i) = seg"
  shows "doom_slot d di e i = Some d"
proof -
  have "(seg * 4096 + off) div 4096 = seg + off div 4096" by simp
  moreover have "0 < off div 4096" using assms(2) by (simp add: div_greater_zero_iff)
  ultimately show ?thesis using assms by (simp add: doom_slot_def Let_def INVFS_BLOCK_SIZE_def)
qed

text \<open>A record as \<open>vol_delta_append\<close> stages it.\<close>

definition stageable :: "bytes \<Rightarrow> bytes \<Rightarrow> u16 \<Rightarrow> bool" where
  "stageable key val fl \<longleftrightarrow> 0 < length key \<and> length key < 2 ^ 16 \<and> length val < 2 ^ 16 \<and> fl AND INVFS_DELTA_FLAG_PAD = 0"

lemma doom_entry_slot:
  assumes "di_ok di" "d_index d = Some di" "stageable key val fl" "di_refs di key = Some r"
    and "e = staged_ent at (delta_rec_encode key val fl) prev"
  obtains i where "i < di_cap di" "ds_key (di_slot di ! i) = Some key" "r = ref_of (di_slot di ! i)"
    "dl_doom_entry d e = Option.bind (doom_slot d di e i) (\<lambda>d. Some (d, e\<lparr>sr_bytes := None\<rparr>))"
proof -
  let ?bs = "delta_rec_encode key val fl"
  have k: "0 < length key" "length key < 2 ^ 16" "length val < 2 ^ 16" "fl AND INVFS_DELTA_FLAG_PAD = 0"
    using assms(3) by (simp_all add: stageable_def)
  obtain i where i: "di_find di key = Some (Some i)" "i < di_cap di" "ds_key (di_slot di ! i) = Some key" "r = ref_of (di_slot di ! i)"
    using di_find_spec [OF assms(1) k(2)] assms(4) by (auto split: option.splits)
  have kl: "unat (of_nat (length key) :: u16) = length key" "unat (of_nat (length val) :: u16) = length val"
    "(of_nat (length key) :: u16) \<noteq> 0"
    using k unat_of_nat_u16 u16_of_nat_eq_0 [OF k(2)] by auto
  have "length ?bs = 10 + length key + length val" using length_encode [OF k(3)] .
  then have "dl_doom_entry d e = Option.bind (doom_slot d di e i) (\<lambda>d. Some (d, e\<lparr>sr_bytes := None\<rparr>))"
    using i(1) k(4) kl
    by (simp add: dl_doom_entry_def assms(2,5) staged_ent_def Let_def encode_fields [OF k(3)] INVFS_DELTA_REC_HDR_LEN_def)
  then show ?thesis using that i by blast
qed

lemma doom_entry_restores:
  assumes "di_ok di" "d_index d = Some di" "stageable key val fl" "di_refs di key = Some r" "r_seg r = seg" "r_off r = off"
    and "e = staged_ent (seg * 4096 + off) (delta_rec_encode key val fl) prev" "off < 4096"
  shows "\<exists>d' di'. dl_doom_entry d e = Some (d', e\<lparr>sr_bytes := None\<rparr>) \<and> same_stage d d' \<and> d_index d' = Some di' \<and> di_ok di'
    \<and> di_refs di' = (di_refs di)(key := prev)"
proof -
  obtain i where i: "i < di_cap di" "ds_key (di_slot di ! i) = Some key" "r = ref_of (di_slot di ! i)"
    "dl_doom_entry d e = Option.bind (doom_slot d di e i) (\<lambda>d. Some (d, e\<lparr>sr_bytes := None\<rparr>))"
    by (rule doom_entry_slot [OF assms(1-4,7)])
  have e: "sr_off e = seg * 4096 + off" "prev = (if sr_has_prev e then Some (sr_prev e) else None)"
    by (auto simp: assms(7) staged_ent_def split: option.splits)
  from doom_slot_restores [OF assms(1) i(1,2) e(1) assms(8) _ _ e(2), of d] show ?thesis
    using assms(5,6) i(3,4) by (auto simp: ref_of_def)
qed

lemma doom_entry_misses:
  assumes "di_ok di" "d_index d = Some di" "stageable key val fl" "di_refs di key = Some r" "r_seg r = seg"
    and "e = staged_ent (seg * 4096 + off) (delta_rec_encode key val fl) prev" "4096 \<le> off"
  shows "dl_doom_entry d e = Some (d, e\<lparr>sr_bytes := None\<rparr>)"
proof -
  obtain i where "i < di_cap di" "ds_key (di_slot di ! i) = Some key" and i: "r = ref_of (di_slot di ! i)"
    "dl_doom_entry d e = Option.bind (doom_slot d di e i) (\<lambda>d. Some (d, e\<lparr>sr_bytes := None\<rparr>))"
    by (rule doom_entry_slot [OF assms(1-4,6)])
  have "doom_slot d di e i = Some d"
    by (rule doom_slot_misses [OF _ assms(7)]) (use assms(5,6) i(1) in \<open>auto simp: staged_ent_def ref_of_def\<close>)
  then show ?thesis using i(2) by simp
qed

section \<open>Dooming a group\<close>

text \<open>Records staged one after the other, as \<open>vol_delta_append\<close> does between two fences: retained with what
  the key named before, then indexed. The other counters may change in any way.\<close>

inductive stages :: "vol_delta \<Rightarrow> vol_delta \<Rightarrow> bool" where
  stages_none: "stages d0 d0"
| stages_more: "stages d0 d \<Longrightarrow> d_index d = Some di \<Longrightarrow> stageable key val fl \<Longrightarrow> off < 4096 \<Longrightarrow>
    dl_staged_keep a d (seg * 4096 + off) (delta_rec_encode key val fl) key = Some (0, d1) \<Longrightarrow>
    di_put a1 a2 di key \<lparr>r_seg = seg, r_off = off, r_seq = seq, r_flags = fl, r_vlen = vl\<rparr> = Some (0, di', ins) \<Longrightarrow>
    same_stage d1 d2 \<Longrightarrow> d_index d2 = Some di' \<Longrightarrow> stages d0 d2"

lemma keep_view:
  assumes "dl_staged_keep a d at rec key = Some (0, d1)" "d_index d = Some di" "di_ok di" "0 < length key" "length key < 2 ^ 16"
  shows "d_staged d1 = d_staged d @ [staged_ent at rec (di_refs di key)] \<and> d_index d1 = d_index d \<and> d_doomed d1 = d_doomed d
    \<and> (length (d_staged d) \<le> d_cstaged d \<longrightarrow> length (d_staged d1) \<le> d_cstaged d1)"
proof -
  obtain r where r: "di_find di key = Some r" "di_refs di key = map_option (\<lambda>i. ref_of (di_slot di ! i)) r"
    using di_find_spec [OF assms(3,5)] by (fastforce split: option.splits)
  show ?thesis using assms(1,2,4) r by (auto simp: dl_staged_keep_def Let_def split: if_splits)
qed

lemma stages_keep:
  assumes "stages d0 d" "d_index d0 = Some di0" "di_ok di0" "length (d_staged d0) \<le> d_cstaged d0"
  shows "\<exists>di. d_index d = Some di \<and> di_ok di \<and> d_doomed d = d_doomed d0 \<and> length (d_staged d) \<le> d_cstaged d
    \<and> length (d_staged d0) \<le> length (d_staged d)"
  using assms
proof (induction rule: stages.induct)
  case (stages_more d0 d di key val fl off a seg d1 a1 a2 seq vl di' ins d2)
  have ok: "di_ok di" "d_doomed d = d_doomed d0" "length (d_staged d) \<le> d_cstaged d" "length (d_staged d0) \<le> length (d_staged d)"
    using stages_more by auto
  have k: "0 < length key" "length key < 2 ^ 16" using stages_more(3) by (simp_all add: stageable_def)
  note kv = keep_view [OF stages_more(5,2) ok(1) k]
  have "di_ok di'" using di_put_ok [OF ok(1) k(2), of a1 a2 "\<lparr>r_seg = seg, r_off = off, r_seq = seq, r_flags = fl, r_vlen = vl\<rparr>"]
    stages_more(6) by auto
  then show ?case using kv ok stages_more(7,8) by (auto simp: same_stage_def)
qed auto

text \<open>A handle that agrees with \<open>d\<close> on its retained records and on what its index names.\<close>

definition agrees_with :: "vol_delta \<Rightarrow> vol_delta \<Rightarrow> bool" where
  "agrees_with d x \<longleftrightarrow> length (d_staged d) \<le> length (d_staged x) \<and> take (length (d_staged d)) (d_staged x) = d_staged d
     \<and> (\<exists>a b. d_index d = Some a \<and> d_index x = Some b \<and> di_ok b \<and> di_refs b = di_refs a)"

lemma doom_loop_unwinds:
  assumes "stages d0 d" "d_index d0 = Some di0" "di_ok di0" "length (d_staged d0) \<le> d_cstaged d0" "agrees_with d x"
  shows "\<exists>x' di. dl_doom_loop (rev [length (d_staged d0)..<length (d_staged d)]) x = Some x' \<and> d_index x' = Some di \<and> di_ok di
    \<and> di_refs di = di_refs di0 \<and> length (d_staged x') = length (d_staged x)
    \<and> (\<forall>i. length (d_staged d0) \<le> i \<and> i < length (d_staged x) \<and> (length (d_staged d) \<le> i \<longrightarrow> sr_bytes (d_staged x ! i) = None)
        \<longrightarrow> sr_bytes (d_staged x' ! i) = None)"
  using assms
proof (induction arbitrary: x rule: stages.induct)
  case (stages_none d0)
  then show ?case by (auto simp: agrees_with_def)
next
  case (stages_more d0 d di key val fl off a seg d1 a1 a2 seq vl di' ins d2)
  let ?n = "length (d_staged d)" and ?r = "\<lparr>r_seg = seg, r_off = off, r_seq = seq, r_flags = fl, r_vlen = vl\<rparr>"
  let ?e = "staged_ent (seg * 4096 + off) (delta_rec_encode key val fl) (di_refs di key)"
  have k: "0 < length key" "length key < 2 ^ 16" using stages_more(3) by (simp_all add: stageable_def)
  have ok: "di_ok di" "length (d_staged d0) \<le> ?n"
    using stages_keep [OF stages_more(1) stages_more.prems(1-3)] stages_more(2) by auto
  have st2: "d_staged d2 = d_staged d @ [?e]"
    using keep_view [OF stages_more(5,2) ok(1) k] stages_more(7) by (simp add: same_stage_def)
  have put: "di_refs di' = (di_refs di)(key \<mapsto> ?r)" using di_put_ok [OF ok(1) k(2), of a1 a2 ?r] stages_more(6) by auto
  obtain b where b: "d_index x = Some b" "di_ok b" "di_refs b = di_refs di'"
    using stages_more.prems(4) stages_more(8) by (auto simp: agrees_with_def)
  have xs: "take (Suc ?n) (d_staged x) = d_staged d @ [?e]" "Suc ?n \<le> length (d_staged x)"
    using stages_more.prems(4) st2 by (auto simp: agrees_with_def)
  have xn: "d_staged x ! ?n = ?e" using arg_cong [OF xs(1), of "\<lambda>l. l ! ?n"] by simp
  define y where "y = x\<lparr>d_pending := (if d_pending x > 0 then d_pending x - 1 else d_pending x),
      d_pending_bytes := (if d_pending_bytes x \<ge> sr_len ?e then d_pending_bytes x - sr_len ?e else 0)\<rparr>"
  have y: "d_index y = Some b" "d_staged y = d_staged x" by (simp_all add: y_def b)
  obtain z di3 where z: "dl_doom_entry y ?e = Some (z, ?e\<lparr>sr_bytes := None\<rparr>)" "d_staged z = d_staged x"
      "d_index z = Some di3" "di_ok di3" "di_refs di3 = di_refs di"
  proof -
    have "di_refs b key = Some ?r" by (simp add: b put)
    from doom_entry_restores [OF b(2) y(1) stages_more(3) this _ _ refl stages_more(4), where prev = "di_refs di key" and seg = seg]
    obtain z di3 where "dl_doom_entry y ?e = Some (z, ?e\<lparr>sr_bytes := None\<rparr>)" "same_stage y z" "d_index z = Some di3" "di_ok di3"
      "di_refs di3 = (di_refs b)(key := di_refs di key)" by auto
    moreover from this(5) have "di_refs di3 = di_refs di" by (simp add: b put fun_eq_iff)
    ultimately show ?thesis using that y(2) by (simp add: same_stage_def)
  qed
  define w where "w = z\<lparr>d_staged := (d_staged z)[?n := ?e\<lparr>sr_bytes := None\<rparr>]\<rparr>"
  have tk: "take ?n (d_staged x) = d_staged d" using arg_cong [OF xs(1), of "take ?n"] by (simp add: min_def)
  have ag: "agrees_with d w" using xs(2) tk z stages_more(2) by (auto simp: agrees_with_def w_def)
  have lst: "rev [length (d_staged d0)..<length (d_staged d2)] = ?n # rev [length (d_staged d0)..<?n]"
    using ok(2) by (simp add: st2)
  have step: "dl_doom_loop (rev [length (d_staged d0)..<length (d_staged d2)]) x = dl_doom_loop (rev [length (d_staged d0)..<?n]) w"
    unfolding lst dl_doom_loop.simps Let_def xn y_def [symmetric] z(1) by (simp add: w_def)
  have wl: "length (d_staged w) = length (d_staged x)" by (simp add: w_def z)
  have wi: "sr_bytes (d_staged w ! i) = None" if "i = ?n \<or> Suc ?n \<le> i \<and> sr_bytes (d_staged x ! i) = None" for i
    using that xs(2) by (auto simp: w_def z nth_list_update)
  from stages_more.IH [OF stages_more.prems(1-3) ag] show ?case unfolding step wl
    using wi by (auto simp: st2 Suc_le_eq) (metis (no_types, lifting) le_neq_implies_less)
qed

section \<open>Properties\<close>

text \<open>C35. When the fence of a group fails, dooming it takes the index back: for any run of records staged in
  the first block of a segment since the retained set was last doomed or empty, \<open>dl_doom_locked\<close> returns,
  the index is well formed and names for every key exactly what it named before the run, and every retained
  entry of the run is left without bytes, counted as doomed and marked for healing.\<close>

theorem doom_unwinds_group:
  assumes "stages d0 d" "d_index d0 = Some di0" "di_ok di0" "length (d_staged d0) \<le> d_cstaged d0"
    and "d_doomed d0 = length (d_staged d0)"
  shows "\<exists>d' di. dl_doom_locked d = Some d' \<and> d_index d' = Some di \<and> di_ok di \<and> di_refs di = di_refs di0
    \<and> length (d_staged d') = length (d_staged d) \<and> d_rewrite_needed d'
    \<and> (\<forall>i. length (d_staged d0) \<le> i \<and> i < length (d_staged d) \<longrightarrow> sr_bytes (d_staged d' ! i) = None)
    \<and> (d_staged d \<noteq> [] \<longrightarrow> d_doomed d' = length (d_staged d'))"
proof -
  obtain di where di: "d_index d = Some di" "di_ok di" "d_doomed d = d_doomed d0" "length (d_staged d) \<le> d_cstaged d"
    "length (d_staged d0) \<le> length (d_staged d)"
    using stages_keep [OF assms(1-4)] by auto
  have "agrees_with d d" using di by (auto simp: agrees_with_def)
  from doom_loop_unwinds [OF assms(1-4) this] obtain x' di' where
    x: "dl_doom_loop (rev [length (d_staged d0)..<length (d_staged d)]) d = Some x'" "d_index x' = Some di'" "di_ok di'"
      "di_refs di' = di_refs di0" "length (d_staged x') = length (d_staged d)"
      "\<And>i. length (d_staged d0) \<le> i \<Longrightarrow> i < length (d_staged d) \<Longrightarrow> sr_bytes (d_staged x' ! i) = None"
    by auto
  show ?thesis
  proof (cases "d_cstaged d = 0")
    case True
    then have e: "d_staged d = []" using di(4) by simp
    then have "x' = d" using x(1) by simp
    then show ?thesis using True x e by (simp add: dl_doom_locked_def)
  next
    case False
    then show ?thesis using x assms(5) di(3) by (simp add: dl_doom_locked_def)
  qed
qed

text \<open>One record staged on a fresh index.\<close>

lemma demo_stage:
  assumes "di_ok di" "di_refs di = Map.empty" "d0 = demo_delta\<lparr>d_index := Some di\<rparr>"
  obtains d di' where "stages d0 d" "length (d_staged d) = 1" "d_index d = Some di'" "di_refs di' [1] \<noteq> None"
proof -
  let ?r = "\<lparr>r_seg = 9, r_off = 44, r_seq = 1, r_flags = 0, r_vlen = 2\<rparr>"
  have st: "stageable [1] [5, 6] 0" by (simp add: stageable_def)
  obtain r where r: "di_find di [1] = Some r" using di_find_spec [OF assms(1), of "[1]"] by auto
  have "delta_rec_encode [1] [5, 6] 0 \<noteq> []" using length_encode [of "[5, 6]" "[1]" 0] by force
  then obtain d1 where d1: "dl_staged_keep True d0 (9 * 4096 + 44) (delta_rec_encode [1] [5, 6] 0) [1] = Some (0, d1)"
    by (simp add: dl_staged_keep_def assms(3) demo_delta_def r)
  obtain di' ins where put: "di_put True True di [1] ?r = Some (0, di', ins)" "di_refs di' = (di_refs di)([1] \<mapsto> ?r)"
    using di_put_ok [OF assms(1), of "[1]" True True ?r] by auto
  have d0: "d_index d0 = Some di" "d_staged d0 = []" by (simp_all add: assms(3) demo_delta_def)
  have "stages d0 (d1\<lparr>d_index := Some di'\<rparr>)"
    by (rule stages_more [OF stages_none d0(1) st _ d1 put(1)]) (simp_all add: same_stage_def)
  moreover have "length (d_staged d1) = 1" using keep_view [OF d1 d0(1) assms(1)] d0(2) by simp
  ultimately show ?thesis using that [of "d1\<lparr>d_index := Some di'\<rparr>" di'] put(2) by simp
qed

theorem doom_unwinds_group_witness:
  "\<exists>di d d' di'. di_new True True 0 = (Some di, 1) \<and> stages (demo_delta\<lparr>d_index := Some di\<rparr>) d \<and> length (d_staged d) = 1
     \<and> dl_doom_locked d = Some d' \<and> d_index d' = Some di' \<and> di_refs di' = Map.empty"
proof -
  obtain di where di: "di_new True True 0 = (Some di, 1)" "di_ok di" "di_refs di = Map.empty" by (rule new_index)
  let ?d0 = "demo_delta\<lparr>d_index := Some di\<rparr>"
  obtain d x where d: "stages ?d0 d" "length (d_staged d) = 1" "d_index d = Some x" "di_refs x [1] \<noteq> None"
    by (rule demo_stage [OF di(2,3) refl])
  have "d_index ?d0 = Some di" "length (d_staged ?d0) \<le> d_cstaged ?d0" "d_doomed ?d0 = length (d_staged ?d0)"
    by (simp_all add: demo_delta_def)
  from doom_unwinds_group [OF d(1) this(1) di(2) this(2,3)] show ?thesis using di d by auto
qed

text \<open>C36. A doomed record that lies beyond the first block of its segment is not rolled back: the search for
  its span compares the block that holds the record with the first block of the segment, so that the entry
  loses its bytes and the index goes on naming the record.\<close>

theorem doomed_record_stays_indexed:
  assumes "di_ok di" "d_index d = Some di" "stageable key val fl" "di_refs di key = Some r"
    and "r_seg r = seg" "r_off r = off" "4096 \<le> off"
  shows "dl_doom_entry d (staged_ent (seg * 4096 + off) (delta_rec_encode key val fl) prev)
    = Some (d, (staged_ent (seg * 4096 + off) (delta_rec_encode key val fl) prev)\<lparr>sr_bytes := None\<rparr>)"
  by (rule doom_entry_misses [OF assms(1-5) refl assms(7)])

theorem doomed_record_stays_indexed_witness:
  "\<exists>di e. di_refs di [1] = Some \<lparr>r_seg = 9, r_off = 5000, r_seq = 1, r_flags = 0, r_vlen = 2\<rparr>
     \<and> dl_doom_entry (demo_delta\<lparr>d_index := Some di\<rparr>) (staged_ent (9 * 4096 + 5000) (delta_rec_encode [1] [5, 6] 0) None)
       = Some (demo_delta\<lparr>d_index := Some di\<rparr>, e)"
proof -
  let ?r = "\<lparr>r_seg = 9, r_off = 5000, r_seq = 1, r_flags = 0, r_vlen = 2\<rparr>"
  obtain di where di: "di_ok di" by (rule new_index)
  obtain di' ins where put: "di_put True True di [1] ?r = Some (0, di', ins)" "di_ok di'" "di_refs di' = (di_refs di)([1] \<mapsto> ?r)"
    using di_put_ok [OF di, of "[1]" True True ?r] by auto
  have "d_index (demo_delta\<lparr>d_index := Some di'\<rparr>) = Some di'" "stageable [1] [5, 6] 0" "di_refs di' [1] = Some ?r"
    by (simp_all add: stageable_def put)
  from doomed_record_stays_indexed [OF put(2) this, of 9 5000 None] this(3) show ?thesis by auto
qed

text \<open>C37. Healing a doomed span: when the pad write returns 0, replaying the region finds the records before
  and after the span unchanged and, in its place, only records that carry the pad flag, whatever the span
  held.\<close>

theorem pad_span_neutral:
  assumes "vok v" "vin_range v base L" "L < 2 ^ 64" "\<forall>r\<in>set (as @ bs). drec_ok r"
    and "store_read (vdata v) base L = concat (map drec_encode as) @ x @ concat (map drec_encode bs) @ replicate z 0"
    and "dl_pad_span a v (base + length (concat (map drec_encode as))) (length x) = (0, v')"
  shows "vok v' \<and> (\<exists>ps. (\<forall>r\<in>set ps. snd (snd r) = INVFS_DELTA_FLAG_PAD)
    \<and> delta_records (store_read (vdata v') base L) = as @ ps @ bs)"
proof -
  let ?A = "concat (map drec_encode as)" and ?B = "concat (map drec_encode bs) @ replicate z 0"
  let ?off = "base + length ?A" and ?n = "length x"
  have L: "L = length ?A + (?n + length ?B)" using arg_cong [OF assms(5), of length] by simp
  have n: "11 \<le> ?n" and w: "length (vol_delta_pad_build ?n) = ?n" "io_pwrite v ?off (vol_delta_pad_build ?n) = (0, v')"
    using assms(6) by (auto simp: dl_pad_span_def Let_def INVFS_DELTA_REC_HDR_LEN_def split: if_splits prod.splits)
  obtain ps where ps: "vol_delta_pad_build ?n = concat (map drec_encode ps)" "\<forall>r\<in>set ps. drec_ok r"
    "\<forall>r\<in>set ps. snd (snd r) = INVFS_DELTA_FLAG_PAD"
  proof -
    have "?n < 2 ^ 64" using L assms(3) by linarith
    from pad_loop_records [OF n this] show ?thesis
      using that n by (auto simp: vol_delta_pad_build_def INVFS_DELTA_REC_HDR_LEN_def)
  qed
  have "\<forall>j < length (vol_delta_pad_build ?n). vin v (?off + j)" using assms(2) w(1) L by (auto simp: add.assoc)
  from vol.wr_view [OF assms(1) this w(2)] have v': "vok v'" "vdata v' = store_write (vdata v) ?off (vol_delta_pad_build ?n)"
    by auto
  have split: "store_read f base L = store_read f base (length ?A) @ store_read f ?off ?n @ store_read f (?off + ?n) (length ?B)" for f
    unfolding L by (simp only: store_read_append)
  have old: "store_read (vdata v) base (length ?A) = ?A" "store_read (vdata v) (?off + ?n) (length ?B) = ?B"
    using assms(5) unfolding split by (simp_all add: append_eq_append_conv del: map_append concat_append)
  have "store_read (vdata v') base L = ?A @ vol_delta_pad_build ?n @ ?B"
    unfolding split v'(2) using old w(1) by (simp add: store_read_write_out store_read_write_same)
  then have "store_read (vdata v') base L = concat (map drec_encode (as @ ps @ bs)) @ replicate z 0" by (simp add: ps(1))
  moreover have "\<forall>r\<in>set (as @ ps @ bs). drec_ok r" using assms(4) ps(2) by auto
  ultimately show ?thesis using v'(1) ps(3) records_then_zeros(1) [of "as @ ps @ bs" z] by auto
qed

theorem pad_span_neutral_witness:
  "\<exists>v'. dl_pad_span True demo_volume 0 16 = (0, v') \<and> vok v'"
proof -
  have sg: "single (st demo_volume)" by (simp add: demo_volume_def demo_vol_def)
  have n: "length (vol_delta_pad_build 16) = 16"
    by (rule pad_loop_records [of 16]) (auto simp: vol_delta_pad_build_def INVFS_DELTA_REC_HDR_LEN_def)
  have "fst (blkio_pwrite (demo_io False) 0 (vol_delta_pad_build 16)) = 0"
    by (rule blkio_pwrite_ok [OF demo_io_ready(1)]) (simp add: demo_io_def)
  then obtain b where "blkio_pwrite (demo_io False) 0 (vol_delta_pad_build 16) = (0, b)"
    by (cases "blkio_pwrite (demo_io False) 0 (vol_delta_pad_build 16)") auto
  then have "fst (io_pwrite demo_volume 0 (vol_delta_pad_build 16)) = 0"
    using sg by (simp add: io_pwrite_def vmux_pwrite_def wr0_def demo_volume_def demo_vol_def)
  then obtain v' where "io_pwrite demo_volume 0 (vol_delta_pad_build 16) = (0, v')"
    by (cases "io_pwrite demo_volume 0 (vol_delta_pad_build 16)") auto
  then have w: "dl_pad_span True demo_volume 0 16 = (0, v')"
    using n by (simp add: dl_pad_span_def Let_def INVFS_DELTA_REC_HDR_LEN_def)
  have "store_read (vdata demo_volume) 0 16 = concat (map drec_encode []) @ replicate 16 0 @ concat (map drec_encode []) @ replicate 0 0"
    using sg by (intro nth_equalityI) (auto simp: vol_data_def demo_volume_def demo_vol_def demo_io_def demo_file_def nth_store_read)
  from pad_span_neutral [OF _ _ _ _ this, of True v'] show ?thesis
    using w sg by (simp add: vol_ok_def vol_in_def)
qed

end
