(* ===== verification/Anchor.thy ===== *)
theory Anchor
  imports DeltaStage
begin

text \<open>
  The tail anchor (\<^verbatim>\<open>src/core/vol_anchor.c\<close>): the second copy of the root and save-point descriptors in the
  last block of the volume, with its checksum, its geometry fingerprint, the probe that open runs, the
  refresh that follows every descriptor store, and its removal after a resize. The lemmas are about
  single-device volumes: what a refresh stored is what a later probe finds.
\<close>

section \<open>The descriptor\<close>

definition INVFS_ANCHOR_MAGIC :: bytes where "INVFS_ANCHOR_MAGIC = ascii ''ANC0''"

definition INVFS_ANC0_VERSION :: nat where "INVFS_ANC0_VERSION = 1"

definition INVFS_ANCHOR_OK :: int where "INVFS_ANCHOR_OK = 0"

definition INVFS_ANCHOR_ABSENT :: int where "INVFS_ANCHOR_ABSENT = 1"

definition INVFS_ANCHOR_REFUSED_GEOMETRY :: int where "INVFS_ANCHOR_REFUSED_GEOMETRY = 2"

definition INVFS_ANCHOR_REFUSED_DAMAGE :: int where "INVFS_ANCHOR_REFUSED_DAMAGE = 3"

definition INVFS_ANCHOR_IO :: int where "INVFS_ANCHOR_IO = -1"

lemmas anchor_consts = INVFS_ANCHOR_OK_def INVFS_ANCHOR_ABSENT_def INVFS_ANCHOR_REFUSED_GEOMETRY_def
  INVFS_ANCHOR_REFUSED_DAMAGE_def INVFS_ANCHOR_IO_def

definition anchor_crc :: "invfs_anc0 \<Rightarrow> u32" where
  "anchor_crc a = (let t = a\<lparr>an_crc32c := 0\<rparr> in invfs_crc32c (take 0x78 (anc0_bytes t)))"

definition anchor_fp_matches :: "invfs_anc0 \<Rightarrow> nat \<Rightarrow> nat \<Rightarrow> nat \<Rightarrow> bytes option \<Rightarrow> bool" where
  "anchor_fp_matches a total_blocks block_size format_version uuid =
    (if an_total_blocks a \<noteq> total_blocks then False
     else if an_block_size a \<noteq> block_size then False
     else if an_format_version a \<noteq> format_version then False
     else case uuid of None \<Rightarrow> True | Some u \<Rightarrow> an_vol_uuid a = u)"

definition anchor_state_of :: "invfs_anc0 \<Rightarrow> int" where
  "anchor_state_of a =
    (if an_magic a \<noteq> INVFS_ANCHOR_MAGIC then INVFS_ANCHOR_ABSENT
     else if an_version a \<noteq> INVFS_ANC0_VERSION \<or> anchor_crc a \<noteq> an_crc32c a then INVFS_ANCHOR_REFUSED_DAMAGE
     else INVFS_ANCHOR_OK)"

definition anchor_state_name :: "int \<Rightarrow> string" where
  "anchor_state_name state =
    (if state = INVFS_ANCHOR_OK then ''ok''
     else if state = INVFS_ANCHOR_ABSENT then ''absent''
     else if state = INVFS_ANCHOR_REFUSED_GEOMETRY then ''refused-geometry''
     else if state = INVFS_ANCHOR_REFUSED_DAMAGE then ''refused-damage''
     else ''io-error'')"

definition anchor_build :: "invfs_volume \<Rightarrow> invfs_anc0" where
  "anchor_build v =
    (let a = \<lparr>an_magic = INVFS_ANCHOR_MAGIC, an_version = INVFS_ANC0_VERSION, an_total_blocks = sb_total_blocks (sb v),
              an_block_size = INVFS_BLOCK_SIZE, an_format_version = sb_format_version (sb v), an_vol_uuid = sb_uuid (sb v),
              an_rt = v_rt (vroot v), an_spt0 = v_spt0 (pin v), an_crc32c = 0\<rparr>
     in a\<lparr>an_crc32c := anchor_crc a\<rparr>)"

section \<open>The anchor block\<close>

definition anchor_write_raw :: "blkio \<Rightarrow> nat \<Rightarrow> invfs_anc0 \<Rightarrow> int \<times> blkio" where
  "anchor_write_raw io pba a =
    (if pba = 0 then (-1, io)
     else let (r, io) = blkio_pwrite io (sz (pba * INVFS_BLOCK_SIZE)) (anc0_bytes a)
     in if r \<noteq> 0 then (-1, io) else (0, snd (blkio_flush io)))"

definition anchor_verdict :: "invfs_volume \<Rightarrow> int \<Rightarrow> invfs_volume" where
  "anchor_verdict v s = v\<lparr>vroot := (vroot v)\<lparr>anchor_state := s, anchor_adopted := False\<rparr>\<rparr>"

text \<open>The verdict, what is written to the caller's descriptor, and the handle.\<close>

definition anchor_probe :: "invfs_volume \<Rightarrow> int \<times> invfs_anc0 option \<times> invfs_volume" where
  "anchor_probe v =
    (let pba = anchor_pba v
     in if pba = 0 then (INVFS_ANCHOR_ABSENT, None, anchor_verdict v INVFS_ANCHOR_ABSENT)
        else case io_pread v (sz (pba * INVFS_BLOCK_SIZE)) 124 of
          (None, v) \<Rightarrow> (INVFS_ANCHOR_IO, None, anchor_verdict v INVFS_ANCHOR_IO)
        | (Some bs, v) \<Rightarrow>
            let a = anc0_of bs; s = anchor_state_of a
            in if s \<noteq> INVFS_ANCHOR_OK then (s, None, anchor_verdict v s)
               else if \<not> anchor_fp_matches a (sb_total_blocks (sb v)) (sb_block_size (sb v)) (sb_format_version (sb v)) (Some (sb_uuid (sb v)))
               then (INVFS_ANCHOR_REFUSED_GEOMETRY, None, anchor_verdict v INVFS_ANCHOR_REFUSED_GEOMETRY)
               else (INVFS_ANCHOR_OK, Some a, v\<lparr>vroot := (vroot v)\<lparr>anchor_state := INVFS_ANCHOR_OK, v_anchor := a\<rparr>\<rparr>))"

definition anchor_refresh :: "(nat \<Rightarrow> bool) \<Rightarrow> invfs_volume \<Rightarrow> int \<times> invfs_volume" where
  "anchor_refresh alloc v =
    (if anchor_state (vroot v) \<noteq> INVFS_ANCHOR_OK then (0, v)
     else let pba = anchor_pba v
     in if pba = 0 then (0, v)
        else let (r, v) = io_pwrite v (sz (pba * INVFS_BLOCK_SIZE)) (anc0_bytes (anchor_build v))
        in if r \<noteq> 0 then (-1, v\<lparr>vroot := (vroot v)\<lparr>anchor_refresh_failed := True\<rparr>\<rparr>)
           else (0, snd (v_barrier (vol_delta_heal alloc v))))"

definition anchor_invalidate_at :: "(nat \<Rightarrow> bool) \<Rightarrow> invfs_volume \<Rightarrow> nat \<Rightarrow> invfs_anc0 option \<Rightarrow> int \<times> invfs_volume" where
  "anchor_invalidate_at alloc v old_pba a =
    (if old_pba = 0 then (0, v)
     else if a = None then (0, v)
     else let (r, v) = io_pwrite v (sz (old_pba * INVFS_BLOCK_SIZE)) (replicate INVFS_BLOCK_SIZE 0)
     in if r \<noteq> 0 then (-1, v)
        else (0, anchor_verdict (snd (v_barrier (vol_delta_heal alloc v))) INVFS_ANCHOR_ABSENT))"

section \<open>Device calls on a single-device volume\<close>

abbreviation vsingle :: "invfs_volume \<Rightarrow> bool" where "vsingle v \<equiv> single (st v)"

lemma st_upd_trans: "w = v\<lparr>st := a\<rparr> \<Longrightarrow> u = w\<lparr>st := b\<rparr> \<Longrightarrow> u = (v :: invfs_volume)\<lparr>st := b\<rparr>"
  by simp

lemma single_vok: "vsingle v \<Longrightarrow> vok v \<and> vin_range v off n"
  by (simp add: vol_ok_def vol_in_def)

lemma blkio_flush_data: "blkio_flush io = (r, io') \<Longrightarrow> io_data io' = io_data io"
proof -
  assume a: "blkio_flush io = (r, io')"
  obtain go io1 where g: "pf_should_flush io = (go, io1)" by fastforce
  have d1: "io_data io1 = io_data io"
    using g pf_now_ms_fields by (auto simp: pf_should_flush_def split: if_splits prod.splits)
  obtain rc io2 where f: "blkio_flush_raw io1 = (rc, io2)" by fastforce
  have d2: "io_data io2 = io_data io1"
    using f by (auto simp: blkio_flush_raw_def os_fsync_def Let_def split: if_splits list.splits prod.splits)
  define io3 where "io3 = (if rc = 0 \<and> write_gen io1 > flushed_gen io2 then io2\<lparr>flushed_gen := write_gen io1\<rparr> else io2)"
  obtain t4 io4 where t4: "pf_now_ms io3 = (t4, io4)" by fastforce
  obtain t5 io5 where t5: "pf_now_ms io1 = (t5, io5)" by fastforce
  have "io_data io4 = io_data io3" "io_data io5 = io_data io1" using pf_now_ms_fields t4 t5 by blast+
  then show ?thesis using a d1 d2
    by (auto simp: blkio_flush_def g f t5 Let_def io3_def [symmetric] t4 split: if_splits) (auto simp: io3_def)
qed

lemma v_barrier_single:
  assumes "vsingle v" "v_barrier v = (r, v')"
  shows "vsingle v' \<and> v' = v\<lparr>st := st v'\<rparr> \<and> vdata v' = vdata v"
proof -
  obtain q s where q: "flush0 (st v) = (q, s)" by fastforce
  obtain d where s: "s = (st v)\<lparr>v_io := d\<rparr>" "io_data d = io_data (v_io (st v))"
    using q blkio_flush_data by (auto simp: flush0_def split: prod.splits)
  have "v' = v\<lparr>st := s\<rparr>" using assms q by (auto simp: v_barrier_def vmux_barrier_def)
  then show ?thesis using assms(1) s by (auto simp: vol_data_def fun_eq_iff)
qed

lemma io_pwrite_single:
  assumes "vsingle v" "io_pwrite v off bs = (r, v')"
  shows "vsingle v' \<and> v' = v\<lparr>st := st v'\<rparr> \<and> (r = 0 \<longrightarrow> vdata v' = store_write (vdata v) off bs)
    \<and> (\<forall>i. i < off \<or> off + length bs \<le> i \<longrightarrow> vdata v' i = vdata v i)"
proof -
  obtain s where s: "vmux_pwrite (st v) off bs = (r, s)" "v' = v\<lparr>st := s\<rparr>"
    using assms(2) by (auto simp: io_pwrite_def split: prod.splits)
  have "\<forall>j < length bs. vol_in (st v) (off + j)" "vol_ok (st v)" using single_vok [OF assms(1)] by auto
  from vmux_pwrite_spec [OF this(2,1) s(1)] have "vol_wrote (st v) off bs r s" .
  then show ?thesis using assms(1) s(2) by (auto simp: vol_wrote_def same_route_def)
qed

lemma io_pread_single:
  assumes "vsingle v" "io_pread v off n = (r, v')"
  shows "vsingle v' \<and> v' = v\<lparr>st := st v'\<rparr> \<and> vdata v' = vdata v \<and> (\<forall>bs. r = Some bs \<longrightarrow> bs = store_read (vdata v) off n)"
proof -
  obtain s where s: "vmux_pread (st v) off n = (r, s)" "v' = v\<lparr>st := s\<rparr>"
    using assms(2) by (auto simp: io_pread_def split: prod.splits)
  have "\<forall>j < n. vol_in (st v) (off + j)" "vol_ok (st v)" using single_vok [OF assms(1)] by auto
  from vmux_pread_spec [OF this(2,1) s(1)] show ?thesis
    using assms(1) s(2) single_vok [OF assms(1)] vol.rd_view [OF _ _ assms(2)]
    by (auto simp: vol_quiet_def same_route_def)
qed

section \<open>Storing and finding the anchor\<close>

definition anchor_ready :: "invfs_volume \<Rightarrow> bool" where
  "anchor_ready v \<longleftrightarrow> vsingle v \<and> 2 \<le> sb_total_blocks (sb v) \<and> sb_total_blocks (sb v) * 4096 < 2 ^ 64
     \<and> sb_block_size (sb v) = 4096 \<and> sb_format_version (sb v) < 2 ^ 32 \<and> length (sb_uuid (sb v)) = 16
     \<and> rt_wf (v_rt (vroot v)) \<and> spt0_wf (v_spt0 (pin v))"

lemma anchor_build_ok:
  assumes "anchor_ready v"
  shows "anc0_wf (anchor_build v)" "anchor_state_of (anchor_build v) = INVFS_ANCHOR_OK"
    "anchor_fp_matches (anchor_build v) (sb_total_blocks (sb v)) (sb_block_size (sb v)) (sb_format_version (sb v)) (Some (sb_uuid (sb v)))"
  using assms
  by (simp_all add: anchor_ready_def anc0_wf_def anchor_build_def anchor_state_of_def anchor_crc_def anchor_fp_matches_def
      Let_def INVFS_ANCHOR_MAGIC_def INVFS_ANC0_VERSION_def INVFS_BLOCK_SIZE_def)

lemma anchor_build_st: "anchor_build (v\<lparr>st := s\<rparr>) = anchor_build v"
  by (simp add: anchor_build_def)

lemma anchor_pba_pos: "anchor_ready v \<Longrightarrow> anchor_pba v \<noteq> 0 \<and> sz (anchor_pba v * INVFS_BLOCK_SIZE) = anchor_pba v * 4096"
proof -
  assume a: "anchor_ready v"
  then have p: "anchor_pba v = sb_total_blocks (sb v) - 1" by (simp add: anchor_ready_def anchor_pba_def)
  have "anchor_pba v * 4096 \<le> sb_total_blocks (sb v) * 4096" by (simp add: p)
  then have "anchor_pba v * 4096 < 2 ^ 64" using a unfolding anchor_ready_def by linarith
  then show ?thesis using a p by (simp add: sz_id INVFS_BLOCK_SIZE_def anchor_ready_def)
qed

lemma anchor_refresh_view:
  assumes "anchor_ready v" "\<not> d_rewrite_needed (dl v)" "anchor_refresh alloc v = (rc, v')"
  shows "vsingle v' \<and> v' = v\<lparr>st := st v', vroot := (vroot v)\<lparr>anchor_refresh_failed := anchor_refresh_failed (vroot v')\<rparr>\<rparr>
    \<and> (\<forall>i. i < anchor_pba v * 4096 \<or> anchor_pba v * 4096 + 124 \<le> i \<longrightarrow> vdata v' i = vdata v i)
    \<and> (rc = 0 \<and> anchor_state (vroot v) = INVFS_ANCHOR_OK \<longrightarrow>
         store_read (vdata v') (anchor_pba v * 4096) 124 = anc0_bytes (anchor_build v))"
proof (cases "anchor_state (vroot v) = INVFS_ANCHOR_OK")
  case False
  then show ?thesis using assms by (simp add: anchor_refresh_def anchor_ready_def)
next
  case True
  let ?off = "anchor_pba v * 4096" and ?bs = "anc0_bytes (anchor_build v)"
  have s: "vsingle v" using assms(1) by (simp add: anchor_ready_def)
  note p = anchor_pba_pos [OF assms(1)]
  have len: "length ?bs = 124" using anchor_build_ok(1) [OF assms(1)] by (simp add: length_anc0_bytes)
  obtain r w where w: "io_pwrite v ?off ?bs = (r, w)" by fastforce
  note wv = io_pwrite_single [OF s w]
  have dl: "vol_delta_heal alloc w = w"
    using arg_cong [OF conjunct1 [OF conjunct2 [OF wv]], of dl] assms(2) by (simp add: vol_delta_heal_def)
  obtain q u where u: "v_barrier w = (q, u)" by fastforce
  have uv: "vsingle u \<and> u = w\<lparr>st := st u\<rparr> \<and> vdata u = vdata w" using v_barrier_single u wv by blast
  have out: "(rc, v') = (if r \<noteq> 0 then (-1, w\<lparr>vroot := (vroot w)\<lparr>anchor_refresh_failed := True\<rparr>\<rparr>) else (0, u))"
    using assms(3) True p w u dl by (cases "r = 0") (simp_all add: anchor_refresh_def Let_def)
  show ?thesis
  proof (cases "r = 0")
    case hit: True
    have uu: "u = v\<lparr>st := st u\<rparr>" using st_upd_trans wv uv by blast
    moreover have "vroot u = vroot v" using arg_cong [OF uu, of vroot] by simp
    moreover have "store_read (vdata u) ?off 124 = ?bs" using hit wv uv len by (simp add: store_read_write_same)
    ultimately show ?thesis using hit out wv uv len by simp
  next
    case miss: False
    have "vroot w = vroot v" using arg_cong [OF conjunct1 [OF conjunct2 [OF wv]], of vroot] by simp
    then show ?thesis using miss out wv len by simp
  qed
qed

text \<open>C38. The mirror can be relied on: on a single-device volume with an anchor, after a refresh that
  returned 0 a probe either cannot read the block or finds the anchor sound and of this volume, with
  exactly the root and save-point descriptors of the handle.\<close>

theorem anchor_refresh_then_probe:
  assumes "anchor_ready v" "\<not> d_rewrite_needed (dl v)" "anchor_state (vroot v) = INVFS_ANCHOR_OK"
    and "anchor_refresh alloc v = (0, v1)" "anchor_probe v1 = (rc, out, v2)"
  shows "rc = INVFS_ANCHOR_IO \<or> rc = INVFS_ANCHOR_OK \<and> out = Some (anchor_build v) \<and> v_anchor (vroot v2) = anchor_build v
    \<and> an_rt (v_anchor (vroot v2)) = v_rt (vroot v) \<and> an_spt0 (v_anchor (vroot v2)) = v_spt0 (pin v)"
proof -
  note rv = anchor_refresh_view [OF assms(1,2,4)]
  have fr: "sb v1 = sb v" "anchor_pba v1 = anchor_pba v" using arg_cong [OF conjunct1 [OF conjunct2 [OF rv]], of sb]
    by (simp_all add: anchor_pba_def)
  note p = anchor_pba_pos [OF assms(1)]
  obtain r w where w: "io_pread v1 (anchor_pba v * 4096) 124 = (r, w)" by fastforce
  note wv = io_pread_single [OF conjunct1 [OF rv] w]
  have sbw: "sb w = sb v" using arg_cong [OF conjunct1 [OF conjunct2 [OF wv]], of sb] fr by simp
  have pr: "anchor_probe v1 = (case (r, w) of
          (None, v) \<Rightarrow> (INVFS_ANCHOR_IO, None, anchor_verdict v INVFS_ANCHOR_IO)
        | (Some bs, v) \<Rightarrow>
            let a = anc0_of bs; s = anchor_state_of a
            in if s \<noteq> INVFS_ANCHOR_OK then (s, None, anchor_verdict v s)
               else if \<not> anchor_fp_matches a (sb_total_blocks (sb v)) (sb_block_size (sb v)) (sb_format_version (sb v)) (Some (sb_uuid (sb v)))
               then (INVFS_ANCHOR_REFUSED_GEOMETRY, None, anchor_verdict v INVFS_ANCHOR_REFUSED_GEOMETRY)
               else (INVFS_ANCHOR_OK, Some a, v\<lparr>vroot := (vroot v)\<lparr>anchor_state := INVFS_ANCHOR_OK, v_anchor := a\<rparr>\<rparr>))"
    unfolding anchor_probe_def Let_def fr(2) using p w by simp
  show ?thesis
  proof (cases r)
    case None
    then show ?thesis using pr assms(5) by simp
  next
    case (Some bs)
    then have "bs = anc0_bytes (anchor_build v)" using wv rv assms(3) by simp
    then have "anc0_of bs = anchor_build v" using anchor_build_ok(1) [OF assms(1)] by (simp add: anc0_of_bytes)
    then have "rc = INVFS_ANCHOR_OK \<and> out = Some (anchor_build v) \<and> v_anchor (vroot v2) = anchor_build v"
      using pr assms(5) Some anchor_build_ok(2,3) [OF assms(1)] by (simp add: Let_def sbw)
    then show ?thesis by (simp add: anchor_build_def Let_def)
  qed
qed

definition demo_anchored :: invfs_volume where
  "demo_anchored = demo_volume\<lparr>sb := demo_super\<lparr>sb_block_size := 4096, sb_uuid := replicate 16 7, sb_format_version := 3\<rparr>,
     vroot := demo_root\<lparr>anchor_state := 0\<rparr>\<rparr>"

lemma demo_anchored_ready: "anchor_ready demo_anchored" "\<not> d_rewrite_needed (dl demo_anchored)"
    "anchor_state (vroot demo_anchored) = INVFS_ANCHOR_OK" "st demo_anchored = demo_vol\<lparr>ndev := 1\<rparr>"
  using demo_wf
  by (simp_all add: anchor_ready_def demo_anchored_def demo_volume_def demo_super_def demo_root_def demo_delta_def demo_vol_def
      INVFS_ANCHOR_OK_def)

lemma demo_pwrite: "st v = demo_vol\<lparr>ndev := 1\<rparr> \<Longrightarrow> \<exists>v'. io_pwrite v off bs = (0, v')"
proof -
  assume s: "st v = demo_vol\<lparr>ndev := 1\<rparr>"
  have "fst (blkio_pwrite (demo_io False) off bs) = 0"
    by (rule blkio_pwrite_ok [OF demo_io_ready(1)]) (simp add: demo_io_def)
  then obtain b where "blkio_pwrite (demo_io False) off bs = (0, b)" by (cases "blkio_pwrite (demo_io False) off bs") auto
  then show ?thesis by (simp add: io_pwrite_def vmux_pwrite_def wr0_def s demo_vol_def)
qed

theorem anchor_refresh_then_probe_witness:
  "\<exists>v1 rc out v2. anchor_refresh (\<lambda>_. True) demo_anchored = (0, v1) \<and> anchor_probe v1 = (rc, out, v2)
     \<and> (rc = INVFS_ANCHOR_IO \<or> rc = INVFS_ANCHOR_OK \<and> out = Some (anchor_build demo_anchored))"
proof -
  let ?v = demo_anchored
  obtain w where w: "io_pwrite ?v (anchor_pba ?v * 4096) (anc0_bytes (anchor_build ?v)) = (0, w)"
    using demo_pwrite [OF demo_anchored_ready(4)] by blast
  obtain v1 where v1: "anchor_refresh (\<lambda>_. True) ?v = (0, v1)"
    using anchor_pba_pos [OF demo_anchored_ready(1)] demo_anchored_ready(3) w by (simp add: anchor_refresh_def Let_def)
  obtain rc out v2 where p: "anchor_probe v1 = (rc, out, v2)" by (metis prod_cases3)
  from anchor_refresh_then_probe [OF demo_anchored_ready(1-3) v1 p] show ?thesis using v1 p by blast
qed

end
