(* ===== verification/Metabuf.thy ===== *)
theory Metabuf
  imports Anchor
begin

text \<open>
  The metadata page layer (\<^verbatim>\<open>src/core/vol_metabuf.c\<close>): base pages with their checksum, block pointers, the
  page allocator, and the root area - the RT30 descriptor with its two root slots, its load with the
  fall-back to the tail anchor, its store, the publication of a root and the choice of a root at open. A
  page is its list of bytes. A volume without an allocation bitmap is one whose bitmap is empty. The
  lemmas show that sealed pages validate and that small corruptions do not, that a published root is on the
  device with the allocation bitmap that owns it, and that only an owned, sound root is ever read.
\<close>

section \<open>Pages\<close>

definition INVFS_PAGE_MAGIC :: bytes where "INVFS_PAGE_MAGIC = ascii ''BPG3''"

definition INVFS_PAGE_LEVEL_LEAF :: nat where "INVFS_PAGE_LEVEL_LEAF = 0"

definition INVFS_PAGE_SIZE_DEFAULT :: nat where "INVFS_PAGE_SIZE_DEFAULT = 4096"

definition INVFS_RT_VERSION :: nat where "INVFS_RT_VERSION = 1"

definition INVFS_MBUF_BOOT_PAGES :: nat where "INVFS_MBUF_BOOT_PAGES = 2"

record invfs_page_hdr =
  ph_magic :: bytes
  ph_gen :: nat
  ph_level :: nat
  ph_nentries :: nat
  ph_checksum :: u32

definition page_hdr_bytes :: "invfs_page_hdr \<Rightarrow> bytes" where
  "page_hdr_bytes h = ph_magic h @ put64 (ph_gen h) @ le_put 2 (ph_level h) @ le_put 2 (ph_nentries h) @ putw (ph_checksum h)"

definition mbuf_page_hdr :: "bytes \<Rightarrow> invfs_page_hdr" where
  "mbuf_page_hdr page = \<lparr>ph_magic = bslice 0 4 page, ph_gen = fld 4 8 page, ph_level = fld 12 2 page,
     ph_nentries = fld 14 2 page, ph_checksum = fld32 16 page\<rparr>"

record invfs_blkptr =
  bp_pba :: nat
  bp_checksum :: u32
  bp_gen :: nat
  bp_flags :: u32

definition mbuf_page_crc :: "bytes \<Rightarrow> u32" where
  "mbuf_page_crc page =
    (let off = 16; c = invfs_crc32c (take off page)
     in crc32c_ref c (bslice (off + 4) (INVFS_BLOCK_SIZE - off - 4) page))"

definition mbuf_page_init :: "nat \<Rightarrow> nat \<Rightarrow> bytes" where
  "mbuf_page_init level gen =
     overwrite 0 (page_hdr_bytes \<lparr>ph_magic = INVFS_PAGE_MAGIC, ph_gen = gen, ph_level = level, ph_nentries = 0, ph_checksum = 0\<rparr>)
       (replicate INVFS_BLOCK_SIZE 0)"

definition mbuf_page_seal :: "bytes \<Rightarrow> bytes" where
  "mbuf_page_seal page = overwrite 16 (putw (mbuf_page_crc page)) page"

definition mbuf_page_validate :: "bytes \<Rightarrow> bool" where
  "mbuf_page_validate page =
    (if ph_magic (mbuf_page_hdr page) \<noteq> INVFS_PAGE_MAGIC then False
     else ph_checksum (mbuf_page_hdr page) = mbuf_page_crc page)"

definition mbuf_page_allocated :: "invfs_volume \<Rightarrow> nat \<Rightarrow> int" where
  "mbuf_page_allocated v pba =
    (if bitmap (sp v) = [] then -1
     else if pba = 0 \<or> pba \<ge> sb_total_blocks (sb v) then 0
     else if bit_get (bitmap (sp v)) pba then 1 else 0)"

definition mbuf_page_size :: "invfs_volume \<Rightarrow> nat" where
  "mbuf_page_size v = INVFS_PAGE_SIZE_DEFAULT"

section \<open>Page and pointer input and output\<close>

definition mbuf_read :: "invfs_volume \<Rightarrow> nat \<Rightarrow> bytes option \<times> invfs_volume" where
  "mbuf_read v pba =
    (if mbuf_page_size v \<noteq> INVFS_BLOCK_SIZE then (None, v)
     else if pba = 0 \<or> pba \<ge> sb_total_blocks (sb v) then (None, v)
     else io_pread v (sz (pba * INVFS_BLOCK_SIZE)) INVFS_BLOCK_SIZE)"

text \<open>The code, the sealed page and the handle.\<close>

definition mbuf_write :: "invfs_volume \<Rightarrow> nat \<Rightarrow> bytes \<Rightarrow> int \<times> bytes \<times> invfs_volume" where
  "mbuf_write v pba page =
    (if mbuf_page_size v \<noteq> INVFS_BLOCK_SIZE then (-1, page, v)
     else if pba = 0 \<or> pba \<ge> sb_total_blocks (sb v) then (-1, page, v)
     else let page = mbuf_page_seal page; (r, v) = io_pwrite v (sz (pba * INVFS_BLOCK_SIZE)) page
     in (if r \<noteq> 0 then -1 else 0, page, v))"

definition mbuf_ptr_set :: "nat \<Rightarrow> bytes \<Rightarrow> u32 \<Rightarrow> invfs_blkptr" where
  "mbuf_ptr_set pba page flags =
    (let h = mbuf_page_hdr page in \<lparr>bp_pba = pba, bp_checksum = ph_checksum h, bp_gen = ph_gen h, bp_flags = flags\<rparr>)"

definition mbuf_read_ptr :: "invfs_volume \<Rightarrow> invfs_blkptr \<Rightarrow> bytes option \<times> invfs_volume" where
  "mbuf_read_ptr v p =
    (if bp_pba p = 0 then (None, v)
     else if mbuf_page_allocated v (bp_pba p) = 0 then (None, v)
     else case mbuf_read v (bp_pba p) of
       (None, v) \<Rightarrow> (None, v)
     | (Some page, v) \<Rightarrow>
         let h = mbuf_page_hdr page
         in if ph_checksum h \<noteq> bp_checksum p \<or> ph_gen h \<noteq> bp_gen p then (None, v)
            else if \<not> mbuf_page_validate page then (None, v) else (Some page, v))"

definition mbuf_verify_ptr :: "invfs_volume \<Rightarrow> invfs_blkptr \<Rightarrow> int \<times> invfs_volume" where
  "mbuf_verify_ptr v p = (case mbuf_read_ptr v p of (None, v) \<Rightarrow> (-1, v) | (Some page, v) \<Rightarrow> (0, v))"

section \<open>The page allocator\<close>

definition mbuf_init :: "invfs_volume \<Rightarrow> invfs_volume" where
  "mbuf_init v =
    (let r = (vroot v)\<lparr>mb_boot_cursor := 0, mb_boot_end := 0, mb_alloc_cursor := sb_metadata_zone_start (sb v), mb_alloc_fail_run := 0\<rparr>
     in if rt_present r \<and> rt_page_size (v_rt r) \<noteq> INVFS_BLOCK_SIZE then v\<lparr>vroot := r\<lparr>mb_alloc_cursor := 0\<rparr>\<rparr>
        else if sb_meta_mapper_pba (sb v) \<noteq> 0 \<and> sb_meta_mapper_blocks (sb v) \<noteq> 0
        then let start = sz (sb_meta_mapper_pba (sb v) + sb_meta_mapper_blocks (sb v))
             in v\<lparr>vroot := r\<lparr>mb_boot_cursor := start, mb_boot_end := sz (start + INVFS_MBUF_BOOT_PAGES)\<rparr>\<rparr>
        else v\<lparr>vroot := r\<rparr>)"

text \<open>The scan of the metadata zone, at most \<open>n\<close> more blocks from \<open>i\<close>.\<close>

fun meta_scan :: "bytes \<Rightarrow> nat \<Rightarrow> nat \<Rightarrow> nat \<Rightarrow> nat \<Rightarrow> nat option" where
  "meta_scan b start end 0 i = None"
| "meta_scan b start end (Suc n) i =
    (if \<not> bit_get b i then Some i else meta_scan b start end n (if i + 1 < end then i + 1 else start))"

definition mb_alloc_meta_zone :: "invfs_volume \<Rightarrow> nat \<times> invfs_volume" where
  "mb_alloc_meta_zone v =
    (let start = sb_metadata_zone_start (sb v); end = sz (start + sb_metadata_zone_blocks (sb v))
     in if bitmap (sp v) = [] \<or> start = 0 \<or> sb_metadata_zone_blocks (sb v) = 0 then (0, v)
        else if start \<ge> sb_total_blocks (sb v) then (0, v)
        else let end = (if end > sb_total_blocks (sb v) then sb_total_blocks (sb v) else end);
                 i = mb_alloc_cursor (vroot v);
                 i = (if i < start \<or> i \<ge> end then start else i)
        in case meta_scan (bitmap (sp v)) start end (end - start) i of
             Some i \<Rightarrow>
               let p = (sp v)\<lparr>bitmap := bit_set (bitmap (sp v)) i, meta_type_bitmap := map_option (\<lambda>m. bit_set m i) (meta_type_bitmap (sp v))\<rparr>;
                   p = vol_bm_dirty p i;
                   p = p\<lparr>free_blocks := sz_sub (free_blocks p) 1,
                         meta_free_blocks := (if meta_free_blocks p \<noteq> 0 then meta_free_blocks p - 1 else meta_free_blocks p)\<rparr>
               in (i, v\<lparr>sp := p, vroot := (vroot v)\<lparr>mb_alloc_cursor := (if i + 1 < end then i + 1 else start), mb_alloc_fail_run := 0\<rparr>\<rparr>)
           | None \<Rightarrow> (0, v\<lparr>vroot := (vroot v)\<lparr>mb_alloc_fail_run := 1\<rparr>\<rparr>))"

definition mb_write_empty :: "invfs_volume \<Rightarrow> nat \<Rightarrow> nat \<Rightarrow> int \<times> invfs_volume" where
  "mb_write_empty v pba gen = (let (r, page, v) = mbuf_write v pba (mbuf_page_init INVFS_PAGE_LEVEL_LEAF gen) in (r, v))"

text \<open>\<open>depth\<close> is the nesting depth that is left for a nested free, as in \<open>Alloc\<close>.\<close>

definition mbuf_alloc :: "nat \<Rightarrow> invfs_volume \<Rightarrow> nat \<Rightarrow> (nat \<times> invfs_volume) option" where
  "mbuf_alloc depth v gen =
    (if vol_flag v VOLF_READONLY then Some (0, v)
     else if rt_present (vroot v) \<and> rt_page_size (v_rt (vroot v)) \<noteq> INVFS_BLOCK_SIZE then Some (0, v)
     else if mb_boot_cursor (vroot v) \<noteq> 0 \<and> mb_boot_cursor (vroot v) < mb_boot_end (vroot v)
     then let pba = mb_boot_cursor (vroot v); (r, v) = mb_write_empty v pba gen
          in if r \<noteq> 0 then Some (0, v)
             else Some (pba, v\<lparr>vroot := (vroot v)\<lparr>mb_boot_cursor := sz (mb_boot_cursor (vroot v) + 1)\<rparr>\<rparr>)
     else let (pba, v) = mb_alloc_meta_zone v;
              (pba, v) = (if pba = 0
                          then alloc_blocks v (sb_shadow_zone_start (sb v)) (sb_shadow_zone_blocks (sb v)) 1 False True
                          else (pba, v))
     in if pba = 0 then Some (0, v)
        else let (r, v) = mb_write_empty v pba gen
        in if r \<noteq> 0 then map_option (Pair 0) (vol_free_blocks depth v pba 1) else Some (pba, v))"

definition mbuf_free :: "nat \<Rightarrow> invfs_volume \<Rightarrow> nat \<Rightarrow> invfs_volume option" where
  "mbuf_free depth v pba =
    (if pba = 0 then Some v
     else map_option
       (\<lambda>v. if pba \<ge> sb_metadata_zone_start (sb v) \<and> pba < sz (sb_metadata_zone_start (sb v) + sb_metadata_zone_blocks (sb v))
              \<and> \<not> retain_release (pin v)
           then v\<lparr>sp := (sp v)\<lparr>meta_free_blocks := sz (meta_free_blocks (sp v) + 1)\<rparr>,
                  vroot := (vroot v)\<lparr>mb_alloc_fail_run := 0,
                    mb_alloc_cursor := (if pba < mb_alloc_cursor (vroot v) \<and> mb_alloc_cursor (vroot v) \<noteq> 0
                                        then pba else mb_alloc_cursor (vroot v))\<rparr>\<rparr>
           else v)
       (vol_free_blocks depth v pba 1))"

section \<open>The root area\<close>

definition zero_rt :: invfs_rt where
  "zero_rt = \<lparr>rt_magic = replicate 4 0, rt_version = 0, rt_page_size = 0, rt_root_slot0 = 0, rt_root_slot1 = 0,
     rt_delta_pba = 0, rt_seq = 0, rt_crc32c = 0\<rparr>"

definition rt_crc :: "invfs_rt \<Rightarrow> u32" where
  "rt_crc r = invfs_crc32c (take 44 (rt_bytes r))"

definition rt_sound :: "invfs_rt \<Rightarrow> bool" where
  "rt_sound r \<longleftrightarrow> rt_magic r = ascii ''RT30'' \<and> rt_version r = INVFS_RT_VERSION \<and> rt_crc r = rt_crc32c r"

definition anchor_adopt_rt30 :: "invfs_volume \<Rightarrow> invfs_anc0 \<Rightarrow> invfs_volume" where
  "anchor_adopt_rt30 v a = v\<lparr>vroot := (vroot v)\<lparr>v_rt := an_rt a, rt_present := True, anchor_adopted := True\<rparr>\<rparr>"

definition mbuf_rt30_load :: "invfs_volume \<Rightarrow> int \<times> invfs_volume" where
  "mbuf_rt30_load v =
    (let v = v\<lparr>vroot := (vroot v)\<lparr>rt_present := False, v_rt := zero_rt\<rparr>\<rparr>
     in case io_pread v INVFS_RT_OFF 48 of
          (None, v) \<Rightarrow> (-1, v)
        | (Some bs, v) \<Rightarrow>
            let rt = rt_of bs
            in if rt_sound rt then (0, v\<lparr>vroot := (vroot v)\<lparr>v_rt := rt, rt_present := True\<rparr>\<rparr>)
               else if anchor_state (vroot v) = INVFS_ANCHOR_OK \<and> rt_sound (an_rt (v_anchor (vroot v)))
               then (0, anchor_adopt_rt30 v (v_anchor (vroot v)))
               else (if rt_magic rt \<noteq> ascii ''RT30'' then 1 else 2, v))"

definition mbuf_rt30_store :: "(nat \<Rightarrow> bool) \<Rightarrow> invfs_volume \<Rightarrow> int \<times> invfs_volume" where
  "mbuf_rt30_store alloc v =
    (let v = v\<lparr>vroot := (vroot v)\<lparr>v_rt := (v_rt (vroot v))\<lparr>rt_crc32c := rt_crc (v_rt (vroot v))\<rparr>\<rparr>\<rparr>;
         (r, v) = io_pwrite v INVFS_RT_OFF (rt_bytes (v_rt (vroot v)))
     in if r \<noteq> 0 then (-1, v) else (0, snd (anchor_refresh alloc v)))"

definition set_slot :: "nat \<Rightarrow> nat \<Rightarrow> invfs_rt \<Rightarrow> invfs_rt" where
  "set_slot slot pba r = (if slot = 0 then r\<lparr>rt_root_slot0 := pba\<rparr> else r\<lparr>rt_root_slot1 := pba\<rparr>)"

definition get_slot :: "nat \<Rightarrow> invfs_rt \<Rightarrow> nat" where
  "get_slot slot r = (if slot = 0 then rt_root_slot0 r else rt_root_slot1 r)"

definition mbuf_root_publish :: "(nat \<Rightarrow> bool) \<Rightarrow> invfs_volume \<Rightarrow> nat \<Rightarrow> nat \<Rightarrow> int \<times> invfs_volume" where
  "mbuf_root_publish alloc v root_pba root_gen =
    (if root_pba = 0 then (-1, v)
     else let v = (if rt_present (vroot v) then v
                   else v\<lparr>vroot := (vroot v)\<lparr>v_rt := zero_rt\<lparr>rt_magic := ascii ''RT30'', rt_version := INVFS_RT_VERSION,
                          rt_page_size := INVFS_PAGE_SIZE_DEFAULT\<rparr>, rt_present := True\<rparr>\<rparr>)
     in case mbuf_read v root_pba of
          (None, v) \<Rightarrow> (-1, v)
        | (Some page, v) \<Rightarrow>
            if \<not> mbuf_page_validate page \<or> ph_gen (mbuf_page_hdr page) \<noteq> root_gen then (-1, v)
            else let (r, v) = vol_bitmap_flush v
            in if r \<noteq> 0 then (-1, v)
               else let rt = v_rt (vroot v); rt = (set_slot (rt_seq rt mod 2) root_pba rt)\<lparr>rt_seq := sz (rt_seq rt + 1)\<rparr>;
                        (r, v) = mbuf_rt30_store alloc (v\<lparr>vroot := (vroot v)\<lparr>v_rt := rt\<rparr>\<rparr>)
               in if r \<noteq> 0 then (-1, v)
                  else let (r, v) = v_barrier v in (if r < 0 then -1 else 0, v))"

text \<open>One turn of the loop over the slots: \<open>best\<close> is the best root so far.\<close>

definition root_turn :: "nat \<Rightarrow> (nat \<times> nat) option \<times> invfs_volume \<Rightarrow> (nat \<times> nat) option \<times> invfs_volume" where
  "root_turn i s =
    (let (best, v) = s; pba = get_slot i (v_rt (vroot v))
     in if pba = 0 then (best, v)
        else if mbuf_page_allocated v pba = 0 then (best, v)
        else case mbuf_read v pba of
          (None, v) \<Rightarrow> (best, v)
        | (Some page, v) \<Rightarrow>
            if \<not> mbuf_page_validate page then (best, v)
            else let gen = ph_gen (mbuf_page_hdr page)
            in (case best of
                  None \<Rightarrow> (Some (pba, gen), v)
                | Some (bp, bg) \<Rightarrow>
                    if gen > bg \<or> gen = bg \<and> i = rt_seq (v_rt (vroot v)) mod 2 then (Some (pba, gen), v) else (best, v)))"

text \<open>The code, the root read, if any, and the handle.\<close>

definition mbuf_root_read :: "invfs_volume \<Rightarrow> int \<times> (nat \<times> nat) option \<times> invfs_volume" where
  "mbuf_root_read v =
    (let (rc, v) = (if rt_present (vroot v) then (0, v) else mbuf_rt30_load v)
     in if rc < 0 then (-1, None, v)
        else if rc = 1 then (1, None, v)
        else if rc = 2 then (-1, None, v)
        else let named = (rt_root_slot0 (v_rt (vroot v)) \<noteq> 0 \<or> rt_root_slot1 (v_rt (vroot v)) \<noteq> 0);
                 (best, v) = root_turn 1 (root_turn 0 (None, v))
        in case best of None \<Rightarrow> (if named then -1 else 1, None, v) | Some r \<Rightarrow> (0, Some r, v))"

text \<open>Freeing a pinned page of the metadata zone leaves its bit set and still counts it as free.\<close>

lemma mbuf_free_counts_pinned:
  assumes "alloc_geom v" "\<not> retain_release (pin v)" "spt0_block_pinned v pba 1" "pba \<noteq> 0" "pba + 1 \<le> sb_total_blocks (sb v)"
    and "sb_metadata_zone_start (sb v) \<le> pba" "pba < sz (sb_metadata_zone_start (sb v) + sb_metadata_zone_blocks (sb v))"
  shows "\<exists>v'. mbuf_free (Suc d) v pba = Some v' \<and> bitmap (sp v') = bitmap (sp v)
    \<and> meta_free_blocks (sp v') = sz (meta_free_blocks (sp v) + 1)"
  using assms vol_free_blocks_single [OF assms(1,5), of d] by (simp add: mbuf_free_def)

section \<open>Sealed pages\<close>

lemma page_seal_parts:
  assumes "length page = 4096"
  shows "length (mbuf_page_seal page) = 4096" "take 16 (mbuf_page_seal page) = take 16 page"
    "drop 20 (mbuf_page_seal page) = drop 20 page" "bslice 16 4 (mbuf_page_seal page) = putw (mbuf_page_crc page)"
  using assms by (simp_all add: mbuf_page_seal_def overwrite_def bslice_def)

lemma page_crc_parts: "mbuf_page_crc page = crc32c_ref (invfs_crc32c (take 16 page)) (take 4076 (drop 20 page))"
  by (simp add: mbuf_page_crc_def Let_def bslice_def INVFS_BLOCK_SIZE_def)

lemma page_crc_seal: "length page = 4096 \<Longrightarrow> mbuf_page_crc (mbuf_page_seal page) = mbuf_page_crc page"
  by (simp add: page_crc_parts page_seal_parts)

lemma page_seal_validates:
  assumes "length page = 4096" "take 4 page = INVFS_PAGE_MAGIC"
  shows "mbuf_page_validate (mbuf_page_seal page)"
proof -
  have "take 4 (take 16 (mbuf_page_seal page)) = take 4 (take 16 page)" using page_seal_parts(2) [OF assms(1)] by simp
  then have "bslice 0 4 (mbuf_page_seal page) = INVFS_PAGE_MAGIC" using assms(2) by (simp add: bslice_def)
  moreover have "fld32 16 (mbuf_page_seal page) = mbuf_page_crc page"
    using page_seal_parts(4) [OF assms(1)] by (simp add: fld32_def fld_def le_get_put_u32)
  ultimately show ?thesis using page_crc_seal [OF assms(1)] by (simp add: mbuf_page_validate_def mbuf_page_hdr_def)
qed

lemma page_crc_burst:
  assumes "length xs = length ys" "length xs \<le> 4" "xs \<noteq> ys" "length pre + length xs + length post = 4096"
    and "length pre + length xs \<le> 16 \<or> 20 \<le> length pre"
  shows "mbuf_page_crc (pre @ xs @ post) \<noteq> mbuf_page_crc (pre @ ys @ post)"
proof (cases "20 \<le> length pre")
  case True
  have "take 4076 (drop 20 (pre @ zs @ post)) = drop 20 pre @ zs @ post" "take 16 (pre @ zs @ post) = take 16 pre"
    if "length zs = length xs" for zs using that True assms(4) by simp_all
  then have "mbuf_page_crc (pre @ zs @ post) = crc32c_ref (invfs_crc32c (take 16 pre)) (drop 20 pre @ zs @ post)"
    if "length zs = length xs" for zs using that by (simp only: page_crc_parts)
  then show ?thesis using crc32c_ref_burst [OF assms(1-3), of "invfs_crc32c (take 16 pre)" "drop 20 pre" post] assms(1) by simp
next
  case False
  then have le: "length pre + length xs \<le> 16" using assms(5) by simp
  define a where "a = take (16 - length pre - length xs) post"
  define b where "b = take 4076 (drop (20 - length pre - length xs) post)"
  have "take 16 (pre @ zs @ post) = pre @ zs @ a" "take 4076 (drop 20 (pre @ zs @ post)) = b"
    if "length zs = length xs" for zs using that le by (simp_all add: a_def b_def)
  then have "mbuf_page_crc (pre @ zs @ post) = crc32c_ref 0 ((pre @ zs @ a) @ b)" if "length zs = length xs" for zs
    using that by (simp only: page_crc_parts crc32c_ref_append)
  then show ?thesis using crc32c_ref_burst [OF assms(1-3), of 0 pre "a @ b"] assms(1) by simp
qed

text \<open>A corruption of up to four adjacent bytes beside the checksum field of a sound page is detected.\<close>

lemma page_burst_detected:
  assumes "mbuf_page_validate (pre @ xs @ post)" "length xs = length ys" "length xs \<le> 4" "xs \<noteq> ys"
    and "length pre + length xs + length post = 4096" "length pre + length xs \<le> 16 \<or> 20 \<le> length pre"
  shows "\<not> mbuf_page_validate (pre @ ys @ post)"
proof -
  have "bslice 16 4 (pre @ ys @ post) = bslice 16 4 (pre @ xs @ post)"
    using assms(2,5,6) by (auto simp: bslice_def drop_append take_append)
  then have "fld32 16 (pre @ ys @ post) = fld32 16 (pre @ xs @ post)" by (simp add: fld32_def fld_def)
  then show ?thesis
    using assms(1) page_crc_burst [OF assms(2-6)] by (auto simp: mbuf_page_validate_def mbuf_page_hdr_def split: if_splits)
qed

section \<open>Storing and loading the root descriptor\<close>

text \<open>What the root operations leave alone.\<close>

definition same_body :: "invfs_volume \<Rightarrow> invfs_volume \<Rightarrow> bool" where
  "same_body v w \<longleftrightarrow> sb w = sb v \<and> dl w = dl v \<and> pin w = pin v \<and> bitmap (sp w) = bitmap (sp v)
     \<and> bitmap_blocks (sp w) = bitmap_blocks (sp v)"

lemma same_body_trans: "same_body u v \<Longrightarrow> same_body v w \<Longrightarrow> same_body u w"
  by (simp add: same_body_def)

lemma same_body_st: "w = v\<lparr>st := s\<rparr> \<Longrightarrow> same_body v w \<and> vroot w = vroot v \<and> sp w = sp v"
  by (simp add: same_body_def)

lemma same_body_ready:
  "anchor_ready v \<Longrightarrow> same_body v w \<Longrightarrow> vsingle w \<Longrightarrow> rt_wf (v_rt (vroot w)) \<Longrightarrow> anchor_ready w"
  by (simp add: anchor_ready_def same_body_def)

definition rt_seal :: "invfs_rt \<Rightarrow> invfs_rt" where
  "rt_seal r = r\<lparr>rt_crc32c := rt_crc r\<rparr>"

lemma rt_crc_seal: "rt_wf r \<Longrightarrow> rt_crc (rt_seal r) = rt_crc r"
  by (simp add: rt_crc_def rt_bytes_def rt_wf_def rt_seal_def)

lemma rt_seal_fields: "get_slot i (rt_seal r) = get_slot i r" "rt_seq (rt_seal r) = rt_seq r"
  by (simp_all add: rt_seal_def get_slot_def)

lemma rt_wf_seal: "rt_wf (rt_seal r) = rt_wf r"
  by (simp add: rt_wf_def rt_seal_def)

lemma rt_sound_seal: "rt_wf r \<Longrightarrow> rt_magic r = ascii ''RT30'' \<Longrightarrow> rt_version r = INVFS_RT_VERSION \<Longrightarrow> rt_sound (rt_seal r)"
  using rt_crc_seal [of r] by (simp add: rt_sound_def) (simp add: rt_seal_def)

lemma rt30_store_view:
  assumes "anchor_ready v" "\<not> d_rewrite_needed (dl v)" "mbuf_rt30_store alloc v = (0, v')"
  shows "vsingle v' \<and> same_body v v' \<and> v_rt (vroot v') = rt_seal (v_rt (vroot v))
    \<and> store_read (vdata v') INVFS_RT_OFF 48 = rt_bytes (rt_seal (v_rt (vroot v)))
    \<and> (\<forall>i. 4096 \<le> i \<and> i < anchor_pba v * 4096 \<longrightarrow> vdata v' i = vdata v i)"
proof -
  let ?rt = "rt_seal (v_rt (vroot v))"
  define u where "u = v\<lparr>vroot := (vroot v)\<lparr>v_rt := ?rt\<rparr>\<rparr>"
  have s: "vsingle u" "rt_wf ?rt" using assms(1) by (simp_all add: anchor_ready_def u_def rt_wf_seal)
  obtain r w where w: "io_pwrite u INVFS_RT_OFF (rt_bytes ?rt) = (r, w)" by fastforce
  obtain a x where x: "anchor_refresh alloc w = (a, x)" by fastforce
  have "v_rt (vroot u) = ?rt" by (simp add: u_def)
  then have r: "r = 0" "v' = x"
    using assms(3) w x unfolding mbuf_rt30_store_def Let_def rt_seal_def [symmetric] u_def [symmetric]
    by (simp_all split: if_splits)
  have len: "length (rt_bytes ?rt) = 48" using s(2) by (simp add: length_rt_bytes)
  have wv: "vsingle w" "w = u\<lparr>st := st w\<rparr>" "vdata w = store_write (vdata v) INVFS_RT_OFF (rt_bytes ?rt)"
    using io_pwrite_single [OF s(1) w] r(1) by (simp_all add: u_def)
  have wb: "same_body v w" "vroot w = vroot u" using same_body_st [OF wv(2)] by (simp_all add: u_def same_body_def)
  have rw: "anchor_ready w" "\<not> d_rewrite_needed (dl w)"
    using same_body_ready [OF assms(1) wb(1) wv(1)] s(2) wb assms(2) by (simp_all add: u_def same_body_def)
  note av = anchor_refresh_view [OF rw x]
  have p: "anchor_pba w = anchor_pba v" "anchor_pba v \<noteq> 0"
    using wb(1) anchor_pba_pos [OF assms(1)] by (simp_all add: anchor_pba_def same_body_def)
  have far: "vdata x i = vdata w i" if "i < anchor_pba v * 4096" for i using av that p(1) by simp
  have "store_read (vdata x) INVFS_RT_OFF 48 = store_read (vdata w) INVFS_RT_OFF 48"
    by (rule store_read_cong) (use far p(2) in \<open>auto simp: INVFS_RT_OFF_def\<close>)
  then have rd: "store_read (vdata x) INVFS_RT_OFF 48 = rt_bytes ?rt" using wv(3) len by (simp add: store_read_write_same)
  have xb: "same_body w x" "v_rt (vroot x) = v_rt (vroot w)"
    using arg_cong [OF conjunct1 [OF conjunct2 [OF av]], of sb] arg_cong [OF conjunct1 [OF conjunct2 [OF av]], of dl]
      arg_cong [OF conjunct1 [OF conjunct2 [OF av]], of pin] arg_cong [OF conjunct1 [OF conjunct2 [OF av]], of sp]
      arg_cong [OF conjunct1 [OF conjunct2 [OF av]], of "\<lambda>v. v_rt (vroot v)"]
    by (simp_all add: same_body_def)
  have "vdata x i = vdata v i" if "4096 \<le> i" "i < anchor_pba v * 4096" for i
    using far [OF that(2)] that(1) wv(3) len by (simp add: store_write_split INVFS_RT_OFF_def)
  then show ?thesis using r(2) av rd same_body_trans [OF wb(1) xb(1)] xb(2) wb(2) by (simp add: u_def)
qed

lemma rt30_load_finds:
  assumes "vsingle v" "store_read (vdata v) INVFS_RT_OFF 48 = rt_bytes r" "rt_wf r" "rt_sound r" "mbuf_rt30_load v = (rc, v')"
  shows "rc = -1 \<or> rc = 0 \<and> v_rt (vroot v') = r \<and> rt_present (vroot v')"
proof -
  let ?u = "v\<lparr>vroot := (vroot v)\<lparr>rt_present := False, v_rt := zero_rt\<rparr>\<rparr>"
  obtain x w where w: "io_pread ?u INVFS_RT_OFF 48 = (x, w)" by fastforce
  have "vsingle ?u" using assms(1) by simp
  from io_pread_single [OF this w] have "x = None \<or> x = Some (rt_bytes r)" using assms(2) by (cases x) auto
  then show ?thesis using assms(3-5) w by (auto simp: mbuf_rt30_load_def Let_def rt_of_bytes)
qed

section \<open>Publishing a root\<close>

text \<open>A single-device volume laid out so that block 0, the bitmap, the root page and the anchor do not
  overlap, with an RT30 that is ours when there is one.\<close>

definition publish_ready :: "invfs_volume \<Rightarrow> nat \<Rightarrow> bool" where
  "publish_ready v root \<longleftrightarrow> anchor_ready v \<and> \<not> d_rewrite_needed (dl v) \<and> bm_synced v \<and> 4096 \<le> bm_base v
     \<and> bm_base v + length (bitmap (sp v)) \<le> root * 4096 \<and> root < anchor_pba v
     \<and> (rt_present (vroot v) \<longrightarrow> rt_magic (v_rt (vroot v)) = ascii ''RT30'' \<and> rt_version (v_rt (vroot v)) = INVFS_RT_VERSION)"

definition fresh_rt :: "invfs_volume \<Rightarrow> invfs_volume" where
  "fresh_rt v = (if rt_present (vroot v) then v
     else v\<lparr>vroot := (vroot v)\<lparr>v_rt := zero_rt\<lparr>rt_magic := ascii ''RT30'', rt_version := INVFS_RT_VERSION,
            rt_page_size := INVFS_PAGE_SIZE_DEFAULT\<rparr>, rt_present := True\<rparr>\<rparr>)"

lemma fresh_rt_view:
  assumes "publish_ready v root"
  shows "same_body v (fresh_rt v)" "st (fresh_rt v) = st v" "sp (fresh_rt v) = sp v" "rt_wf (v_rt (vroot (fresh_rt v)))"
    "rt_magic (v_rt (vroot (fresh_rt v))) = ascii ''RT30''" "rt_version (v_rt (vroot (fresh_rt v))) = INVFS_RT_VERSION"
  using assms
  by (auto simp: fresh_rt_def same_body_def publish_ready_def anchor_ready_def rt_wf_def zero_rt_def INVFS_RT_VERSION_def
      INVFS_PAGE_SIZE_DEFAULT_def)

lemma bitmap_flush_view:
  assumes "vsingle v" "bm_synced v" "vol_bitmap_flush v = (0, v')"
  shows "vsingle v' \<and> same_body v v' \<and> vroot v' = vroot v \<and> store_read (vdata v') (bm_base v) (length (bitmap (sp v))) = bitmap (sp v)
    \<and> (\<forall>i. i < bm_base v \<or> bm_base v + length (bitmap (sp v)) \<le> i \<longrightarrow> vdata v' i = vdata v i)"
proof -
  note sv = single_vok [OF assms(1)]
  have "vin_range v (bm_base v) (length (bitmap (sp v)))" using sv by blast
  note fs = vol_bitmap_flush_spec [OF conjunct1 [OF sv] assms(2) this assms(3)]
  have route: "ndev (st v') = ndev (st v) \<and> degraded (st v') = degraded (st v)"
  proof (cases "bm_lo (sp v) > bm_hi (sp v) \<or> \<not> bm_hi_blk v > bm_lo_blk v")
    case True
    then show ?thesis using assms(3) by (auto simp: vol_bitmap_flush_eq Let_def split: if_splits)
  next
    case False
    obtain r w where w: "io_seek_write v (bm_base v + bm_lo_blk v) (bslice (bm_lo_blk v) (bm_hi_blk v - bm_lo_blk v) (bitmap (sp v))) = (r, w)"
      by fastforce
    have "vin_range v (bm_base v + bm_lo_blk v) (length (bslice (bm_lo_blk v) (bm_hi_blk v - bm_lo_blk v) (bitmap (sp v))))"
      using single_vok [OF assms(1)] by blast
    from io_seek_write_spec [OF conjunct1 [OF sv] this w] have "same_route (st v) (st w)" by (simp add: vol_wrote_def)
    moreover have "st v' = st w" using assms(3) False w by (auto simp: vol_bitmap_flush_eq split: if_splits)
    ultimately show ?thesis by (simp add: same_route_def)
  qed
  have fr: "v' = v\<lparr>st := st v', sp := (sp v)\<lparr>bm_lo := bm_lo (sp v'), bm_hi := bm_hi (sp v')\<rparr>\<rparr>" using fs by blast
  have "sb v' = sb v" "dl v' = dl v" "pin v' = pin v" "bitmap (sp v') = bitmap (sp v)" "bitmap_blocks (sp v') = bitmap_blocks (sp v)"
    "vroot v' = vroot v"
    using arg_cong [OF fr, of sb] arg_cong [OF fr, of dl] arg_cong [OF fr, of pin] arg_cong [OF fr, of "\<lambda>v. bitmap (sp v)"]
      arg_cong [OF fr, of "\<lambda>v. bitmap_blocks (sp v)"] arg_cong [OF fr, of vroot]
    by simp_all
  then show ?thesis using route fs assms(1) by (simp add: same_body_def)
qed

definition next_rt :: "nat \<Rightarrow> invfs_rt \<Rightarrow> invfs_rt" where
  "next_rt root rt = (set_slot (rt_seq rt mod 2) root rt)\<lparr>rt_seq := sz (rt_seq rt + 1)\<rparr>"

lemma root_publish_steps:
  assumes "mbuf_root_publish alloc v root gen = (0, v')"
  obtains page v2 v3 v4 q where "root \<noteq> 0" "mbuf_read (fresh_rt v) root = (Some page, v2)" "mbuf_page_validate page"
    "ph_gen (mbuf_page_hdr page) = gen" "vol_bitmap_flush v2 = (0, v3)"
    "mbuf_rt30_store alloc (v3\<lparr>vroot := (vroot v3)\<lparr>v_rt := next_rt root (v_rt (vroot v3))\<rparr>\<rparr>) = (0, v4)" "v_barrier v4 = (q, v')"
proof -
  have root: "root \<noteq> 0"
  proof
    assume "root = 0"
    then show False using assms by (simp add: mbuf_root_publish_def)
  qed
  obtain x v2 where x: "mbuf_read (fresh_rt v) root = (x, v2)" by fastforce
  obtain r3 v3 where f: "vol_bitmap_flush v2 = (r3, v3)" by fastforce
  obtain r4 v4 where s: "mbuf_rt30_store alloc (v3\<lparr>vroot := (vroot v3)\<lparr>v_rt := next_rt root (v_rt (vroot v3))\<rparr>\<rparr>) = (r4, v4)" by fastforce
  obtain q v5 where b: "v_barrier v4 = (q, v5)" by fastforce
  have eq: "mbuf_root_publish alloc v root gen = (case x of
          None \<Rightarrow> (-1, v2)
        | Some page \<Rightarrow>
            if \<not> mbuf_page_validate page \<or> ph_gen (mbuf_page_hdr page) \<noteq> gen then (-1, v2)
            else if r3 \<noteq> 0 then (-1, v3) else if r4 \<noteq> 0 then (-1, v4) else (if q < 0 then -1 else 0, v5))"
    using root x f s b unfolding mbuf_root_publish_def Let_def fresh_rt_def [symmetric] next_rt_def [symmetric]
    by (cases x) simp_all
  have h: "x = Some page \<Longrightarrow> mbuf_page_validate page \<and> ph_gen (mbuf_page_hdr page) = gen \<and> r3 = 0 \<and> r4 = 0 \<and> v5 = v'" "x \<noteq> None" for page
    using assms unfolding eq by (cases x; auto split: if_splits)+
  then obtain page where "x = Some page" by auto
  then show ?thesis using that [of page v2 v3 v4 q] root x f s b h(1) by simp
qed

lemma next_rt_wf: "rt_wf r \<Longrightarrow> root < 2 ^ 64 \<Longrightarrow> rt_wf (next_rt root r)"
  by (simp add: rt_wf_def next_rt_def set_slot_def sz_def)

lemma next_rt_fields:
  "rt_magic (next_rt root r) = rt_magic r" "rt_version (next_rt root r) = rt_version r"
  "get_slot (rt_seq r mod 2) (next_rt root r) = root" "get_slot (1 - rt_seq r mod 2) (next_rt root r) = get_slot (1 - rt_seq r mod 2) r"
  "rt_seq (next_rt root r) = sz (rt_seq r + 1)"
  by (cases "rt_seq r mod 2 = 0"; simp add: next_rt_def set_slot_def get_slot_def)+

lemma mbuf_read_single:
  assumes "vsingle v" "mbuf_read v pba = (Some page, w)" "sb_total_blocks (sb v) * 4096 < 2 ^ 64"
  shows "vsingle w \<and> w = v\<lparr>st := st w\<rparr> \<and> vdata w = vdata v \<and> page = store_read (vdata v) (pba * 4096) 4096
    \<and> pba \<noteq> 0 \<and> pba < sb_total_blocks (sb v)"
proof -
  have p: "pba \<noteq> 0" "pba < sb_total_blocks (sb v)" "io_pread v (sz (pba * INVFS_BLOCK_SIZE)) INVFS_BLOCK_SIZE = (Some page, w)"
    using assms(2) by (auto simp: mbuf_read_def split: if_splits)
  then have "pba * 4096 < 2 ^ 64" using assms(3) mult_le_mono1 [of pba "sb_total_blocks (sb v)" 4096] by linarith
  then show ?thesis using io_pread_single [OF assms(1) p(3)] p by (simp add: sz_id INVFS_BLOCK_SIZE_def)
qed


text \<open>The parity of the new sequence number selects the slot that was not just written.\<close>

lemma newest_slot_parity: "rt_seq r + 1 < 2 ^ 64 \<Longrightarrow> rt_seq (next_rt root r) mod 2 \<noteq> rt_seq r mod 2"
  by (simp add: next_rt_def sz_id) presburger

section \<open>Choosing a root\<close>

text \<open>A root that the volume owns, whose page on the device is sound and carries the generation.\<close>

definition sound_root :: "invfs_volume \<Rightarrow> nat \<Rightarrow> nat \<Rightarrow> bool" where
  "sound_root v pba gen \<longleftrightarrow> pba \<noteq> 0 \<and> pba < sb_total_blocks (sb v) \<and> (bitmap (sp v) \<noteq> [] \<longrightarrow> bit_get (bitmap (sp v)) pba)
     \<and> mbuf_page_validate (store_read (vdata v) (pba * 4096) 4096)
     \<and> gen = ph_gen (mbuf_page_hdr (store_read (vdata v) (pba * 4096) 4096))"

definition best_ok :: "invfs_volume \<Rightarrow> (nat \<times> nat) option \<Rightarrow> bool" where
  "best_ok v best \<longleftrightarrow> (\<forall>pba gen. best = Some (pba, gen) \<longrightarrow> sound_root v pba gen \<and> (\<exists>i \<in> {0, 1}. get_slot i (v_rt (vroot v)) = pba))"

lemma best_ok_st: "w = v\<lparr>st := s\<rparr> \<Longrightarrow> vdata w = vdata v \<Longrightarrow> best_ok v best \<Longrightarrow> best_ok w best"
  by (simp add: best_ok_def sound_root_def)

lemma root_turn_ok:
  assumes "vsingle v" "sb_total_blocks (sb v) * 4096 < 2 ^ 64" "i \<in> {0, 1}" "best_ok v best" "root_turn i (best, v) = (best', v')"
  shows "vsingle v' \<and> v' = v\<lparr>st := st v'\<rparr> \<and> vdata v' = vdata v \<and> best_ok v' best'
    \<and> (best' = None \<longrightarrow> best = None)"
proof -
  let ?pba = "get_slot i (v_rt (vroot v))"
  obtain x w where w: "mbuf_read v ?pba = (x, w)" by fastforce
  have rd: "vsingle w \<and> w = v\<lparr>st := st w\<rparr> \<and> vdata w = vdata v"
  proof (cases x)
    case None
    then show ?thesis using w assms(1) io_pread_single [OF assms(1)] by (auto simp: mbuf_read_def split: if_splits)
  next
    case (Some page)
    then show ?thesis using mbuf_read_single [OF assms(1) _ assms(2)] w by blast
  qed
  have keep: "best_ok w best" using best_ok_st [OF conjunct1 [OF conjunct2 [OF rd]]] rd assms(4) by blast
  show ?thesis
  proof (cases "?pba = 0 \<or> mbuf_page_allocated v ?pba = 0")
    case True
    then have "root_turn i (best, v) = (best, v)" by (cases "?pba = 0") (simp_all add: root_turn_def Let_def)
    then show ?thesis using assms(1,4,5) by simp
  next
    case False
    then have eq: "(best', v') = (case x of None \<Rightarrow> (best, w)
        | Some page \<Rightarrow> if \<not> mbuf_page_validate page then (best, w)
            else let gen = ph_gen (mbuf_page_hdr page)
            in (case best of
                  None \<Rightarrow> (Some (?pba, gen), w)
                | Some (bp, bg) \<Rightarrow>
                    if gen > bg \<or> gen = bg \<and> i = rt_seq (v_rt (vroot w)) mod 2 then (Some (?pba, gen), w) else (best, w)))"
      using assms(5) w by (cases x) (simp_all add: root_turn_def Let_def)
    show ?thesis
    proof (cases "\<exists>page. x = Some page \<and> mbuf_page_validate page \<and> best' = Some (?pba, ph_gen (mbuf_page_hdr page))")
      case True
      then obtain page where pg: "x = Some page" "mbuf_page_validate page" "best' = Some (?pba, ph_gen (mbuf_page_hdr page))" by blast
      have v': "v' = w" using eq pg(1,2) by (auto simp: Let_def split: option.splits if_splits)
      have m: "page = store_read (vdata v) (?pba * 4096) 4096" "?pba < sb_total_blocks (sb v)"
        using mbuf_read_single [OF assms(1) _ assms(2)] w pg(1) by blast+
      have "bitmap (sp v) \<noteq> [] \<longrightarrow> bit_get (bitmap (sp v)) ?pba" using False m(2) by (auto simp: mbuf_page_allocated_def split: if_splits)
      then have "best_ok v best'" using False m pg(2,3) assms(3) by (auto simp: best_ok_def sound_root_def)
      then show ?thesis using best_ok_st [OF conjunct1 [OF conjunct2 [OF rd]]] rd v' pg(3) by simp
    next
      case other: False
      then have "best' = best \<and> v' = w" using eq by (cases x) (auto simp: Let_def split: option.splits if_splits)
      then show ?thesis using rd keep by simp
    qed
  qed
qed

lemma rt30_load_single:
  assumes "vsingle v" "mbuf_rt30_load v = (rc, v')"
  shows "vsingle v' \<and> vdata v' = vdata v \<and> sb v' = sb v \<and> sp v' = sp v \<and> (rc = 1 \<longrightarrow> \<not> rt_present (vroot v'))
    \<and> rc \<in> {-1, 0, 1, 2}"
proof -
  let ?u = "v\<lparr>vroot := (vroot v)\<lparr>rt_present := False, v_rt := zero_rt\<rparr>\<rparr>"
  obtain x w where w: "io_pread ?u INVFS_RT_OFF 48 = (x, w)" by fastforce
  have "vsingle ?u" using assms(1) by simp
  note rv = io_pread_single [OF this w]
  note b = same_body_st [OF conjunct1 [OF conjunct2 [OF rv]]]
  show ?thesis
  proof (cases x)
    case None
    then show ?thesis using assms(2) w rv b by (auto simp: mbuf_rt30_load_def Let_def same_body_def)
  next
    case (Some bs)
    then show ?thesis using assms(2) w rv b
      by (auto simp: mbuf_rt30_load_def Let_def same_body_def anchor_adopt_rt30_def split: if_splits)
  qed
qed


section \<open>A volume on which every call succeeds\<close>

definition calm :: "blkio \<Rightarrow> bool" where
  "calm io \<longleftrightarrow> fd io \<ge> 0 \<and> f_script (os io) = [] \<and> \<not> aligned io \<and> strict_policy io"

lemma calm_now: "calm io \<Longrightarrow> pf_now_ms io = (t, io') \<Longrightarrow> calm io'"
  by (auto simp: calm_def pf_now_ms_def os_clock_def strict_policy_def split: list.splits)

lemma raw_pread_once:
  "f_script f = [] \<Longrightarrow> 0 < len \<Longrightarrow> off + len \<le> f_size f \<Longrightarrow> raw_pread_loop f off len = (Some (store_read (f_data f) off len), f)"
proof -
  assume a: "f_script f = []" "0 < len" "off + len \<le> f_size f"
  have o: "os_pread f off len = (Some (store_read (f_data f) off len), f)"
    using a by (simp add: os_pread_def min_absorb1)
  have ne: "store_read (f_data f) off len \<noteq> []" using a(2) length_store_read [of "f_data f" off len] by force
  have e: "raw_pread_loop f (off + len) 0 = (Some [], f)" by (subst raw_pread_loop.simps) simp
  show ?thesis by (subst raw_pread_loop.simps) (simp add: o ne e a(2))
qed

lemma raw_pwrite_once:
  "f_script f = [] \<Longrightarrow> bs \<noteq> [] \<Longrightarrow> \<exists>f'. raw_pwrite_loop f off bs = (0, f') \<and> f_script f' = []"
proof -
  assume a: "f_script f = []" "bs \<noteq> []"
  have e: "raw_pwrite_loop g o' [] = (0, g)" for g o' by (subst raw_pwrite_loop.simps) simp
  show ?thesis by (subst raw_pwrite_loop.simps) (simp add: os_pwrite_def a e)
qed

lemma calm_pread:
  assumes "calm io" "0 < len" "off + len \<le> f_size (os io)"
  shows "\<exists>io'. blkio_pread io off len = (Some (store_read (io_data io) off len), io') \<and> calm io'"
  using assms raw_pread_once [of "os io" len off]
  by (simp add: blkio_pread_def raw_pread_def calm_def Let_def strict_policy_def)

lemma calm_pwrite:
  assumes "calm io" "bs \<noteq> []"
  shows "\<exists>io'. blkio_pwrite io off bs = (0, io') \<and> calm io'"
proof -
  obtain t io0 where t: "pf_now_ms (io\<lparr>dirty_bytes := dirty_bytes io + length bs\<rparr>) = (t, io0)" by fastforce
  have c: "calm io0" using calm_now [OF _ t] assms(1) by (simp add: calm_def strict_policy_def)
  obtain f' where f: "raw_pwrite_loop (os io0) off bs = (0, f')" "f_script f' = []"
    using raw_pwrite_once [of "os io0" bs off] c assms(2) by (auto simp: calm_def)
  show ?thesis using c f assms(2)
    by (simp add: blkio_pwrite_def t Let_def calm_def raw_pwrite_def gc_bump_def strict_policy_def)
qed

lemma calm_flush: "calm io \<Longrightarrow> fst (blkio_flush io) = 0"
  by (auto simp: blkio_flush_def pf_should_flush_strict Let_def calm_def blkio_flush_raw_def os_fsync_def split: prod.splits)

definition demo_page :: bytes where
  "demo_page = mbuf_page_seal (mbuf_page_init INVFS_PAGE_LEVEL_LEAF 3)"

definition demo_disk :: blkio where
  "demo_disk = (demo_io False)\<lparr>os := demo_file\<lparr>f_size := 65536, f_data := store_write (\<lambda>_. 0) 40960 demo_page\<rparr>\<rparr>"

definition demo_pub :: invfs_volume where
  "demo_pub = demo_anchored\<lparr>st := demo_vol\<lparr>ndev := 1, v_io := demo_disk\<rparr>,
     sp := demo_space\<lparr>bitmap := replicate 4096 0\<rparr>, vroot := demo_root\<rparr>"

lemma demo_page_ok: "length demo_page = 4096" "mbuf_page_validate demo_page"
proof -
  have "length (mbuf_page_init INVFS_PAGE_LEVEL_LEAF 3) = 4096" "take 4 (mbuf_page_init INVFS_PAGE_LEVEL_LEAF 3) = INVFS_PAGE_MAGIC"
    by (simp_all add: mbuf_page_init_def overwrite_def page_hdr_bytes_def INVFS_PAGE_MAGIC_def INVFS_BLOCK_SIZE_def)
  then show "length demo_page = 4096" "mbuf_page_validate demo_page"
    unfolding demo_page_def using page_seal_parts(1) page_seal_validates by blast+
qed

lemma demo_pub_sel:
  "vsingle demo_pub" "v_io (st demo_pub) = demo_disk" "calm demo_disk" "f_size (os demo_disk) = 65536"
  "vdata demo_pub = store_write (\<lambda>_. 0) 40960 demo_page" "sb_total_blocks (sb demo_pub) = 16" "rt_present (vroot demo_pub)"
  "bm_lo (sp demo_pub) > bm_hi (sp demo_pub)" "anchor_state (vroot demo_pub) = 1" "fresh_rt demo_pub = demo_pub"
  by (auto simp: demo_pub_def demo_anchored_def demo_volume_def demo_vol_def demo_disk_def demo_io_def demo_file_def calm_def
      strict_policy_def vol_data_def fun_eq_iff demo_super_def demo_root_def demo_space_def fresh_rt_def)

lemma demo_pub_ready: "publish_ready demo_pub 10"
proof -
  have "anchor_ready demo_pub" using demo_anchored_ready(1) by (simp add: demo_pub_def anchor_ready_def demo_vol_def demo_anchored_def demo_root_def)
  moreover have "bm_synced demo_pub"
    by (simp add: bm_synced_def bm_base_def demo_pub_sel demo_page_ok store_write_split)
       (simp add: demo_pub_def demo_anchored_def demo_super_def demo_space_def)
  ultimately show ?thesis
    by (simp add: publish_ready_def)
       (simp add: demo_pub_def demo_anchored_def demo_volume_def demo_super_def demo_delta_def bm_base_def anchor_pba_def
          demo_root_def demo_rt_def INVFS_RT_VERSION_def)
qed

lemma demo_read:
  "\<exists>d2. calm d2 \<and> (\<forall>v. st v = st demo_pub \<and> sb_total_blocks (sb v) = 16 \<longrightarrow>
     mbuf_read v 10 = (Some demo_page, v\<lparr>st := (st v)\<lparr>v_io := d2\<rparr>\<rparr>))"
proof -
  note d = demo_pub_sel
  obtain d2 where r: "blkio_pread demo_disk 40960 4096 = (Some (store_read (io_data demo_disk) 40960 4096), d2)" "calm d2"
    using calm_pread [OF d(3), of 4096 40960] d(4) by auto
  have "store_read (io_data demo_disk) 40960 4096 = demo_page"
    using demo_page_ok(1) by (simp add: demo_disk_def store_read_write_same)
  then have "mbuf_read v 10 = (Some demo_page, v\<lparr>st := (st v)\<lparr>v_io := d2\<rparr>\<rparr>)"
    if "st v = st demo_pub" "sb_total_blocks (sb v) = 16" for v
    using r(1) d(1,2) that by (simp add: mbuf_read_def mbuf_page_size_def INVFS_PAGE_SIZE_DEFAULT_def INVFS_BLOCK_SIZE_def io_pread_def
        vmux_pread_def rd0_def sz_def)
  then show ?thesis using r(2) by blast
qed

lemma demo_publish: "\<exists>v'. mbuf_root_publish (\<lambda>_. True) demo_pub 10 (ph_gen (mbuf_page_hdr demo_page)) = (0, v')"
proof -
  note d = demo_pub_sel
  obtain d2 where c2: "calm d2" and read: "\<And>v. st v = st demo_pub \<Longrightarrow> sb_total_blocks (sb v) = 16 \<Longrightarrow>
    mbuf_read v 10 = (Some demo_page, v\<lparr>st := (st v)\<lparr>v_io := d2\<rparr>\<rparr>)" using demo_read by blast
  let ?v2 = "demo_pub\<lparr>st := (st demo_pub)\<lparr>v_io := d2\<rparr>\<rparr>"
  have rd: "mbuf_read demo_pub 10 = (Some demo_page, ?v2)" using read d(6) by simp
  have fl: "vol_bitmap_flush ?v2 = (0, ?v2)" using d(8) by (simp add: vol_bitmap_flush_def)
  define u where "u = ?v2\<lparr>vroot := (vroot ?v2)\<lparr>v_rt := next_rt 10 (v_rt (vroot ?v2))\<rparr>\<rparr>"
  define rt where "rt = rt_seal (v_rt (vroot u))"
  define x where "x = u\<lparr>vroot := (vroot u)\<lparr>v_rt := rt\<rparr>\<rparr>"
  have "length (putw (rt_crc32c rt)) = 4" by (rule length_le_put)
  then have "rt_bytes rt \<noteq> []" by (auto simp: rt_bytes_def simp del: length_le_put)
  then obtain d3 where w: "blkio_pwrite d2 INVFS_RT_OFF (rt_bytes rt) = (0, d3)" "calm d3" using calm_pwrite [OF c2] by blast
  define y where "y = x\<lparr>st := (st x)\<lparr>v_io := d3\<rparr>\<rparr>"
  have "io_pwrite x INVFS_RT_OFF (rt_bytes rt) = (0, y)"
    using w(1) d(1) by (simp add: io_pwrite_def vmux_pwrite_def wr0_def x_def y_def u_def)
  moreover have "anchor_refresh (\<lambda>_. True) y = (0, y)" using d(9) by (simp add: anchor_refresh_def y_def x_def u_def INVFS_ANCHOR_OK_def)
  ultimately have st: "mbuf_rt30_store (\<lambda>_. True) u = (0, y)"
    unfolding mbuf_rt30_store_def Let_def rt_seal_def [symmetric] rt_def [symmetric] x_def [symmetric] by (simp add: x_def)
  have "fst (v_barrier y) = 0"
    using calm_flush [OF w(2)] d(1) by (auto simp: v_barrier_def vmux_barrier_def flush0_def y_def x_def u_def split: prod.splits)
  then obtain v' where b: "v_barrier y = (0, v')" by (cases "v_barrier y") auto
  have nr: "(set_slot (rt_seq r mod 2) 10 r)\<lparr>rt_seq := sz (rt_seq r + 1)\<rparr> = next_rt 10 r" for r by (simp add: next_rt_def)
  have "mbuf_root_publish (\<lambda>_. True) demo_pub 10 (ph_gen (mbuf_page_hdr demo_page)) = (0, v')"
    unfolding mbuf_root_publish_def Let_def nr
    using rd fl st [unfolded u_def] b d(7) demo_page_ok(2) by simp
  then show ?thesis by blast
qed


text \<open>The same volume with its root named by slot 0 and marked in the bitmap.\<close>

definition demo_rooted :: invfs_volume where
  "demo_rooted = demo_pub\<lparr>sp := demo_space\<lparr>bitmap := [0, 4]\<rparr>,
     vroot := demo_root\<lparr>v_rt := demo_rt\<lparr>rt_root_slot0 := 10, rt_root_slot1 := 0\<rparr>\<rparr>\<rparr>"

lemma demo_rooted_read: "\<exists>v'. mbuf_root_read demo_rooted = (0, Some (10, ph_gen (mbuf_page_hdr demo_page)), v')"
proof -
  obtain d2 where read: "\<And>v. st v = st demo_pub \<Longrightarrow> sb_total_blocks (sb v) = 16 \<Longrightarrow>
    mbuf_read v 10 = (Some demo_page, v\<lparr>st := (st v)\<lparr>v_io := d2\<rparr>\<rparr>)" using demo_read by blast
  have s: "st demo_rooted = st demo_pub" "sb_total_blocks (sb demo_rooted) = 16" "bitmap (sp demo_rooted) = [0, 4]"
    "rt_root_slot0 (v_rt (vroot demo_rooted)) = 10" "rt_root_slot1 (v_rt (vroot demo_rooted)) = 0" "rt_present (vroot demo_rooted)"
    using demo_pub_sel(6) by (simp_all add: demo_rooted_def demo_root_def)
  have "mbuf_page_allocated demo_rooted 10 = 1" by (simp add: mbuf_page_allocated_def s bit_get_def)
  then have t: "root_turn 0 (None, demo_rooted) = (Some (10, ph_gen (mbuf_page_hdr demo_page)), demo_rooted\<lparr>st := (st demo_rooted)\<lparr>v_io := d2\<rparr>\<rparr>)"
    using read [OF s(1,2)] demo_page_ok(2) by (simp add: root_turn_def get_slot_def s)
  show ?thesis by (simp add: mbuf_root_read_def s t) (simp add: root_turn_def get_slot_def s)
qed


end
