(* ===== verification/DeltaLog.thy ===== *)
theory DeltaLog
  imports Metabuf
begin

text \<open>
  The delta log as its clients see it (\<^verbatim>\<open>src/core/vol_delta.c\<close>): appending a record, with the roll-over to a
  new segment and the fence of a full group, draining the group, looking a key up, and the mount that
  replays the chain of segments. The memory, the environment and the clock that a call finds are one
  record; \<open>None\<close> is a search in the index that does not return. An append and a drain return the list of
  deferred frees that the caller frees after unlocking, beside their code. The lemmas relate the handle to
  the records of the chain on the device: a successful append adds its record at the end, a look-up
  answers with the newest record of its key, and a mount rebuilds the index from the device alone.
\<close>

section \<open>Mounting\<close>

definition DELTA_MAX_SEGMENTS :: nat where "DELTA_MAX_SEGMENTS = 2 ^ 20"

text \<open>What a call finds: \<open>getenv\<close> and the clock; the outcomes of the allocations of an index, of the chain
  (by its length), of a segment buffer (by segment), of \<open>di_put\<close> (by sequence number), of a new segment, of
  a record, of its retention, of the list of deferred frees, of the pads; and the nesting depth of a free.\<close>

record log_env =
  e_getenv :: "string \<Rightarrow> string option"
  e_now :: nat
  e_new :: "bool \<times> bool"
  e_chain :: "nat \<Rightarrow> bool"
  e_buf :: "nat \<Rightarrow> bool"
  e_put :: "nat \<Rightarrow> bool \<times> bool"
  e_seg :: bool
  e_rec :: bool
  e_keep :: bool
  e_retire :: bool
  e_pad :: "nat \<Rightarrow> bool"
  e_depth :: nat

definition delta_read_hdr :: "invfs_volume \<Rightarrow> nat \<Rightarrow> invfs_delta_seg_hdr option \<times> invfs_volume" where
  "delta_read_hdr v pba =
    (if pba = 0 \<or> pba \<ge> sb_total_blocks (sb v) then (None, v)
     else case io_pread v (sz (pba * INVFS_BLOCK_SIZE)) INVFS_DELTA_SEG_HDR_LEN of
            (None, v) \<Rightarrow> (None, v)
          | (Some raw, v) \<Rightarrow> (delta_hdr_decode raw INVFS_DELTA_SEG_HDR_LEN, v))"

definition vol_delta_close :: "vol_delta \<Rightarrow> vol_delta" where
  "vol_delta_close d =
    (let d = dl_staged_free (d\<lparr>d_index := None, d_seg_pba := 0, d_bump := 0, d_ready := False, d_records := 0, d_segments := 0,
               d_bytes := 0, d_seq := 0, d_seg_gen := 0, d_oldest_seq := 0, d_oldest_when := 0, d_pending := 0,
               d_pending_bytes := 0, d_group_max := 0, d_group_bytes := 0\<rparr>)
     in d\<lparr>d_rewrite_needed := False, d_retire := [], d_cretire := 0\<rparr>)"

text \<open>The replay of the payload of a segment from \<open>off\<close> on: the code, the delta fields, the end of the last
  valid record, the number of records and whether the tail is torn.\<close>

function replay_loop :: "log_env \<Rightarrow> nat \<Rightarrow> nat \<Rightarrow> bytes \<Rightarrow> vol_delta \<Rightarrow> nat \<Rightarrow> nat \<Rightarrow> nat \<Rightarrow>
    (int \<times> vol_delta \<times> nat \<times> nat \<times> bool) option" where
  "replay_loop e pba hdr pay d off lst n =
    (if off < length pay
     then case vol_delta_rec_parse pay (length pay) off of
            Parse_end \<Rightarrow> Some (0, d, lst, n, False)
          | Parse_bad \<Rightarrow> Some (0, d, lst, n, True)
          | Parse_rec kl vl fl rl \<Rightarrow>
              if fl AND INVFS_DELTA_FLAG_PAD \<noteq> 0 then replay_loop e pba hdr pay d (off + rl) (off + rl) n
              else (case d_index d of None \<Rightarrow> None
                    | Some di \<Rightarrow>
                        let seq = sz (d_seq d + 1)
                        in case di_put (fst (e_put e seq)) (snd (e_put e seq)) di (bslice (off + INVFS_DELTA_REC_HDR_LEN) (unat kl) pay)
                                  \<lparr>r_seg = pba, r_off = hdr + off, r_seq = seq, r_flags = fl, r_vlen = vl\<rparr> of
                             None \<Rightarrow> None
                           | Some (rc, di, ins) \<Rightarrow>
                               let d = d\<lparr>d_index := Some di, d_seq := seq\<rparr>
                               in if rc \<noteq> 0 then Some (-1, d, lst, n, False)
                                  else replay_loop e pba hdr pay (d\<lparr>d_records := (if ins then sz (d_records d + 1) else d_records d)\<rparr>)
                                         (off + rl) (off + rl) (n + 1))
     else Some (0, d, lst, n, False))"
  by pat_completeness auto
termination
  by (relation "measure (\<lambda>(e, pba, hdr, pay, d, off, lst, n). length pay - off)") (auto dest!: rec_parse_len)

declare replay_loop.simps [simp del]

text \<open>The code, the offset one past the last valid record, and the handle.\<close>

definition delta_replay_segment :: "log_env \<Rightarrow> invfs_volume \<Rightarrow> nat \<Rightarrow> invfs_delta_seg_hdr \<Rightarrow> (int \<times> nat \<times> invfs_volume) option" where
  "delta_replay_segment e v pba h =
    (let hdr = unat (dsh_hdr_size h); plen = sz_sub INVFS_DELTA_SEG_BYTES hdr
     in if \<not> e_buf e pba then Some (-1, 0, v)
        else case io_pread v (sz (pba * INVFS_BLOCK_SIZE)) INVFS_DELTA_SEG_BYTES of
               (None, v) \<Rightarrow> Some (-1, 0, v)
             | (Some buf, v) \<Rightarrow>
                 map_option (\<lambda>(rc, d, lst, n, torn). (rc, lst, v\<lparr>dl := d\<rparr>))
                   (replay_loop e pba hdr (bslice hdr plen buf) (dl v) 0 0 0))"

text \<open>The walk from the newest segment to the oldest, at most \<open>n\<close> more of them; no chain when memory is short.\<close>

fun mount_walk :: "log_env \<Rightarrow> nat \<Rightarrow> invfs_volume \<Rightarrow> nat \<Rightarrow> nat \<Rightarrow> nat list \<Rightarrow> nat list option \<times> invfs_volume" where
  "mount_walk e 0 v cur cp chain = (Some chain, v)"
| "mount_walk e (Suc n) v cur cp chain =
    (if cur = 0 then (Some chain, v)
     else case delta_read_hdr v cur of
            (None, v) \<Rightarrow> (Some chain, v)
          | (Some h, v) \<Rightarrow>
              if length chain = cp \<and> \<not> e_chain e cp then (None, v)
              else let cp = (if length chain = cp then if cp \<noteq> 0 then cp * 2 else 8 else cp);
                       chain = chain @ [cur]; v = dl_reserve_segment v cur; prev = unat (dsh_prev_pba h)
              in if prev = cur then (Some chain, v) else mount_walk e n v prev cp chain)"

text \<open>The replay of the chain, oldest segment first; the last one is the active segment.\<close>

fun mount_replay :: "log_env \<Rightarrow> invfs_volume \<Rightarrow> nat list \<Rightarrow> (int \<times> invfs_volume) option" where
  "mount_replay e v [] = Some (0, v)"
| "mount_replay e v (pba # newer) =
    (case delta_read_hdr v pba of
       (None, v) \<Rightarrow> mount_replay e v newer
     | (Some h, v) \<Rightarrow>
         (case delta_replay_segment e v pba h of
            None \<Rightarrow> None
          | Some (rc, valid_end, v) \<Rightarrow>
              if rc \<noteq> 0 then Some (-1, v)
              else let d = dl v;
                       d = d\<lparr>d_bytes := sz (d_bytes d + valid_end), d_seg_gen := max (d_seg_gen d) (unat (dsh_seg_seq h))\<rparr>;
                       d = (if newer = [] then d\<lparr>d_seg_pba := pba, d_bump := unat (dsh_hdr_size h) + valid_end\<rparr> else d)
              in mount_replay e (v\<lparr>dl := d\<rparr>) newer))"

definition mount_fail :: "invfs_volume \<Rightarrow> int \<times> invfs_volume" where
  "mount_fail v = (-1, v\<lparr>dl := (dl v)\<lparr>d_index := None, d_ready := False\<rparr>\<rparr>)"

definition mount_chain :: "log_env \<Rightarrow> invfs_volume \<Rightarrow> (int \<times> invfs_volume) option" where
  "mount_chain e v =
    (case mount_walk e DELTA_MAX_SEGMENTS v (rt_delta_pba (v_rt (vroot v))) 0 [] of
       (None, v) \<Rightarrow> Some (mount_fail v)
     | (Some chain, v) \<Rightarrow>
         (case mount_replay e v (rev chain) of
            None \<Rightarrow> None
          | Some (rc, v) \<Rightarrow>
              if rc \<noteq> 0 then Some (mount_fail v)
              else let d = (dl v)\<lparr>d_segments := length chain, d_ready := True\<rparr>;
                       d = (if d_seq d > 0 then d\<lparr>d_oldest_seq := 1, d_oldest_when := e_now e\<rparr> else d)
              in Some (0, v\<lparr>dl := d\<rparr>)))"

text \<open>\<open>g\<close> is the process-wide instance counter of indexes.\<close>

definition vol_delta_mount :: "log_env \<Rightarrow> nat \<Rightarrow> invfs_volume \<Rightarrow> (int \<times> nat \<times> invfs_volume) option" where
  "vol_delta_mount e g v =
    (let d = vol_delta_close (dl v); (o_di, g) = di_new (fst (e_new e)) (snd (e_new e)) g
     in case o_di of
          None \<Rightarrow> Some (-1, g, v\<lparr>dl := d\<rparr>)
        | Some di \<Rightarrow>
            let d = dl_group_parse (e_getenv e)
                      (d\<lparr>d_index := Some di, d_ready := False, d_seg_pba := 0, d_bump := 0, d_seq := 0, d_records := 0, d_segments := 0,
                         d_bytes := 0, d_seg_gen := 0, d_oldest_seq := 0, d_oldest_when := 0\<rparr>);
                empty = v\<lparr>dl := d\<lparr>d_ready := True\<rparr>\<rparr>
            in if \<not> rt_present (vroot v) \<or> rt_delta_pba (v_rt (vroot v)) = 0 then Some (0, g, empty)
               else if rt_delta_pba (v_rt (vroot v)) \<ge> sb_total_blocks (sb v) then Some (0, g, empty)
               else map_option (\<lambda>(rc, v). (rc, g, v)) (mount_chain e (v\<lparr>dl := d\<rparr>)))"

section \<open>Appending\<close>

definition vol_delta_lock :: "invfs_volume \<Rightarrow> invfs_volume" where
  "vol_delta_lock v = v\<lparr>dl := (dl v)\<lparr>d_locked := True\<rparr>\<rparr>"

definition vol_delta_unlock :: "invfs_volume \<Rightarrow> invfs_volume" where
  "vol_delta_unlock v = v\<lparr>dl := (dl v)\<lparr>d_locked := False\<rparr>\<rparr>"

text \<open>The end of a failed call under the lock: the group is doomed.\<close>

definition doomed_fail :: "invfs_volume \<Rightarrow> (int \<times> invfs_volume) option" where
  "doomed_fail v = map_option (Pair (-1)) (vol_delta_doom v)"

text \<open>The group is on the device.\<close>

definition group_fenced :: "vol_delta \<Rightarrow> vol_delta" where
  "group_fenced d = (dl_staged_free d)\<lparr>d_pending := 0, d_pending_bytes := 0, d_rewrite_needed := False\<rparr>"

definition set_delta_pba :: "nat \<Rightarrow> invfs_volume \<Rightarrow> invfs_volume" where
  "set_delta_pba pba v = v\<lparr>vroot := (vroot v)\<lparr>v_rt := (v_rt (vroot v))\<lparr>rt_delta_pba := pba\<rparr>\<rparr>\<rparr>"

definition name_segment :: "nat \<Rightarrow> invfs_volume \<Rightarrow> invfs_volume" where
  "name_segment pba v =
    (if rt_present (vroot v) then set_delta_pba pba v
     else v\<lparr>vroot := (vroot v)\<lparr>v_rt := zero_rt\<lparr>rt_magic := ascii ''RT30'', rt_version := INVFS_RT_VERSION,
            rt_page_size := INVFS_PAGE_SIZE_DEFAULT, rt_delta_pba := pba\<rparr>, rt_present := True\<rparr>\<rparr>)"

definition delta_rollover :: "log_env \<Rightarrow> invfs_volume \<Rightarrow> (int \<times> invfs_volume) option" where
  "delta_rollover e v =
    Option.bind (delta_new_segment (e_seg e) (e_depth e) v (d_seg_pba (dl v)))
      (\<lambda>(pba, v).
        if pba = 0 then Some (-1, v)
        else let (r, v) = mbuf_rt30_store (e_pad e) (name_segment pba v)
        in if r \<noteq> 0 then doomed_fail (set_delta_pba (d_seg_pba (dl v)) v)
           else let (r, v) = v_barrier v
           in if r < 0 then doomed_fail (set_delta_pba (d_seg_pba (dl v)) v)
              else Some (0, v\<lparr>dl := (group_fenced (dl v))\<lparr>d_segments := sz (d_segments (dl v) + 1), d_seg_pba := pba,
                                 d_bump := INVFS_DELTA_SEG_HDR_LEN, d_ready := True\<rparr>\<rparr>))"

text \<open>A record of \<open>rl\<close> bytes that failed after it was written: its span is consumed and the group doomed.\<close>

definition span_fail :: "bool \<Rightarrow> nat \<Rightarrow> invfs_volume \<Rightarrow> (int \<times> invfs_volume) option" where
  "span_fail kept rl v =
    (let d = dl v;
         d = (if kept then d
              else d\<lparr>d_pending := (if d_pending d > 0 then d_pending d - 1 else d_pending d),
                     d_pending_bytes := (if d_pending_bytes d \<ge> rl then d_pending_bytes d - rl else 0)\<rparr>)
     in doomed_fail (v\<lparr>dl := d\<lparr>d_bump := sz (d_bump d + rl), d_bytes := sz (d_bytes d + rl)\<rparr>\<rparr>))"

definition group_full :: "vol_delta \<Rightarrow> bool" where
  "group_full d \<longleftrightarrow> d_group_max d = 0 \<or> d_group_bytes d = 0 \<or> d_pending d \<ge> d_group_max d \<or> d_pending_bytes d \<ge> d_group_bytes d"

definition heal_if_needed :: "log_env \<Rightarrow> invfs_volume \<Rightarrow> invfs_volume" where
  "heal_if_needed e v = (if d_rewrite_needed (dl v) \<and> length (d_staged (dl v)) > 0 then dl_staged_heal (e_pad e) v else v)"

text \<open>The fence of a full group; with the code and the handle, the deferred frees that it released.\<close>

definition append_fence :: "log_env \<Rightarrow> invfs_volume \<Rightarrow> bool \<Rightarrow> nat \<Rightarrow> (int \<times> delta_retire_ent list \<times> invfs_volume) option" where
  "append_fence e v kept rl =
    (if \<not> group_full (dl v) then Some (0, [], v)
     else let (r, v) = v_barrier (heal_if_needed e v)
     in if r < 0 then map_option (\<lambda>(rc, v). (rc, [], v)) (span_fail kept rl v)
        else map_option (\<lambda>(rd, d). (0, rd, v\<lparr>dl := d\<rparr>)) (dl_retire_collect (e_retire e) (group_fenced (dl v))))"

definition append_index ::
  "log_env \<Rightarrow> invfs_volume \<Rightarrow> bytes \<Rightarrow> u16 \<Rightarrow> u16 \<Rightarrow> bool \<Rightarrow> nat \<Rightarrow> delta_retire_ent list \<Rightarrow> (int \<times> delta_retire_ent list \<times> invfs_volume) option" where
  "append_index e v key vl fl kept rl rd =
    (let seq = sz (d_seq (dl v) + 1); d = (dl v)\<lparr>d_seq := seq\<rparr>
     in case d_index d of
          None \<Rightarrow> None
        | Some di \<Rightarrow>
            (case di_put (fst (e_put e seq)) (snd (e_put e seq)) di key
                    \<lparr>r_seg = d_seg_pba d, r_off = d_bump d, r_seq = seq, r_flags = fl, r_vlen = vl\<rparr> of
               None \<Rightarrow> None
             | Some (rc, di, ins) \<Rightarrow>
                 let d = d\<lparr>d_index := Some di\<rparr>
                 in if rc \<noteq> 0 then map_option (\<lambda>(rc, v). (rc, [], v)) (span_fail kept rl (v\<lparr>dl := d\<rparr>))
                    else let d = (if d_oldest_seq d = 0 then d\<lparr>d_oldest_seq := seq, d_oldest_when := e_now e\<rparr> else d);
                             d = d\<lparr>d_bytes := sz (d_bytes d + rl), d_bump := sz (d_bump d + rl),
                                   d_records := (if ins then sz (d_records d + 1) else d_records d)\<rparr>
                    in Some (0, rd, v\<lparr>dl := d\<rparr>)))"

text \<open>The part under the lock once there is a segment with room.\<close>

definition append_record :: "log_env \<Rightarrow> invfs_volume \<Rightarrow> bytes \<Rightarrow> bytes \<Rightarrow> u16 \<Rightarrow> (int \<times> delta_retire_ent list \<times> invfs_volume) option" where
  "append_record e v key val fl =
    (let rec = delta_rec_encode key val fl; rl = length rec;
         abs = sz (d_seg_pba (dl v) * INVFS_BLOCK_SIZE + d_bump (dl v))
     in if \<not> e_rec e then Some (-1, [], v)
        else let (r, v) = io_pwrite v abs rec
        in if r \<noteq> 0 then map_option (\<lambda>(rc, v). (rc, [], v)) (doomed_fail v)
           else (case dl_staged_keep (e_keep e) (dl v) abs rec key of
                   None \<Rightarrow> None
                 | Some (k, d) \<Rightarrow>
                     let v = v\<lparr>dl := d\<lparr>d_pending := sz (d_pending d + 1), d_pending_bytes := sz (d_pending_bytes d + rl)\<rparr>\<rparr>
                     in (case append_fence e v (k = 0) rl of
                           None \<Rightarrow> None
                         | Some (rc, rd, v) \<Rightarrow>
                             if rc \<noteq> 0 then Some (-1, [], v)
                             else append_index e v key (of_nat (length val)) fl (k = 0) rl rd)))"

definition append_locked :: "log_env \<Rightarrow> invfs_volume \<Rightarrow> bytes \<Rightarrow> bytes \<Rightarrow> u16 \<Rightarrow> (int \<times> delta_retire_ent list \<times> invfs_volume) option" where
  "append_locked e v key val fl =
    (let rl = INVFS_DELTA_REC_HDR_LEN + length key + length val
     in case (if d_seg_pba (dl v) = 0 \<or> sz (d_bump (dl v) + rl) > INVFS_DELTA_SEG_BYTES then delta_rollover e v else Some (0, v)) of
          None \<Rightarrow> None
        | Some (rc, v) \<Rightarrow> if rc \<noteq> 0 then Some (-1, [], v) else append_record e v key val fl)"

text \<open>The code, the deferred frees to be freed after unlocking, the instance counter and the handle.\<close>

definition vol_delta_append ::
  "log_env \<Rightarrow> nat \<Rightarrow> invfs_volume \<Rightarrow> bytes \<Rightarrow> bytes \<Rightarrow> u16 \<Rightarrow> (int \<times> delta_retire_ent list \<times> nat \<times> invfs_volume) option" where
  "vol_delta_append e g v key val fl =
    (if key = [] then Some (-1, [], g, v)
     else if fl AND NOT INVFS_DELTA_FLAG_DELETE \<noteq> 0 then Some (-1, [], g, v)
     else if fl AND INVFS_DELTA_FLAG_DELETE \<noteq> 0 \<and> val \<noteq> [] then Some (-1, [], g, v)
     else if vol_flag v VOLF_READONLY then Some (-1, [], g, v)
     else case (if d_ready (dl v) then Some (0, g, v) else vol_delta_mount e g v) of
            None \<Rightarrow> None
          | Some (rc, g, v) \<Rightarrow>
              if rc \<noteq> 0 then Some (-1, [], g, v)
              else let (rc, v) = vol_mark_dirty v
              in if rc \<noteq> 0 then Some (-1, [], g, v)
                 else if INVFS_DELTA_REC_HDR_LEN + length key + length val > INVFS_DELTA_SEG_BYTES - INVFS_DELTA_SEG_HDR_LEN
                 then Some (-1, [], g, v)
                 else map_option (\<lambda>(rc, rd, v). (rc, rd, g, vol_delta_unlock v)) (append_locked e (vol_delta_lock v) key val fl))"

section \<open>Draining\<close>

definition vol_retire_drain_all :: "log_env \<Rightarrow> invfs_volume \<Rightarrow> (delta_retire_ent list \<times> invfs_volume) option" where
  "vol_retire_drain_all e v = map_option (\<lambda>(rd, d). (rd, v\<lparr>dl := d\<rparr>)) (dl_retire_collect (e_retire e) (dl v))"

definition vol_delta_drain :: "log_env \<Rightarrow> invfs_volume \<Rightarrow> (int \<times> delta_retire_ent list \<times> invfs_volume) option" where
  "vol_delta_drain e v =
    (if \<not> d_ready (dl v) then Some (0, [], v)
     else if d_pending (dl v) = 0 \<and> d_staged (dl v) = []
     then map_option (\<lambda>(rd, d). (0, rd, v\<lparr>dl := d\<rparr>)) (dl_retire_collect (e_retire e) ((dl v)\<lparr>d_rewrite_needed := False\<rparr>))
     else let (rc, v) = v_barrier (heal_if_needed e (vol_delta_lock v))
     in if rc = 0 then map_option (\<lambda>(rd, d). (0, rd, vol_delta_unlock (v\<lparr>dl := d\<rparr>))) (dl_retire_collect (e_retire e) (group_fenced (dl v)))
        else map_option (\<lambda>v. (rc, [], vol_delta_unlock v)) (vol_delta_doom v))"

definition vol_delta_pending :: "invfs_volume \<Rightarrow> nat" where
  "vol_delta_pending v = d_pending (dl v)"

definition vol_delta_count :: "invfs_volume \<Rightarrow> nat" where
  "vol_delta_count v = (case d_index (dl v) of None \<Rightarrow> 0 | Some di \<Rightarrow> di_used di)"

definition vol_delta_stats :: "invfs_volume \<Rightarrow> nat \<times> nat \<times> nat" where
  "vol_delta_stats v = (d_records (dl v), d_segments (dl v), d_bytes (dl v))"

section \<open>Looking up\<close>

definition vol_delta_lookup :: "invfs_volume \<Rightarrow> bytes \<Rightarrow> (int \<times> delta_ref option) option" where
  "vol_delta_lookup v key =
    (if key = [] then Some (-1, None)
     else case d_index (dl v) of
            None \<Rightarrow> Some (0, None)
          | Some di \<Rightarrow> map_option (\<lambda>i. case i of None \<Rightarrow> (0, None) | Some i \<Rightarrow> (1, Some (ref_of (di_slot di ! i)))) (di_find di key))"

definition DL_ONEPREAD_VMAX :: nat where "DL_ONEPREAD_VMAX = 1024"

text \<open>The code, the value read, if any, and the handle.\<close>

definition delta_read_value_locked :: "invfs_volume \<Rightarrow> delta_ref \<Rightarrow> nat \<Rightarrow> int \<times> bytes \<times> invfs_volume" where
  "delta_read_value_locked v r klen =
    (let at = sz (r_seg r * INVFS_BLOCK_SIZE + r_off r); vl = unat (r_vlen r)
     in if r_vlen r = 0 then (0, [], v)
        else if klen \<noteq> 0 \<and> klen \<le> 256 \<and> vl \<le> DL_ONEPREAD_VMAX
        then (case io_pread v at (INVFS_DELTA_REC_HDR_LEN + klen + vl) of
                (None, v) \<Rightarrow> (-1, [], v)
              | (Some rec, v) \<Rightarrow>
                  if unat (dl_rd16be rec) \<noteq> klen \<or> dl_rd16be (drop 2 rec) \<noteq> r_vlen r then (-1, [], v)
                  else (0, bslice (INVFS_DELTA_REC_HDR_LEN + klen) vl rec, v))
        else (case io_pread v at INVFS_DELTA_REC_HDR_LEN of
                (None, v) \<Rightarrow> (-1, [], v)
              | (Some hdr, v) \<Rightarrow>
                  (case io_pread v (sz (at + INVFS_DELTA_REC_HDR_LEN + unat (dl_rd16be hdr))) vl of
                     (None, v) \<Rightarrow> (-1, [], v)
                   | (Some bs, v) \<Rightarrow> (0, bs, v))))"

text \<open>The code, the flags and length of the record found, the value, and the handle; \<open>room\<close> is the size of
  the caller's buffer.\<close>

definition vol_delta_lookup_value :: "invfs_volume \<Rightarrow> bytes \<Rightarrow> nat \<Rightarrow> (int \<times> (u16 \<times> u16) option \<times> bytes \<times> invfs_volume) option" where
  "vol_delta_lookup_value v key room =
    (if key = [] then Some (-1, None, [], v)
     else case d_index (dl v) of
            None \<Rightarrow> Some (0, None, [], v)
          | Some di \<Rightarrow>
              (case di_find di key of
                 None \<Rightarrow> None
               | Some None \<Rightarrow> Some (0, None, [], v)
               | Some (Some i) \<Rightarrow>
                   let s = di_slot di ! i; r = ref_of s
                   in if r_vlen r = 0 then Some (1, Some (r_flags r, 0), [], v)
                      else if room < unat (r_vlen r) then Some (-2, Some (r_flags r, r_vlen r), [], v)
                      else let (rc, bs, v) = delta_read_value_locked v r (unat (ds_klen s))
                      in Some (if rc = 0 then 1 else -1, Some (r_flags r, if rc = 0 then r_vlen r else 0), bs, v)))"

definition vol_delta_read_value :: "invfs_volume \<Rightarrow> delta_ref \<Rightarrow> nat \<Rightarrow> int \<times> bytes \<times> invfs_volume" where
  "vol_delta_read_value v r room =
    (if r_vlen r = 0 then (0, [], v)
     else if room < unat (r_vlen r) then (-1, [], v)
     else delta_read_value_locked v r 0)"

section \<open>Replaying a segment\<close>

definition is_pad :: "delta_rec \<Rightarrow> bool" where
  "is_pad r \<longleftrightarrow> snd (snd r) AND INVFS_DELTA_FLAG_PAD \<noteq> 0"

text \<open>The sequence number after the records, and the references to them, when the first lies at \<open>off\<close> and the
  last number given is \<open>q\<close>.\<close>

fun seg_seq :: "nat \<Rightarrow> delta_rec list \<Rightarrow> nat" where
  "seg_seq q [] = q"
| "seg_seq q (r # rs) = seg_seq (if is_pad r then q else sz (q + 1)) rs"

fun seg_refs :: "nat \<Rightarrow> nat \<Rightarrow> nat \<Rightarrow> delta_rec list \<Rightarrow> (bytes \<times> delta_ref) list" where
  "seg_refs pba off q [] = []"
| "seg_refs pba off q (r # rs) =
    (if is_pad r then seg_refs pba (off + length (drec_encode r)) q rs
     else (fst r, \<lparr>r_seg = pba, r_off = off, r_seq = sz (q + 1), r_flags = snd (snd r), r_vlen = of_nat (length (fst (snd r)))\<rparr>)
          # seg_refs pba (off + length (drec_encode r)) (sz (q + 1)) rs)"

abbreviation enc :: "delta_rec list \<Rightarrow> bytes" where
  "enc rs \<equiv> concat (map drec_encode rs)"

lemma seg_seq_append: "seg_seq q (as @ bs) = seg_seq (seg_seq q as) bs"
  by (induction as arbitrary: q) simp_all

lemma seg_refs_append: "seg_refs pba off q (as @ bs) = seg_refs pba off q as @ seg_refs pba (off + length (enc as)) (seg_seq q as) bs"
  by (induction as arbitrary: q off) (simp_all add: add.assoc)

lemma parse_all_step:
  assumes "vol_delta_rec_parse buf (length buf) off = Parse_rec kl vl fl rl" "off < length buf"
  obtains key val where "parse_all buf (length buf) off = (key, val, fl) # parse_all buf (length buf) (off + rl)"
    "bslice (off + 10) (unat kl) buf = key" "vl = of_nat (length val)" "rl = length (drec_encode (key, val, fl))"
    "length key < 2 ^ 16" "drec_ok (key, val, fl)"
proof -
  obtain key val where kv: "drec_ok (key, val, fl)" "kl = of_nat (length key)" "vl = of_nat (length val)"
    "rl = 10 + length key + length val" "take rl (drop off buf) = delta_rec_encode key val fl"
    by (rule rec_parse_sound [OF assms(1)]) auto
  have len: "length key < 2 ^ 16" "length val < 2 ^ 16" using kv(1) by simp_all
  have "drop off buf = delta_rec_encode key val fl @ drop rl (drop off buf)" using kv(5) by (metis append_take_drop_id)
  from record_body [OF len(2) this] have b: "bslice (off + 10) (length key) buf = key" "bslice (off + 10 + length key) (length val) buf = val" .
  have u: "unat kl = length key" "unat vl = length val" using len kv(2,3) unat_of_nat_u16 by auto
  have "parse_all buf (length buf) off = (key, val, fl) # parse_all buf (length buf) (off + rl)"
    using assms b u by (subst parse_all.simps) (simp add: INVFS_DELTA_REC_HDR_LEN_def)
  then show ?thesis using that b(1) u kv len length_encode [OF len(2)] by auto
qed

lemma replay_loop_spec:
  assumes "d_index d = Some di" "di_ok di"
  shows "\<exists>rc d' lst n' torn di'. replay_loop e pba hdr pay d off off n = Some (rc, d', lst, n', torn) \<and> d_index d' = Some di' \<and> di_ok di'
    \<and> d' = d\<lparr>d_index := d_index d', d_seq := d_seq d', d_records := d_records d'\<rparr>
    \<and> (rc = 0 \<longrightarrow> di_refs di' = di_refs di ++ map_of (rev (seg_refs pba (hdr + off) (d_seq d) (parse_all pay (length pay) off)))
        \<and> d_seq d' = seg_seq (d_seq d) (parse_all pay (length pay) off) \<and> lst = off + length (enc (parse_all pay (length pay) off)))
    \<and> ((\<forall>q. e_put e q = (True, True)) \<longrightarrow> rc = 0)"
  using assms
proof (induction "length pay - off" arbitrary: d di off n rule: less_induct)
  case less
  show ?case
  proof (cases "\<exists>kl vl fl rl. off < length pay \<and> vol_delta_rec_parse pay (length pay) off = Parse_rec kl vl fl rl")
    case False
    then have "parse_all pay (length pay) off = []"
      by (subst parse_all.simps) (auto split: delta_parse.splits)
    moreover have "\<exists>torn. replay_loop e pba hdr pay d off off n = Some (0, d, off, n, torn)"
      using False by (subst replay_loop.simps) (auto split: delta_parse.splits)
    ultimately show ?thesis using less.prems by auto
  next
    case True
    then obtain kl vl fl rl where p: "off < length pay" "vol_delta_rec_parse pay (length pay) off = Parse_rec kl vl fl rl" by blast
    obtain key val where kv: "parse_all pay (length pay) off = (key, val, fl) # parse_all pay (length pay) (off + rl)"
      "bslice (off + 10) (unat kl) pay = key" "vl = of_nat (length val)" "rl = length (drec_encode (key, val, fl))" "length key < 2 ^ 16"
      by (rule parse_all_step [OF p(2,1)])
    have smaller: "length pay - (off + rl) < length pay - off" using p(1) rec_parse_len [OF p(2)] by linarith
    show ?thesis
    proof (cases "fl AND INVFS_DELTA_FLAG_PAD = 0")
      case pad: False
      have "replay_loop e pba hdr pay d off off n = replay_loop e pba hdr pay d (off + rl) (off + rl) n"
        using p pad by (subst replay_loop.simps) simp
      then show ?thesis using less.hyps [OF smaller less.prems, of n] pad kv(1,4) by (simp add: is_pad_def add.assoc)
    next
      case live: True
      define seq where "seq = sz (d_seq d + 1)"
      define r where "r = \<lparr>r_seg = pba, r_off = hdr + off, r_seq = seq, r_flags = fl, r_vlen = vl\<rparr>"
      obtain rc di1 ins where put: "di_put (fst (e_put e seq)) (snd (e_put e seq)) di key r = Some (rc, di1, ins)" "di_ok di1"
        "rc = 0 \<and> di_refs di1 = (di_refs di)(key \<mapsto> r) \<or> rc = -1 \<and> \<not> (fst (e_put e seq) \<and> snd (e_put e seq))"
        using di_put_ok [OF less.prems(2) kv(5), of "fst (e_put e seq)" "snd (e_put e seq)" r] by blast
      define d1 where "d1 = d\<lparr>d_index := Some di1, d_seq := seq\<rparr>"
      define d2 where "d2 = d1\<lparr>d_records := (if ins then sz (d_records d1 + 1) else d_records d1)\<rparr>"
      have step: "replay_loop e pba hdr pay d off off n =
        (if rc \<noteq> 0 then Some (-1, d1, off, n, False) else replay_loop e pba hdr pay d2 (off + rl) (off + rl) (n + 1))"
        using p live put(1) [unfolded r_def seq_def] less.prems(1) kv(2)
        by (subst replay_loop.simps) (simp add: Let_def d2_def d1_def seq_def INVFS_DELTA_REC_HDR_LEN_def)
      show ?thesis
      proof (cases "rc = 0")
        case False
        then have "e_put e seq \<noteq> (True, True)" using put(3) by auto
        then show ?thesis using step put(2) False by (auto simp: d1_def)
      next
        case ok: True
        have d2: "d_index d2 = Some di1" "d_seq d2 = seq" by (simp_all add: d2_def d1_def)
        have "replay_loop e pba hdr pay d off off n = replay_loop e pba hdr pay d2 (off + rl) (off + rl) (n + 1)" using step ok by simp
        then show ?thesis using less.hyps [OF smaller d2(1) put(2), of "n + 1"] ok put(3) live kv(1,3,4) d2(2)
          by (auto simp: is_pad_def r_def seq_def add.assoc d2_def d1_def)
      qed
    qed
  qed
qed

section \<open>Reads of a healthy device\<close>

lemma dev_read_chunk_ok:
  assumes "io_ready io" "aligned io" "off + want \<le> cap io" "0 < want"
  shows "\<exists>bs io'. dev_read_chunk io off want = (Some bs, io')"
proof -
  let ?base = "align_down off" and ?span = "align_up (off - align_down off + want)"
  have fit: "?base + ?span \<le> cap io" using assms align_end_le [of off want "cap io"] by (simp add: io_ready_def)
  then have "?base + ?span \<le> f_size (os io)" using assms(1,2) by (simp add: io_ready_def)
  then obtain io1 where "raw_pread io ?base ?span = (Some (store_read (io_data io) ?base ?span), io1)"
    using raw_pread_ok [of io ?base ?span] assms(1) by (auto simp: io_ready_def)
  then show ?thesis using fit by (simp add: dev_read_chunk_def Let_def)
qed

lemma dev_pread_ok:
  "io_ready io \<Longrightarrow> aligned io \<Longrightarrow> off + len \<le> cap io \<Longrightarrow> \<exists>bs io'. dev_pread io off len = (Some bs, io')"
proof (induction io off len rule: dev_pread.induct)
  case (1 io off len)
  show ?case
  proof (cases "len = 0")
    case False
    have w: "0 < chunk_want off len" "chunk_want off len \<le> len" using False chunk_want_pos by (auto simp: chunk_want_def Let_def)
    obtain bs io1 where c: "dev_read_chunk io off (chunk_want off len) = (Some bs, io1)"
      using dev_read_chunk_ok [OF "1.prems"(1,2), of off "chunk_want off len"] "1.prems"(3) w by auto
    have q: "io_quiet io io1" by (rule dev_read_chunk_spec(1) [OF c])
    have "io_ready io1" "aligned io1" "off + chunk_want off len + (len - chunk_want off len) \<le> cap io1"
      using io_ready_quiet [OF "1.prems"(1) q] q "1.prems"(2,3) w by (simp_all add: io_quiet_def io_same_def)
    from "1.IH" [OF False refl c [symmetric] refl this] show ?thesis
      using False c by (subst dev_pread.simps) (auto simp: Let_def)
  qed (simp add: dev_pread.simps)
qed

text \<open>A single device that serves its first \<open>n\<close> bytes.\<close>

definition dev_reads :: "vol_storage \<Rightarrow> nat \<Rightarrow> bool" where
  "dev_reads s n \<longleftrightarrow> single s \<and> io_ready (v_io s) \<and> n \<le> (if aligned (v_io s) then cap (v_io s) else f_size (os (v_io s)))"

lemma blkio_pread_ok:
  assumes "io_ready io" "off + n \<le> (if aligned io then cap io else f_size (os io))"
  shows "\<exists>bs io'. blkio_pread io off n = (Some bs, io')"
  using assms dev_pread_ok [of io off n] raw_pread_ok [of io off n] by (auto simp: blkio_pread_def io_ready_def split: if_splits)

lemma io_pread_well:
  assumes "dev_reads (st v) m" "off + n \<le> m"
  obtains v' where "io_pread v off n = (Some (store_read (vdata v) off n), v')" "dev_reads (st v') m"
    "v' = v\<lparr>st := st v'\<rparr>" "vdata v' = vdata v"
proof -
  have s: "single (st v)" "io_ready (v_io (st v))" and m: "m \<le> (if aligned (v_io (st v)) then cap (v_io (st v)) else f_size (os (v_io (st v))))"
    using assms(1) by (simp_all add: dev_reads_def)
  obtain bs io' where b: "blkio_pread (v_io (st v)) off n = (Some bs, io')"
    using blkio_pread_ok [OF s(2), of off n] assms(2) m by (meson order_trans)
  define v' where "v' = v\<lparr>st := (st v)\<lparr>v_io := io'\<rparr>\<rparr>"
  have p: "io_pread v off n = (Some bs, v')" using s(1) b by (simp add: io_pread_def vmux_pread_def rd0_def v'_def)
  have q: "io_quiet (v_io (st v)) io'" by (rule blkio_pread_spec(1) [OF b])
  have "dev_reads (st v') m" using s m io_ready_quiet [OF s(2) q] q os_quiet_fields(2) [of "os (v_io (st v))" "os io'"]
    by (simp add: dev_reads_def v'_def io_quiet_def io_same_def split: if_splits)
  then show ?thesis using that [of v'] p io_pread_single [OF s(1) p] by simp
qed

section \<open>The chain on the device\<close>

text \<open>A segment of the chain: its first block, its generation and its records.\<close>

type_synonym dseg = "nat \<times> u64 \<times> delta_rec list"

definition seg_on :: "store \<Rightarrow> nat \<Rightarrow> u64 \<Rightarrow> nat \<Rightarrow> delta_rec list \<Rightarrow> bool" where
  "seg_on f pba gen prev rs \<longleftrightarrow> (\<exists>pay. store_read f (pba * 4096) INVFS_DELTA_SEG_BYTES = delta_hdr_encode gen (of_nat prev) @ pay
     \<and> delta_records pay = rs)"

fun head_pba :: "dseg list \<Rightarrow> nat" where
  "head_pba [] = 0"
| "head_pba ((pba, _, _) # _) = pba"

text \<open>The chain, newest segment first, on a volume of \<open>n\<close> blocks.\<close>

fun chain_on :: "store \<Rightarrow> nat \<Rightarrow> dseg list \<Rightarrow> bool" where
  "chain_on f n [] \<longleftrightarrow> True"
| "chain_on f n ((pba, gen, rs) # ss) \<longleftrightarrow> 0 < pba \<and> pba + 32 \<le> n \<and> head_pba ss \<noteq> pba \<and> seg_on f pba gen (head_pba ss) rs \<and> chain_on f n ss"

text \<open>The records of a chain given oldest segment first, and the references to them.\<close>

definition log_recs :: "dseg list \<Rightarrow> delta_rec list" where
  "log_recs ss = concat (map (\<lambda>(pba, gen, rs). rs) ss)"

fun chain_refs :: "nat \<Rightarrow> dseg list \<Rightarrow> (bytes \<times> delta_ref) list" where
  "chain_refs q [] = []"
| "chain_refs q ((pba, gen, rs) # ss) = seg_refs pba 44 q rs @ chain_refs (seg_seq q rs) ss"

lemma chain_refs_append: "chain_refs q (as @ bs) = chain_refs q as @ chain_refs (seg_seq q (log_recs as)) bs"
  by (induction as arbitrary: q) (auto simp: log_recs_def seg_seq_append)

lemma seg_on_hdr:
  assumes "seg_on f pba gen prev rs"
  shows "store_read f (pba * 4096) 44 = delta_hdr_encode gen (of_nat prev)"
    "delta_records (store_read f (pba * 4096 + 44) (INVFS_DELTA_SEG_BYTES - 44)) = rs"
proof -
  obtain pay where p: "store_read f (pba * 4096) (44 + (INVFS_DELTA_SEG_BYTES - 44)) = delta_hdr_encode gen (of_nat prev) @ pay"
    "delta_records pay = rs"
    using assms by (auto simp: seg_on_def INVFS_DELTA_SEG_BYTES_def)
  then have "store_read f (pba * 4096) 44 = delta_hdr_encode gen (of_nat prev) \<and> store_read f (pba * 4096 + 44) (INVFS_DELTA_SEG_BYTES - 44) = pay"
    unfolding store_read_append by (simp add: append_eq_append_conv)
  then show "store_read f (pba * 4096) 44 = delta_hdr_encode gen (of_nat prev)"
    "delta_records (store_read f (pba * 4096 + 44) (INVFS_DELTA_SEG_BYTES - 44)) = rs" using p(2) by auto
qed

text \<open>A healthy volume of \<open>n\<close> blocks, and what a mount leaves alone.\<close>

definition vol_reads :: "invfs_volume \<Rightarrow> nat \<Rightarrow> bool" where
  "vol_reads v n \<longleftrightarrow> dev_reads (st v) (n * 4096) \<and> sb_total_blocks (sb v) = n \<and> n * 4096 < 2 ^ 64"

definition mount_frame :: "invfs_volume \<Rightarrow> invfs_volume \<Rightarrow> bool" where
  "mount_frame v w \<longleftrightarrow> sb w = sb v \<and> vroot w = vroot v \<and> pin w = pin v \<and> vdata w = vdata v"

lemma mount_frame_trans: "mount_frame u v \<Longrightarrow> mount_frame v w \<Longrightarrow> mount_frame u w"
  by (simp add: mount_frame_def)

lemma mount_frame_refl [simp]: "mount_frame v v"
  by (simp add: mount_frame_def)

lemma vol_reads_pread:
  assumes "vol_reads v n" "pba + 32 \<le> n" "m \<le> INVFS_DELTA_SEG_BYTES"
  obtains w where "io_pread v (sz (pba * INVFS_BLOCK_SIZE)) m = (Some (store_read (vdata v) (pba * 4096) m), w)" "vol_reads w n"
    "mount_frame v w" "dl w = dl v"
proof -
  have "pba * 4096 + 32 * 4096 \<le> n * 4096" using assms(2) mult_le_mono1 [of "pba + 32" n 4096] by (simp only: add_mult_distrib)
  then have b: "pba * 4096 + m \<le> n * 4096" using assms(3) by (simp add: INVFS_DELTA_SEG_BYTES_def)
  then have "pba * 4096 < 2 ^ 64" using assms(1) by (simp add: vol_reads_def)
  then have z: "sz (pba * INVFS_BLOCK_SIZE) = pba * 4096" by (simp add: sz_id INVFS_BLOCK_SIZE_def)
  have r: "dev_reads (st v) (n * 4096)" using assms(1) by (simp add: vol_reads_def)
  obtain w where w: "io_pread v (pba * 4096) m = (Some (store_read (vdata v) (pba * 4096) m), w)" "dev_reads (st w) (n * 4096)"
    "w = v\<lparr>st := st w\<rparr>" "vdata w = vdata v" by (rule io_pread_well [OF r b])
  have "sb w = sb v" "vroot w = vroot v" "pin w = pin v" "dl w = dl v"
    using arg_cong [OF w(3), of sb] arg_cong [OF w(3), of vroot] arg_cong [OF w(3), of pin] arg_cong [OF w(3), of dl] by simp_all
  then show ?thesis using that [of w] w assms(1) z by (simp add: vol_reads_def mount_frame_def)
qed

lemma read_hdr_on:
  assumes "vol_reads v n" "0 < pba" "pba + 32 \<le> n" "seg_on (vdata v) pba gen prev rs" "prev < 2 ^ 64"
  obtains h w where "delta_read_hdr v pba = (Some h, w)" "dsh_hdr_size h = 44" "unat (dsh_prev_pba h) = prev" "dsh_seg_seq h = gen"
    "vol_reads w n" "mount_frame v w" "dl w = dl v"
proof -
  obtain w where w: "io_pread v (sz (pba * INVFS_BLOCK_SIZE)) 44 = (Some (store_read (vdata v) (pba * 4096) 44), w)" "vol_reads w n"
    "mount_frame v w" "dl w = dl v"
    by (rule vol_reads_pread [OF assms(1,3), of 44]) (simp_all add: INVFS_DELTA_SEG_BYTES_def)
  have "sb_total_blocks (sb v) = n" using assms(1) by (simp add: vol_reads_def)
  then have "delta_read_hdr v pba = (delta_hdr_decode (delta_hdr_encode gen (of_nat prev) @ []) INVFS_DELTA_SEG_HDR_LEN, w)"
    using w(1) assms(2,3) seg_on_hdr(1) [OF assms(4)] by (simp add: delta_read_hdr_def INVFS_DELTA_SEG_HDR_LEN_def)
  then show ?thesis using that w(2-4) assms(5) unfolding hdr_decode_encode by (simp add: unat_of_nat)
qed

section \<open>The mount rebuilds the index\<close>

lemma reserve_frame: "mount_frame v (dl_reserve_segment v pba)" "dl (dl_reserve_segment v pba) = dl v"
    "st (dl_reserve_segment v pba) = st v" "sb (dl_reserve_segment v pba) = sb v"
  by (simp_all add: dl_reserve_segment_def Let_def mount_frame_def)

lemma head_pba_less: "chain_on f n ss \<Longrightarrow> n * 4096 < 2 ^ 64 \<Longrightarrow> head_pba ss < 2 ^ 64"
  by (cases ss) auto

lemma mount_walk_chain:
  assumes "chain_on (vdata v) n ss" "vol_reads v n" "\<forall>i. e_chain e i" "length ss \<le> k"
  shows "\<exists>w. mount_walk e k v (head_pba ss) cp chain = (Some (chain @ map fst ss), w) \<and> vol_reads w n \<and> mount_frame v w \<and> dl w = dl v"
  using assms
proof (induction ss arbitrary: v k cp chain)
  case Nil
  then show ?case by (cases k) simp_all
next
  case (Cons s ss)
  obtain pba gen rs where s: "s = (pba, gen, rs)" by (cases s)
  obtain k' where k: "k = Suc k'" "length ss \<le> k'" using Cons.prems(4) by (cases k) auto
  have c: "0 < pba" "pba + 32 \<le> n" "head_pba ss \<noteq> pba" "seg_on (vdata v) pba gen (head_pba ss) rs" "chain_on (vdata v) n ss"
    using Cons.prems(1) by (simp_all add: s)
  have "head_pba ss < 2 ^ 64" using head_pba_less [OF c(5)] Cons.prems(2) by (simp add: vol_reads_def)
  then obtain h w where h: "delta_read_hdr v pba = (Some h, w)" "unat (dsh_prev_pba h) = head_pba ss" "vol_reads w n" "mount_frame v w" "dl w = dl v"
    by (rule read_hdr_on [OF Cons.prems(2) c(1,2,4)])
  define cp' where "cp' = (if length chain = cp then if cp \<noteq> 0 then cp * 2 else 8 else cp)"
  let ?u = "dl_reserve_segment w pba"
  have step: "mount_walk e k v (head_pba (s # ss)) cp chain = mount_walk e k' ?u (head_pba ss) cp' (chain @ [pba])"
    using h(1,2) c(1,3) Cons.prems(3) by (simp add: k s cp'_def [symmetric])
  have u: "chain_on (vdata ?u) n ss" "vol_reads ?u n"
    using c(5) h(3,4) reserve_frame [of w pba] by (simp_all add: vol_reads_def mount_frame_def)
  from Cons.IH [OF u Cons.prems(3) k(2), of cp' "chain @ [pba]"] show ?case
    unfolding step using h(4,5) reserve_frame [of w pba] by (auto simp: s intro: mount_frame_trans)
qed

text \<open>Segments given oldest first.\<close>

definition segs_on :: "store \<Rightarrow> nat \<Rightarrow> dseg list \<Rightarrow> bool" where
  "segs_on f n ss \<longleftrightarrow> (\<forall>(pba, gen, rs) \<in> set ss. 0 < pba \<and> pba + 32 \<le> n \<and> (\<exists>prev < 2 ^ 64. seg_on f pba gen prev rs))"

lemma chain_segs_on: "chain_on f n ss \<Longrightarrow> n * 4096 < 2 ^ 64 \<Longrightarrow> segs_on f n ss"
proof (induction ss)
  case (Cons s ss)
  then show ?case using head_pba_less [of f n ss] by (cases s) (auto simp: segs_on_def)
qed (simp add: segs_on_def)

lemma replay_segment_on:
  assumes "vol_reads v n" "pba + 32 \<le> n" "seg_on (vdata v) pba gen prev rs" "dsh_hdr_size h = 44" "e_buf e pba" "\<forall>q. e_put e q = (True, True)"
    and "d_index (dl v) = Some di" "di_ok di"
  obtains w di' where "delta_replay_segment e v pba h = Some (0, length (enc rs), w)" "vol_reads w n" "mount_frame v w"
    "d_index (dl w) = Some di'" "di_ok di'" "di_refs di' = di_refs di ++ map_of (rev (seg_refs pba 44 (d_seq (dl v)) rs))"
    "d_seq (dl w) = seg_seq (d_seq (dl v)) rs" "d_rewrite_needed (dl w) = d_rewrite_needed (dl v)"
proof -
  obtain w where w: "io_pread v (sz (pba * INVFS_BLOCK_SIZE)) INVFS_DELTA_SEG_BYTES = (Some (store_read (vdata v) (pba * 4096) INVFS_DELTA_SEG_BYTES), w)"
    "vol_reads w n" "mount_frame v w" "dl w = dl v"
    by (rule vol_reads_pread [OF assms(1,2) order_refl])
  let ?pay = "store_read (vdata v) (pba * 4096 + 44) (INVFS_DELTA_SEG_BYTES - 44)"
  have pay: "bslice 44 (sz_sub INVFS_DELTA_SEG_BYTES 44) (store_read (vdata v) (pba * 4096) INVFS_DELTA_SEG_BYTES) = ?pay"
    by (rule nth_equalityI) (auto simp: sz_sub_def bslice_def INVFS_DELTA_SEG_BYTES_def sz_def add.assoc)
  have rs: "parse_all ?pay (length ?pay) 0 = rs" using seg_on_hdr(2) [OF assms(3)] by (simp only: delta_records_def)
  have "d_index (dl w) = Some di" using assms(7) w(4) by simp
  from replay_loop_spec [OF this assms(8), of e pba 44 ?pay 0 0] assms(6)
  obtain d' k torn di' where r: "replay_loop e pba 44 ?pay (dl w) 0 0 0 = Some (0, d', length (enc rs), k, torn)" "d_index d' = Some di'" "di_ok di'"
    "d' = (dl w)\<lparr>d_index := d_index d', d_seq := d_seq d', d_records := d_records d'\<rparr>"
    "di_refs di' = di_refs di ++ map_of (rev (seg_refs pba 44 (d_seq (dl w)) rs))" "d_seq d' = seg_seq (d_seq (dl w)) rs"
    unfolding rs by auto
  have "d_rewrite_needed d' = d_rewrite_needed (dl w)" using arg_cong [OF r(4), of d_rewrite_needed] by simp
  moreover have "delta_replay_segment e v pba h = Some (0, length (enc rs), w\<lparr>dl := d'\<rparr>)"
    using w(1) r(1) assms(4,5) pay by (simp add: delta_replay_segment_def Let_def)
  ultimately show ?thesis using that [of "w\<lparr>dl := d'\<rparr>" di'] w(2-4) r by (simp add: vol_reads_def mount_frame_def)
qed

lemma mount_replay_chain:
  assumes "segs_on (vdata v) n ss" "vol_reads v n" "\<forall>i. e_buf e i" "\<forall>q. e_put e q = (True, True)" "d_index (dl v) = Some di" "di_ok di"
  shows "\<exists>w di'. mount_replay e v (map fst ss) = Some (0, w) \<and> vol_reads w n \<and> mount_frame v w \<and> d_index (dl w) = Some di' \<and> di_ok di'
    \<and> di_refs di' = di_refs di ++ map_of (rev (chain_refs (d_seq (dl v)) ss)) \<and> d_seq (dl w) = seg_seq (d_seq (dl v)) (log_recs ss)
    \<and> d_rewrite_needed (dl w) = d_rewrite_needed (dl v)
    \<and> (ss \<noteq> [] \<longrightarrow> d_seg_pba (dl w) = fst (last ss) \<and> d_bump (dl w) = 44 + length (enc (snd (snd (last ss)))))"
  using assms
proof (induction ss arbitrary: v di)
  case Nil
  then show ?case by (simp add: log_recs_def)
next
  case (Cons s ss)
  obtain pba gen rs where s: "s = (pba, gen, rs)" by (cases s)
  obtain prev where c: "0 < pba" "pba + 32 \<le> n" "prev < 2 ^ 64" "seg_on (vdata v) pba gen prev rs" "segs_on (vdata v) n ss"
    using Cons.prems(1) by (auto simp: s segs_on_def)
  obtain h w where h: "delta_read_hdr v pba = (Some h, w)" "dsh_hdr_size h = 44" "vol_reads w n" "mount_frame v w" "dl w = dl v"
    by (rule read_hdr_on [OF Cons.prems(2) c(1,2,4,3)])
  have "seg_on (vdata w) pba gen prev rs" "d_index (dl w) = Some di" "e_buf e pba"
    using c(4) h(4,5) Cons.prems(3,5) by (simp_all add: mount_frame_def)
  from replay_segment_on [OF h(3) c(2) this(1) h(2) this(3) Cons.prems(4) this(2) Cons.prems(6)]
  obtain x di1 where x: "delta_replay_segment e w pba h = Some (0, length (enc rs), x)" "vol_reads x n" "mount_frame w x"
    "d_index (dl x) = Some di1" "di_ok di1" "di_refs di1 = di_refs di ++ map_of (rev (seg_refs pba 44 (d_seq (dl w)) rs))"
    "d_seq (dl x) = seg_seq (d_seq (dl w)) rs" "d_rewrite_needed (dl x) = d_rewrite_needed (dl w)" by metis
  define d1 where "d1 = (dl x)\<lparr>d_bytes := sz (d_bytes (dl x) + length (enc rs)), d_seg_gen := max (d_seg_gen (dl x)) (unat (dsh_seg_seq h))\<rparr>"
  define d2 where "d2 = (if ss = [] then d1\<lparr>d_seg_pba := pba, d_bump := 44 + length (enc rs)\<rparr> else d1)"
  have step: "mount_replay e v (map fst (s # ss)) = mount_replay e (x\<lparr>dl := d2\<rparr>) (map fst ss)"
    using h(1,2) x(1) by (simp add: s Let_def d2_def d1_def)
  have d2: "d_index d2 = Some di1" "d_seq d2 = seg_seq (d_seq (dl v)) rs" "d_rewrite_needed d2 = d_rewrite_needed (dl v)"
    using x h(5) by (simp_all add: d2_def d1_def)
  have fr: "mount_frame v (x\<lparr>dl := d2\<rparr>)" using mount_frame_trans [OF h(4) x(3)] by (simp add: mount_frame_def)
  have pre: "segs_on (vdata (x\<lparr>dl := d2\<rparr>)) n ss" "vol_reads (x\<lparr>dl := d2\<rparr>) n" "d_index (dl (x\<lparr>dl := d2\<rparr>)) = Some di1"
    using c(5) fr x(2) d2(1) by (simp_all add: mount_frame_def vol_reads_def)
  have last: "ss = [] \<Longrightarrow> d_seg_pba d2 = pba \<and> d_bump d2 = 44 + length (enc rs)" by (simp add: d2_def)
  have refs: "di_refs di1 ++ map_of (rev (chain_refs (seg_seq (d_seq (dl v)) rs) ss)) = di_refs di ++ map_of (rev (chain_refs (d_seq (dl v)) (s # ss)))"
    using x(6) h(5) by (simp add: s)
  have sq: "seg_seq (d_seq (dl v)) (log_recs (s # ss)) = seg_seq (seg_seq (d_seq (dl v)) rs) (log_recs ss)"
    by (simp add: log_recs_def s seg_seq_append)
  show ?case
  proof (cases "ss = []")
    case True
    then have "mount_replay e v (map fst (s # ss)) = Some (0, x\<lparr>dl := d2\<rparr>)" using step by simp
    then show ?thesis
      using True fr pre(2) x(5) d2 last refs sq by (intro exI [of _ "x\<lparr>dl := d2\<rparr>"] exI [of _ di1]) (simp add: s log_recs_def)
  next
    case False
    obtain w' di' where w': "mount_replay e (x\<lparr>dl := d2\<rparr>) (map fst ss) = Some (0, w')" "vol_reads w' n" "mount_frame (x\<lparr>dl := d2\<rparr>) w'"
      "d_index (dl w') = Some di'" "di_ok di'" "di_refs di' = di_refs di1 ++ map_of (rev (chain_refs (d_seq d2) ss))"
      "d_seq (dl w') = seg_seq (d_seq d2) (log_recs ss)" "d_rewrite_needed (dl w') = d_rewrite_needed d2"
      "d_seg_pba (dl w') = fst (last ss)" "d_bump (dl w') = 44 + length (enc (snd (snd (last ss))))"
      using Cons.IH [OF pre(1,2) Cons.prems(3,4) pre(3) x(5)] False by auto
    show ?thesis
      using step w' refs d2(2,3) sq False mount_frame_trans [OF fr w'(3)] by (intro exI [of _ w'] exI [of _ di']) simp
  qed
qed

text \<open>The delta fields are those of a log with the given segments, newest first.\<close>

definition log_index :: "vol_delta \<Rightarrow> dseg list \<Rightarrow> bool" where
  "log_index d segs \<longleftrightarrow> d_ready d \<and> \<not> d_rewrite_needed d
     \<and> (\<exists>di. d_index d = Some di \<and> di_ok di \<and> di_refs di = map_of (rev (chain_refs 0 (rev segs))))
     \<and> d_seq d = seg_seq 0 (log_recs (rev segs)) \<and> d_seg_pba d = head_pba segs
     \<and> (segs \<noteq> [] \<longrightarrow> d_bump d = 44 + length (enc (snd (snd (hd segs)))))"

definition log_named :: "vol_root \<Rightarrow> dseg list \<Rightarrow> bool" where
  "log_named r segs \<longleftrightarrow> head_pba segs = (if rt_present r then rt_delta_pba (v_rt r) else 0)"

definition memory_ok :: "log_env \<Rightarrow> bool" where
  "memory_ok e \<longleftrightarrow> e_new e = (True, True) \<and> (\<forall>i. e_chain e i) \<and> (\<forall>i. e_buf e i) \<and> (\<forall>q. e_put e q = (True, True))"

lemma mount_rebuilds:
  assumes "vol_reads v n" "chain_on (vdata v) n segs" "length segs \<le> DELTA_MAX_SEGMENTS" "log_named (vroot v) segs" "memory_ok e"
  shows "\<exists>g' w. vol_delta_mount e g v = Some (0, g', w) \<and> log_index (dl w) segs \<and> mount_frame v w"
proof -
  obtain di where di: "di_new True True g = (Some di, sz (g + 1))" by (simp add: di_new_def)
  note ok = di_new_ok [OF di]
  define d where "d = dl_group_parse (e_getenv e) ((vol_delta_close (dl v))\<lparr>d_index := Some di, d_ready := False, d_seg_pba := 0, d_bump := 0,
    d_seq := 0, d_records := 0, d_segments := 0, d_bytes := 0, d_seg_gen := 0, d_oldest_seq := 0, d_oldest_when := 0\<rparr>)"
  have d: "d_index d = Some di" "d_seq d = 0" "\<not> d_rewrite_needed d" "d_seg_pba d = 0"
    by (simp_all add: d_def dl_group_parse_def Let_def)
  have new: "e_new e = (True, True)" using assms(5) by (simp add: memory_ok_def)
  show ?thesis
  proof (cases segs)
    case Nil
    then have "vol_delta_mount e g v = Some (0, sz (g + 1), v\<lparr>dl := d\<lparr>d_ready := True\<rparr>\<rparr>)"
      using assms(4) di new by (simp add: vol_delta_mount_def Let_def d_def log_named_def split: if_splits)
    then show ?thesis using d ok Nil by (simp add: log_index_def mount_frame_def log_recs_def)
  next
    case (Cons s ss)
    let ?v = "v\<lparr>dl := d\<rparr>"
    have hd: "head_pba segs = rt_delta_pba (v_rt (vroot v))" "rt_present (vroot v)" "0 < head_pba segs" "head_pba segs < sb_total_blocks (sb v)"
      using assms(1,2,4) Cons by (cases s; auto simp: log_named_def vol_reads_def split: if_splits)+
    have r: "vol_reads ?v n" "chain_on (vdata ?v) n segs" using assms(1,2) by (simp_all add: vol_reads_def)
    have mem: "\<forall>i. e_chain e i" "\<forall>i. e_buf e i" "\<forall>q. e_put e q = (True, True)" using assms(5) by (simp_all add: memory_ok_def)
    obtain w where w: "mount_walk e DELTA_MAX_SEGMENTS ?v (head_pba segs) 0 [] = (Some (map fst segs), w)" "vol_reads w n" "mount_frame ?v w" "dl w = d"
      using mount_walk_chain [OF r(2,1) mem(1) assms(3), of 0 "[]"] by auto
    have "segs_on (vdata w) n (rev segs)"
      using chain_segs_on [OF r(2)] w(3) assms(1) by (simp add: segs_on_def mount_frame_def vol_reads_def)
    from mount_replay_chain [OF this w(2) mem(2,3), of di] d w(4) ok
    obtain x di' where x: "mount_replay e w (map fst (rev segs)) = Some (0, x)" "mount_frame w x" "d_index (dl x) = Some di'" "di_ok di'"
      "di_refs di' = map_of (rev (chain_refs 0 (rev segs)))" "d_seq (dl x) = seg_seq 0 (log_recs (rev segs))" "\<not> d_rewrite_needed (dl x)"
      "d_seg_pba (dl x) = fst (hd segs)" "d_bump (dl x) = 44 + length (enc (snd (snd (hd segs))))"
      using Cons by (auto simp: last_rev)
    define d1 where "d1 = (dl x)\<lparr>d_segments := length segs, d_ready := True\<rparr>"
    define d2 where "d2 = (if d_seq d1 > 0 then d1\<lparr>d_oldest_seq := 1, d_oldest_when := e_now e\<rparr> else d1)"
    have "mount_chain e ?v = Some (0, x\<lparr>dl := d2\<rparr>)"
      using w(1) x(1) hd(1) by (simp add: mount_chain_def rev_map Let_def d2_def d1_def)
    then have m: "vol_delta_mount e g v = Some (0, sz (g + 1), x\<lparr>dl := d2\<rparr>)"
      using hd di new by (simp add: vol_delta_mount_def Let_def d_def)
    have "mount_frame v (x\<lparr>dl := d2\<rparr>)" using w(3) x(2) by (simp add: mount_frame_def)
    moreover have "fst (hd segs) = head_pba segs" using Cons by (cases s) simp
    ultimately show ?thesis using m x by (auto simp: log_index_def d2_def d1_def)
  qed
qed

end
