(* ===== verification/Spec2Isabelle.thy ===== *)
theory Spec2Isabelle
  imports Crc32c ReedSolomon Arc Blkio GroupCommit DeltaIndex DeltaLog
begin

text \<open>
  InvariantFS is a copy-on-write filesystem in user space, written in C. This library is a verification
  development of its storage core: the code between the operating system's files and the metadata tree, on
  which the integrity of a volume rests.

  \<^bold>\<open>The program.\<close> A volume lives on one or two devices. \<^verbatim>\<open>blkio.c\<close> turns positioned reads, writes and
  flushes into system calls; the multiplexer of \<^verbatim>\<open>volume.c\<close> routes them over the devices and mirrors the
  metadata on two of them. Block 0 holds the packed descriptors of \<^verbatim>\<open>invarifs.h\<close>: superblock, device table,
  root descriptor (RT30) and save point (SPT0); the last block holds the tail anchor (ANC0), a second copy of
  the roots. The allocator of \<^verbatim>\<open>volume.c\<close> hands out blocks from a bitmap. Changes of metadata are appended
  as records to a log of segments (\<^verbatim>\<open>vol_delta.c\<close>), indexed in memory, and fenced in groups; from time to time
  they are folded into a tree of checksummed pages (\<^verbatim>\<open>vol_metabuf.c\<close>) whose root is published in RT30. File
  content is cached by \<^verbatim>\<open>arc.c\<close> and protected by the erasure code of \<^verbatim>\<open>rs.c\<close>; every structure on disk
  carries a checksum of \<^verbatim>\<open>crc32c.c\<close>.

  \<^bold>\<open>The theories\<close>, in the order of the dependencies; a definition has the name of the function it models,
  and paths are below \<^verbatim>\<open>src/\<close> of the repository.

  \<^item> \<open>Prelude\<close>: byte buffers, stores (a device as a function from offsets to bytes), integers as bytes, the
    exclusive-or algebra, and the size type: a \<open>uint64_t\<close> or \<open>size_t\<close> is a natural number with \<open>sz\<close> and
    \<open>sz_sub\<close> writing out the wrap-around; narrower integers are words.
  \<^item> \<open>Crc32c\<close> (\<^verbatim>\<open>core/crc32c.c\<close>): tables, slice-by-8 and SSE4.2 loops, and the dispatch. All paths compute the
    bit-serial CRC; corruptions of up to four adjacent bytes are detected.
  \<^item> \<open>Gf256\<close>, \<open>GfMatrix\<close>, \<open>ReedSolomon\<close> (\<^verbatim>\<open>codecs/rs.c\<close>): the field with its tables, Gauss-Jordan inversion,
    the two parity matrices and kernels, encoding and decoding. Any k blocks rebuild the stripe, and a decode
    changes nothing unless it succeeds.
  \<^item> \<open>Arc\<close> (\<^verbatim>\<open>core/arc.c\<close>): the adaptive replacement cache as a store of nodes with hash chains and four
    linked lists. Budgets hold in every reachable state, a hit returns the bytes of its key, and every node is
    freed once. The locale \<open>content_cache\<close> is its contract towards readers.
  \<^item> \<open>Blkio\<close> (\<^verbatim>\<open>core/blkio.c\<close>): transfers with bounce buffer, cursor, resize, commit policy and flush over a
    kernel file with a volatile and a durable image; the outcomes of system calls are a script. Writes are
    exact, and what a strict flush covered survives every later power cut. The locale \<open>byte_device\<close> is the
    contract on which the multiplexer rests.
  \<^item> \<open>GroupCommit\<close> (\<open>blkio_flush\<close> as concurrent code): a step relation over threads, the lock, the condition
    variable and the watermarks. A flush that returns 0 covers every write before it, and no wake-up is lost.
  \<^item> \<open>DeltaRecord\<close> and \<open>DeltaIndex\<close> (\<^verbatim>\<open>core/vol_delta.c\<close>): record and segment header codecs, scan of a torn
    tail, tombstone pads; the open-addressing index. The parser accepts exactly what the appender writes; the
    index refines a finite map (locale \<open>key_index\<close>) and its searches end.
  \<^item> \<open>Layout\<close> (\<^verbatim>\<open>core/invarifs.h\<close>): packed images of the descriptors. They round-trip, and the slots of block 0
    do not overlap.
  \<^item> \<open>Vmux\<close> (\<^verbatim>\<open>core/volume.c\<close>, \<^verbatim>\<open>core/vol_storage.h\<close>): routing, mirror, failover, device table, barrier. Reads
    return the latest write whichever device serves them, a barrier makes bytes durable, and a degraded mount
    leaves the metadata alone. The locale \<open>byte_volume\<close> is the contract of the layers above.
  \<^item> \<open>Volume\<close> (\<^verbatim>\<open>core/volume_internal.h\<close>, \<^verbatim>\<open>core/volume.c\<close>): the handle \<open>struct invfs_volume\<close>, grouped into
    sub-records by the component that owns the fields, the device shims, bitmaps, write guards, superblock
    writer and bitmap write-back.
  \<^item> \<open>TierIndex\<close> (\<^verbatim>\<open>core/vol_tier.c\<close>): the sorted arrays of second copies, a refinement of finite maps.
  \<^item> \<open>Alloc\<close> (\<open>alloc_blocks\<close>, \<open>vol_free_blocks\<close>, \<open>vol_free_run\<close> of \<^verbatim>\<open>core/volume.c\<close>): no double allocation, exact
    counters, pinned blocks are kept, and the scan is complete from a rewound cursor.
  \<^item> \<open>DeltaStage\<close> (\<^verbatim>\<open>core/vol_delta.c\<close>): group commit of the log - caps, retained records, dooming and healing,
    deferred frees, creation of a segment. Dooming a group restores the index for records of the first block
    of a segment, and misses the others.
  \<^item> \<open>Anchor\<close> (\<^verbatim>\<open>core/vol_anchor.c\<close>): build, write, probe and refresh of the tail anchor.
  \<^item> \<open>Metabuf\<close> (\<^verbatim>\<open>core/vol_metabuf.c\<close>): pages, page allocator, load and store of RT30, publication and choice
    of a root. A published root is complete on the device, and only owned, sound roots are read.

  \<^bold>\<open>Conventions.\<close> A function that changes the handle returns its code and the new handle. Each \<open>malloc\<close> is an
  outcome parameter, so that every theorem holds for every failure pattern unless it says otherwise. Mutexes
  are the atomicity of the operations, except in \<open>GroupCommit\<close>, where the interleaving is the subject. Log
  lines and counters for statistics are left out.

  \<^bold>\<open>Bounds.\<close> Loops with a bound in the code are recursions over it. The searches of \<open>DeltaIndex\<close> may run for
  ever on a malformed table: they are partial functions, and are proved to return on every well-formed one.
  \<open>vol_free_blocks\<close> calls itself through the second copies of a block; \<open>depth\<close> bounds the nesting, and one level
  is enough on a single-device volume, where the theorems show that it returns.

  \<^bold>\<open>Not modelled.\<close> The base tree (\<^verbatim>\<open>vol_btree.c\<close>) and the recipe store above it, and with them the
  components that walk or rewrite them: \<^verbatim>\<open>vol_read.c\<close>, \<^verbatim>\<open>vol_write.c\<close>, \<^verbatim>\<open>vol_dirs.c\<close>, \<^verbatim>\<open>vol_records.c\<close>, the
  fold, the sweep and its transcoders, sealing, save-point capture and restore, fsck, migration, heat and
  resize; each is a policy over those two stores and has no contract that could be stated without them. The
  opening of devices, FUSE callbacks, command line tools, plugin hosts and helper processes are calls into the
  operating system. Compression codecs, hashes and signatures are vendored libraries behind a dispatch table.
\<close>

end
